(* ===== verification/Prelude.thy ===== *)
theory Prelude
  imports Main "HOL-Library.Word" "HOL-Library.Multiset" "HOL-Library.Sublist"
begin

unbundle bit_operations_syntax

text \<open>
  Shared vocabulary of the development: how C results, C strings and decimal text are
  represented, the generic facts about lists, prefixes, sorting and words the component
  theories use, and the collections of simplification rules they extend.
\<close>

section \<open>Shared types and collections\<close>

named_theorems layout_simps \<open>definitions that unfold to concrete C text or constants\<close>
named_theorems step_simps \<open>one-step behaviour of the model's loops and handlers\<close>

text \<open>
  A run-time failure of the C and C++ code: a failed \<^verbatim>\<open>assert\<close> (the process
  aborts), a read or write outside an array or C string (undefined behaviour), a null pointer
  dereference, and \<^verbatim>\<open>exit(code)\<close>.
\<close>

datatype c_error = AssertFail | OutOfBounds | NullDeref | Exit int

type_synonym 'a c_result = "c_error + 'a"

definition c_bind :: "'a c_result \<Rightarrow> ('a \<Rightarrow> 'b c_result) \<Rightarrow> 'b c_result" where
  "c_bind r f = (case r of Inl e \<Rightarrow> Inl e | Inr a \<Rightarrow> f a)"

lemma c_bind_simps [simp]: "c_bind (Inl e) f = Inl e" "c_bind (Inr a) f = f a"
  by (simp_all add: c_bind_def)

lemma c_bind_Inr_iff: "c_bind r f = Inr b \<longleftrightarrow> (\<exists>a. r = Inr a \<and> f a = Inr b)"
  by (cases r) simp_all

lemma c_bind_assoc: "c_bind (c_bind r f) g = c_bind r (\<lambda>a. c_bind (f a) g)"
  by (cases r) simp_all

type_synonym byte = "8 word"
type_synonym u16 = "16 word"
type_synonym u32 = "32 word"
type_synonym u64 = "64 word"

section \<open>C strings and decimal text\<close>

text \<open>The bytes of a buffer up to its terminating NUL.\<close>

definition cstr :: "string \<Rightarrow> string" where
  "cstr s = takeWhile (\<lambda>c. c \<noteq> CHR 0x00) s"

text \<open>\<^verbatim>\<open>strcspn(s, "\n")\<close>: the part of a C string before its first newline.\<close>

definition before_newline :: "string \<Rightarrow> string" where
  "before_newline s = takeWhile (\<lambda>c. c \<noteq> CHR 0x0A) s"

lemma before_newline_line: "CHR 0x0A \<notin> set l \<Longrightarrow> before_newline (l @ CHR 0x0A # s) = l"
  by (simp add: before_newline_def takeWhile_append)

definition is_digit :: "char \<Rightarrow> bool" where
  "is_digit c \<longleftrightarrow> 48 \<le> (of_char c :: nat) \<and> (of_char c :: nat) \<le> 57"

definition digit_val :: "char \<Rightarrow> nat" where
  "digit_val c = of_char c - 48"

definition digit_char :: "nat \<Rightarrow> char" where
  "digit_char d = char_of (48 + d)"

text \<open>\<^verbatim>\<open>isspace\<close> in the C locale.\<close>

definition is_space :: "char \<Rightarrow> bool" where
  "is_space c \<longleftrightarrow> c = CHR '' '' \<or> (9 \<le> (of_char c :: nat) \<and> (of_char c :: nat) \<le> 13)"

definition dec_val :: "string \<Rightarrow> nat" where
  "dec_val s = foldl (\<lambda>a c. 10 * a + digit_val c) 0 s"

text \<open>\<^verbatim>\<open>atoi\<close>: leading white space, an optional sign, then the longest run of digits.\<close>

definition atoi :: "string \<Rightarrow> int" where
  "atoi s =
     (let t = dropWhile is_space (cstr s)
      in case t of
           [] \<Rightarrow> 0
         | c # r \<Rightarrow>
             if c = CHR ''-'' then - int (dec_val (takeWhile is_digit r))
             else if c = CHR ''+'' then int (dec_val (takeWhile is_digit r))
             else int (dec_val (takeWhile is_digit t)))"

text \<open>\<^verbatim>\<open>%d\<close> and \<^verbatim>\<open>%u\<close> of \<^verbatim>\<open>printf\<close>.\<close>

fun dec_of_nat :: "nat \<Rightarrow> string" where
  "dec_of_nat n = (if n < 10 then [digit_char n] else dec_of_nat (n div 10) @ [digit_char (n mod 10)])"

declare dec_of_nat.simps [simp del]

definition dec_of_int :: "int \<Rightarrow> string" where
  "dec_of_int i = (if i < 0 then CHR ''-'' # dec_of_nat (nat (- i)) else dec_of_nat (nat i))"

lemma of_char_digit_char [simp]: "d < 10 \<Longrightarrow> (of_char (digit_char d) :: nat) = 48 + d"
  by (simp add: digit_char_def of_char_of)

lemma is_digit_digit_char [simp]: "d < 10 \<Longrightarrow> is_digit (digit_char d)"
  by (simp add: is_digit_def)

lemma digit_val_digit_char [simp]: "d < 10 \<Longrightarrow> digit_val (digit_char d) = d"
  by (simp add: digit_val_def)

lemma digit_val_less [simp]: "is_digit c \<Longrightarrow> digit_val c < 10"
  by (auto simp: is_digit_def digit_val_def)

lemma digit_char_digit_val [simp]: "is_digit c \<Longrightarrow> digit_char (digit_val c) = c"
  by (simp add: is_digit_def digit_char_def digit_val_def)

lemma dec_val_Nil [simp]: "dec_val [] = 0"
  by (simp add: dec_val_def)

lemma dec_val_snoc [simp]: "dec_val (s @ [c]) = 10 * dec_val s + digit_val c"
  by (simp add: dec_val_def)

lemma dec_val_dec_of_nat [simp]: "dec_val (dec_of_nat n) = n"
proof (induction n rule: dec_of_nat.induct)
  case (1 n)
  show ?case
  proof (cases "n < 10")
    case True
    then show ?thesis by (simp add: dec_of_nat.simps [of n] dec_val_def)
  next
    case False
    with 1 show ?thesis by (simp add: dec_of_nat.simps [of n])
  qed
qed

lemma dec_of_nat_digits: "list_all is_digit (dec_of_nat n)"
proof (induction n rule: dec_of_nat.induct)
  case (1 n)
  then show ?case by (cases "n < 10") (simp_all add: dec_of_nat.simps [of n])
qed

lemma dec_of_nat_nonempty [simp]: "dec_of_nat n \<noteq> []"
  by (subst dec_of_nat.simps) simp

lemma dec_of_nat_length: "n < 10 ^ k \<Longrightarrow> 0 < k \<Longrightarrow> length (dec_of_nat n) \<le> k"
proof (induction n arbitrary: k rule: dec_of_nat.induct)
  case (1 n)
  show ?case
  proof (cases "n < 10")
    case True
    with 1 show ?thesis by (simp add: dec_of_nat.simps [of n])
  next
    case False
    from 1 obtain j where k: "k = Suc j" by (cases k) auto
    from False "1.prems"(1) k have "j > 0" by (cases j) auto
    moreover from "1.prems"(1) k have "n div 10 < 10 ^ j" by (simp add: less_mult_imp_div_less mult.commute)
    ultimately have "length (dec_of_nat (n div 10)) \<le> j" using False 1 by blast
    with False k show ?thesis by (simp add: dec_of_nat.simps [of n])
  qed
qed

lemma is_digit_facts:
  "is_digit c \<Longrightarrow> c \<noteq> CHR ''-'' \<and> c \<noteq> CHR ''+'' \<and> \<not> is_space c \<and> c \<noteq> CHR 0x00"
  by (auto simp: is_digit_def is_space_def)

lemma takeWhile_digits_append:
  "list_all is_digit ds \<Longrightarrow> (case r of [] \<Rightarrow> True | c # _ \<Rightarrow> \<not> is_digit c) \<Longrightarrow>
     takeWhile is_digit (ds @ r) = ds"
  by (induction ds) (auto split: list.splits)

text \<open>\<^verbatim>\<open>atoi\<close> reads back what \<^verbatim>\<open>%d\<close> printed, whatever non-digit follows.\<close>

lemma atoi_dec_of_nat:
  assumes "case r of [] \<Rightarrow> True | c # _ \<Rightarrow> \<not> is_digit c"
  shows "atoi (dec_of_nat n @ r) = int n"
proof -
  obtain d ds where D: "dec_of_nat n = d # ds" by (cases "dec_of_nat n") auto
  with dec_of_nat_digits [of n] have dig: "is_digit d" "list_all is_digit ds" by auto
  have c: "cstr (dec_of_nat n @ r) = dec_of_nat n @ cstr r"
  proof -
    have "\<forall>c \<in> set (dec_of_nat n). c \<noteq> CHR 0x00"
      using dec_of_nat_digits [of n] is_digit_facts by (auto simp: list_all_iff)
    then show ?thesis by (simp add: cstr_def takeWhile_append2)
  qed
  have r': "case cstr r of [] \<Rightarrow> True | c # _ \<Rightarrow> \<not> is_digit c"
    using assms by (auto simp: cstr_def split: list.splits)
  have "takeWhile is_digit (dec_of_nat n @ cstr r) = dec_of_nat n"
    using takeWhile_digits_append [OF dec_of_nat_digits r'] by simp
  moreover have "dropWhile is_space (dec_of_nat n @ cstr r) = dec_of_nat n @ cstr r"
    using D dig is_digit_facts by simp
  moreover obtain ds' where "dec_of_nat n @ cstr r = d # ds'" using D by simp
  ultimately show ?thesis
    using dig is_digit_facts [of d] dec_val_dec_of_nat [of n] unfolding atoi_def c Let_def by simp
qed

end
