(* ===== verification/Controller_Config.thy ===== *)
theory Controller_Config
  imports Prelude
begin

text \<open>
  The start-up half of the migration controller, \<^verbatim>\<open>src/apps/controller.c\<close>: reading
  \<^verbatim>\<open>config.txt\<close> (\<^verbatim>\<open>get_config_value\<close>), the command-line dispatch of
  \<^verbatim>\<open>main\<close> with its unchecked \<^verbatim>\<open>strcpy\<close> calls, and the shell command lines
  each role builds with \<^verbatim>\<open>sprintf\<close> into a 2048-byte buffer.  Lengths of the C buffers
  are explicit: a copy that does not fit is \<^const>\<open>OutOfBounds\<close>.
\<close>

section \<open>The configuration file\<close>

definition MAX_LINE_LENGTH :: nat where "MAX_LINE_LENGTH = 255"
definition IP_LEN :: nat where "IP_LEN = 64"
definition PORT_LEN :: nat where "PORT_LEN = 20"

abbreviation newline :: char where "newline \<equiv> CHR 0x0A"
abbreviation nul :: char where "nul \<equiv> CHR 0x00"

text \<open>\<^verbatim>\<open>fgets(line, n, file)\<close>: at most \<open>n - 1\<close> bytes, up to and including a newline.\<close>

definition fgets_len :: "nat \<Rightarrow> string \<Rightarrow> nat" where
  "fgets_len n s = min (n - 1) (Suc (length (before_newline s)))"

text \<open>
  The \<^verbatim>\<open>while (fgets ...)\<close> loop: the first line that starts with the key.  The result
  is the text \<^verbatim>\<open>strcpy\<close> is given (after the first \<open>=\<close>), \<open>None\<close> when no line
  matches; a matching line without \<open>=\<close> makes \<^verbatim>\<open>strchr\<close> return null.
\<close>

function config_scan :: "string \<Rightarrow> string \<Rightarrow> string option c_result" where
  "config_scan key s =
     (if s = [] then Inr None
      else let line = cstr (take (fgets_len MAX_LINE_LENGTH s) s)
           in if prefix key line
              then (if CHR ''='' \<in> set line
                    then Inr (Some (tl (dropWhile (\<lambda>c. c \<noteq> CHR ''='') line)))
                    else Inl NullDeref)
              else config_scan key (drop (fgets_len MAX_LINE_LENGTH s) s))"
  by pat_completeness auto
termination
  by (relation "measure (\<lambda>(key, s). length s)") (auto simp: fgets_len_def MAX_LINE_LENGTH_def)

declare config_scan.simps [simp del]

text \<open>
  \<open>file\<close> is the content of \<^verbatim>\<open>./config.txt\<close>, \<open>None\<close> when it cannot be opened;
  \<open>cap\<close> the size of the destination buffer and \<open>old\<close> its content before the call.
\<close>

definition get_config_value :: "string option \<Rightarrow> nat \<Rightarrow> string \<Rightarrow> string \<Rightarrow> string c_result" where
  "get_config_value file cap key old =
     (case file of
        None \<Rightarrow> Inl (Exit (- 1))
      | Some s \<Rightarrow>
          c_bind (config_scan key s) (\<lambda>r.
            case r of
              None \<Rightarrow> Inr old
            | Some v \<Rightarrow> if length v < cap then Inr (before_newline v) else Inl OutOfBounds))"

record config =
  src_ip :: string
  dst_ip :: string
  backup_ip :: string
  vm_ip :: string
  migration_port :: string
  src_control_port :: string
  dst_control_port :: string
  backup_control_port :: string

text \<open>The eight calls at the top of \<^verbatim>\<open>main\<close>, on the zero-initialised globals.\<close>

definition read_config :: "string option \<Rightarrow> config c_result" where
  "read_config file =
     c_bind (get_config_value file IP_LEN ''SRC_IP'' []) (\<lambda>a.
     c_bind (get_config_value file IP_LEN ''DST_IP'' []) (\<lambda>b.
     c_bind (get_config_value file IP_LEN ''BACKUP_IP'' []) (\<lambda>c.
     c_bind (get_config_value file IP_LEN ''VM_IP'' []) (\<lambda>d.
     c_bind (get_config_value file PORT_LEN ''MIGRATION_PORT'' []) (\<lambda>e.
     c_bind (get_config_value file PORT_LEN ''SRC_CONTROL_PORT'' []) (\<lambda>f.
     c_bind (get_config_value file PORT_LEN ''DST_CONTROL_PORT'' []) (\<lambda>g.
     c_bind (get_config_value file PORT_LEN ''BACKUP_CONTROL_PORT'' []) (\<lambda>h.
       Inr \<lparr>src_ip = a, dst_ip = b, backup_ip = c, vm_ip = d, migration_port = e,
            src_control_port = f, dst_control_port = g, backup_control_port = h\<rparr>))))))))"

section \<open>The command line\<close>

record args =
  bench_script :: string
  cpu_num :: string
  memory_size :: string
  output_file :: string
  duration :: string
  max_bandwidth :: string
  write_through_duration :: string

definition no_args :: args where
  "no_args = \<lparr>bench_script = [], cpu_num = [], memory_size = [], output_file = [],
              duration = [], max_bandwidth = [], write_through_duration = []\<rparr>"

datatype entry =
    shm_src_main | shm_dst_main | shm_backup_main
  | qemu_src_main bool | qemu_dst_main bool | qemu_backup_main

text \<open>\<^verbatim>\<open>main\<close> either returns an exit status or calls the main function of a role.\<close>

datatype main_outcome = Return int | Enter entry config args

text \<open>\<^verbatim>\<open>strcpy\<close> into one of the 256-byte globals.\<close>

definition strcpy256 :: "string \<Rightarrow> string c_result" where
  "strcpy256 s = (if length s < 256 then Inr s else Inl OutOfBounds)"

definition main_src :: "entry \<Rightarrow> (string \<Rightarrow> args \<Rightarrow> args) \<Rightarrow> config \<Rightarrow> string list \<Rightarrow> main_outcome c_result" where
  "main_src e set_last cfg argv =
     (if length argv < 8 then Inr (Return 1)
      else c_bind (strcpy256 (argv ! 3)) (\<lambda>b.
           c_bind (strcpy256 (argv ! 4)) (\<lambda>c.
           c_bind (strcpy256 (argv ! 5)) (\<lambda>m.
           c_bind (strcpy256 (argv ! 6)) (\<lambda>f.
           c_bind (strcpy256 (argv ! 7)) (\<lambda>l.
             Inr (Enter e cfg
               (set_last l (no_args\<lparr>bench_script := b, cpu_num := c, memory_size := m, output_file := f\<rparr>)))))))))"

definition main_shm_dst :: "config \<Rightarrow> string list \<Rightarrow> main_outcome c_result" where
  "main_shm_dst cfg argv =
     (if length argv < 6 then Inr (Return 1)
      else c_bind (strcpy256 (argv ! 3)) (\<lambda>c.
           c_bind (strcpy256 (argv ! 4)) (\<lambda>m.
           c_bind (strcpy256 (argv ! 5)) (\<lambda>f.
             Inr (Enter shm_dst_main cfg (no_args\<lparr>cpu_num := c, memory_size := m, output_file := f\<rparr>))))))"

definition main_qemu_dst :: "bool \<Rightarrow> config \<Rightarrow> string list \<Rightarrow> main_outcome c_result" where
  "main_qemu_dst flag cfg argv =
     (if length argv < 7 then Inr (Return 1)
      else c_bind (strcpy256 (argv ! 3)) (\<lambda>c.
           c_bind (strcpy256 (argv ! 4)) (\<lambda>m.
           c_bind (strcpy256 (argv ! 5)) (\<lambda>f.
           c_bind (strcpy256 (argv ! 6)) (\<lambda>w.
             Inr (Enter (qemu_dst_main flag) cfg
               (no_args\<lparr>cpu_num := c, memory_size := m, output_file := f, max_bandwidth := w\<rparr>)))))))"

definition main_backup :: "entry \<Rightarrow> config \<Rightarrow> string list \<Rightarrow> main_outcome c_result" where
  "main_backup e cfg argv =
     (if length argv < 4 then Inr (Return 1)
      else if argv ! 2 \<noteq> ''backup'' then Inl AssertFail
      else c_bind (strcpy256 (argv ! 3)) (\<lambda>d.
             Inr (Enter e cfg (no_args\<lparr>write_through_duration := d\<rparr>))))"

definition main :: "string option \<Rightarrow> string list \<Rightarrow> main_outcome c_result" where
  "main file argv =
     (if length argv < 3 then Inr (Return 1)
      else c_bind (read_config file) (\<lambda>cfg.
        if argv ! 1 = ''shm'' then
          (if argv ! 2 = ''src'' then main_src shm_src_main (\<lambda>l. duration_update (\<lambda>_. l)) cfg argv
           else if argv ! 2 = ''dst'' then main_shm_dst cfg argv
           else main_backup shm_backup_main cfg argv)
        else
          (let flag = (argv ! 1 = ''qemu-precopy'')
           in if \<not> flag \<and> argv ! 1 \<noteq> ''qemu-postcopy'' then Inl AssertFail
              else if argv ! 2 = ''src'' then
                main_src (qemu_src_main flag) (\<lambda>l. max_bandwidth_update (\<lambda>_. l)) cfg argv
              else if argv ! 2 = ''dst'' then main_qemu_dst flag cfg argv
              else main_backup qemu_backup_main cfg argv)))"

section \<open>Shell commands\<close>

text \<open>
  The command lines \<^verbatim>\<open>sprintf\<close> writes into \<^verbatim>\<open>char instr[2048]\<close>, and the ones
  passed as literals.  \<^verbatim>\<open>execute_wrapper\<close> copies its argument with
  \<^verbatim>\<open>snprintf(commandname, 2048, ...)\<close>, which keeps 2047 bytes.
\<close>

definition INSTR_LEN :: nat where "INSTR_LEN = 2048"

definition execute_wrapper_command :: "string \<Rightarrow> string" where
  "execute_wrapper_command command = take 2047 command"

definition monitor :: "string \<Rightarrow> string \<Rightarrow> string" where
  "monitor side c =
     ''echo '' @ [CHR 0x22] @ c @ [CHR 0x22] @
     '' | sudo socat stdio unix-connect:qemu-monitor-migration-'' @ side"

definition cmd_src_boot :: "args \<Rightarrow> string" where
  "cmd_src_boot a =
     ''sudo bash scripts/src_boot.sh '' @ bench_script a @ '' '' @ cpu_num a @ '' '' @
     memory_size a @ '' > '' @ output_file a"

definition cmd_dst_boot :: "args \<Rightarrow> string" where
  "cmd_dst_boot a =
     ''sudo bash scripts/dst_boot.sh '' @ cpu_num a @ '' '' @ memory_size a @ '' > '' @ output_file a"

definition cmd_max_bandwidth :: "string \<Rightarrow> args \<Rightarrow> string" where
  "cmd_max_bandwidth side a =
     monitor side (''migrate_set_parameter max-bandwidth '' @ max_bandwidth a)"

definition cmd_downtime :: string where
  "cmd_downtime = monitor ''src'' ''migrate_set_parameter downtime-limit 150''"

definition cmd_postcopy_ram :: "string \<Rightarrow> string" where
  "cmd_postcopy_ram side = monitor side ''migrate_set_capability postcopy-ram on''"

definition cmd_postcopy_preempt :: "string \<Rightarrow> string" where
  "cmd_postcopy_preempt side = monitor side ''migrate_set_capability postcopy-preempt on''"

definition cmd_migrate :: "config \<Rightarrow> string" where
  "cmd_migrate cfg = monitor ''src'' (''migrate -d tcp:'' @ dst_ip cfg @ '':'' @ migration_port cfg)"

definition cmd_start_postcopy :: string where
  "cmd_start_postcopy = monitor ''src'' ''migrate_start_postcopy''"

definition cmd_migrate_incoming :: "config \<Rightarrow> string" where
  "cmd_migrate_incoming cfg =
     monitor ''dst'' (''migrate_incoming tcp:'' @ dst_ip cfg @ '':'' @ migration_port cfg)"

definition cmd_pin :: "string \<Rightarrow> string" where
  "cmd_pin side = ''sudo bash scripts/pin_vm_to_cores.sh '' @ side"

definition cmd_rm_shm :: string where
  "cmd_rm_shm = ''sudo rm /dev/shm/my_shared_memory''"

definition cmd_shm_migrate :: "args \<Rightarrow> string" where
  "cmd_shm_migrate a =
     monitor ''src'' (''shm_migrate /my_shared_memory '' @ dec_of_int (atoi (memory_size a) + 1) @
                      '' '' @ duration a)"

definition cmd_shm_switchover :: string where
  "cmd_shm_switchover = monitor ''src'' ''shm_migrate_switchover''"

definition cmd_shm_quit :: string where
  "cmd_shm_quit = monitor ''src'' ''q''"

definition cmd_shm_incoming :: "args \<Rightarrow> string" where
  "cmd_shm_incoming a =
     monitor ''dst'' (''migrate_incoming_shm /my_shared_memory '' @ dec_of_int (atoi (memory_size a) + 1))"

section \<open>Reading the configuration file\<close>

text \<open>The shape of \<^verbatim>\<open>config.txt\<close>: lines \<^verbatim>\<open>KEY=VALUE\<close>.\<close>

definition config_line :: "string \<times> string \<Rightarrow> string" where
  "config_line kv = fst kv @ CHR ''='' # snd kv @ [newline]"

definition wf_line :: "string \<times> string \<Rightarrow> bool" where
  "wf_line kv \<longleftrightarrow>
     newline \<notin> set (fst kv) \<and> nul \<notin> set (fst kv) \<and> CHR ''='' \<notin> set (fst kv) \<and>
     newline \<notin> set (snd kv) \<and> nul \<notin> set (snd kv) \<and>
     length (fst kv) + length (snd kv) + 2 < MAX_LINE_LENGTH"

lemma cstr_no_nul: "nul \<notin> set s \<Longrightarrow> cstr s = s"
  by (auto simp: cstr_def takeWhile_eq_all_conv)

lemma fgets_len_line:
  assumes "wf_line kv"
  shows "fgets_len MAX_LINE_LENGTH (config_line kv @ r) = length (config_line kv)"
proof -
  have nl: "newline \<notin> set (fst kv @ CHR ''='' # snd kv)" using assms by (simp add: wf_line_def)
  have "before_newline (config_line kv @ r) = fst kv @ CHR ''='' # snd kv"
    using before_newline_line [OF nl, of r] by (simp add: config_line_def)
  with assms show ?thesis by (simp add: fgets_len_def wf_line_def config_line_def MAX_LINE_LENGTH_def)
qed

lemma prefix_before:
  assumes "c \<notin> set key"
  shows "prefix key (k @ c # r) \<longleftrightarrow> prefix key k"
proof
  assume "prefix key (k @ c # r)"
  then have "prefix key k \<or> prefix (k @ [c]) key"
    by (metis append.assoc append_Cons append_Nil prefix_def prefix_same_cases prefix_snoc)
  with assms show "prefix key k" by (auto dest: set_mono_prefix)
qed auto

lemma tl_dropWhile_line:
  "CHR ''='' \<notin> set k \<Longrightarrow> tl (dropWhile (\<lambda>c. c \<noteq> CHR ''='') (k @ CHR ''='' # r)) = r"
  by (induction k) auto

lemma config_scan_step:
  assumes "wf_line kv" and "CHR ''='' \<notin> set key"
  shows "config_scan key (config_line kv @ r) =
    (if prefix key (fst kv) then Inr (Some (snd kv @ [newline])) else config_scan key r)"
proof -
  have c: "cstr (config_line kv) = config_line kv"
    by (rule cstr_no_nul) (use assms(1) in \<open>auto simp: wf_line_def config_line_def\<close>)
  have p: "prefix key (config_line kv) = prefix key (fst kv)"
    using prefix_before [OF assms(2)] by (simp add: config_line_def)
  have "config_scan key (config_line kv @ r) =
    (if prefix key (config_line kv)
     then if CHR ''='' \<in> set (config_line kv)
          then Inr (Some (tl (dropWhile (\<lambda>c. c \<noteq> CHR ''='') (config_line kv)))) else Inl NullDeref
     else config_scan key r)"
    by (subst config_scan.simps) (simp add: Let_def fgets_len_line [OF assms(1)] c, simp add: config_line_def)
  then show ?thesis
    using assms(1) by (simp add: p) (simp add: config_line_def wf_line_def tl_dropWhile_line)
qed

lemma config_scan_lines:
  assumes "list_all wf_line kvs" and "CHR ''='' \<notin> set key"
  shows "config_scan key (concat (map config_line kvs)) =
    Inr (map_option (\<lambda>kv. snd kv @ [newline]) (find (\<lambda>kv. prefix key (fst kv)) kvs))"
  using assms(1)
  by (induction kvs) (simp_all add: config_scan.simps [of key "[]"] config_scan_step [OF _ assms(2)])

lemma get_config_value_length:
  "get_config_value file cap key old = Inr v \<Longrightarrow> length old < cap \<Longrightarrow> length v < cap"
  by (auto simp: get_config_value_def c_bind_Inr_iff before_newline_def split: option.splits if_splits
           dest: le_less_trans [OF length_takeWhile_le])

end
