(* ===== verification/Controller_Proc.thy ===== *)
theory Controller_Proc
  imports Controller_Config
begin

text \<open>
  The running half of \<^verbatim>\<open>src/apps/controller.c\<close>: three processes (source,
  destination and backup controller) connected by two TCP streams, with signal handlers that
  preempt the main program.  The body of every main function and of every handler is a list of
  actions in program order; \<open>sys_step\<close> executes one action of one process, or delivers one
  signal, as a chosen scheduler and operating system decide.  Short reads, short writes, failing
  commands and refused connections are all among the choices.
\<close>

section \<open>Actions and programs\<close>

datatype signo = SIGUSR1 | SIGUSR2

datatype fd = connfd | srcfd | dstfd

datatype tvar = tv_start | tv_end | before_migrate | pre_copy_finish | vm_restart | post_copy_finish

text \<open>
  \<^item> \<open>Handle s\<close>: \<^verbatim>\<open>signal(s, handler)\<close>; \<open>Spawn\<close>: \<^verbatim>\<open>execute_wrapper_process\<close>;
  \<^item> \<open>Exec\<close>: \<^verbatim>\<open>execute_wrapper\<close>, status ignored; \<open>ExecOk\<close>: its status asserted to
    be 0; \<open>ExecRetry\<close>: \<^verbatim>\<open>while (1)\<close> until it is 0;
    \<open>ExecFirst\<close>: executed only while \<^verbatim>\<open>sigusr1_count\<close> is 0;
  \<^item> \<open>Listen\<close>, \<open>Accept\<close>: the two halves of \<^verbatim>\<open>listen_wrapper\<close>;
    \<open>Connect\<close>: \<^verbatim>\<open>connect_wrapper\<close>;
  \<^item> \<open>WriteMsg\<close>: \<^verbatim>\<open>write_to_file\<close>; \<open>WriteFirst fd m1 m2\<close>: the same with the message
    chosen by \<^verbatim>\<open>!sigusr1_count\<close>; \<open>ReadMsg\<close>: \<^verbatim>\<open>read_from_file\<close> of
    \<^verbatim>\<open>sizeof(msg)\<close> followed by the \<^verbatim>\<open>strcmp\<close> assertion;
  \<^item> \<open>AssertCount\<close>, \<open>SetCount\<close>: \<^verbatim>\<open>assert(sigusr1_count)\<close>, \<^verbatim>\<open>sigusr1_count = 1\<close>;
  \<^item> \<open>Sleep\<close>: \<^verbatim>\<open>sleep\<close>/\<^verbatim>\<open>usleep\<close>; \<open>Clock\<close>: \<^verbatim>\<open>clock_gettime\<close>.
  Console output has no effect on the protocol and is left out.
\<close>

datatype act =
    Handle signo
  | Spawn string | Exec string | ExecOk string | ExecRetry string | ExecFirst string
  | Listen string string | Accept | Connect fd string string
  | WriteMsg fd string | WriteFirst fd string string | ReadMsg fd string
  | AssertCount | SetCount
  | Sleep | Clock tvar

definition listen_wrapper :: "string \<Rightarrow> string \<Rightarrow> act list" where
  "listen_wrapper addr port = [Listen addr port, Accept]"

subsection \<open>QEMU's own migration\<close>

definition signal_handler_src :: "signo \<Rightarrow> act list" where
  "signal_handler_src signal =
     (if signal = SIGUSR1 then [WriteMsg connfd ''qemu_pre_copy_finish''] else [])"

definition qemu_src_code :: "bool \<Rightarrow> config \<Rightarrow> args \<Rightarrow> act list" where
  "qemu_src_code flag cfg a =
     [Handle SIGUSR1, Spawn (cmd_src_boot a), ExecRetry (cmd_max_bandwidth ''src'' a), Exec cmd_downtime] @
     (if \<not> flag then [ExecOk (cmd_postcopy_ram ''src''), ExecOk (cmd_postcopy_preempt ''src'')] else []) @
     listen_wrapper (src_ip cfg) (src_control_port cfg) @
     [ReadMsg connfd ''qemu_migrate'', ExecOk (cmd_migrate cfg)] @
     (if \<not> flag then [ExecOk cmd_start_postcopy] else []) @
     [Sleep, Exec (cmd_pin ''src'')]"

definition signal_handler_dst_1 :: "signo \<Rightarrow> act list" where
  "signal_handler_dst_1 signal =
     (if signal = SIGUSR1
      then [WriteFirst connfd ''qemu_vm_restart'' ''qemu_post_copy_finish'', ExecFirst (cmd_pin ''dst''), SetCount]
      else [])"

definition signal_handler_dst_2 :: "signo \<Rightarrow> act list" where
  "signal_handler_dst_2 signal =
     (if signal = SIGUSR2
      then [WriteFirst connfd ''qemu_vm_restart'' ''qemu_post_copy_finish'', ExecFirst (cmd_pin ''dst''), SetCount]
      else [])"

definition qemu_dst_code :: "bool \<Rightarrow> config \<Rightarrow> args \<Rightarrow> act list" where
  "qemu_dst_code flag cfg a =
     [Handle SIGUSR1, Handle SIGUSR2, Spawn (cmd_dst_boot a), ExecRetry (cmd_max_bandwidth ''dst'' a)] @
     (if \<not> flag then [ExecOk (cmd_postcopy_ram ''dst''), ExecOk (cmd_postcopy_preempt ''dst'')] else []) @
     [ExecOk (cmd_migrate_incoming cfg)] @
     listen_wrapper (dst_ip cfg) (dst_control_port cfg)"

definition signal_handler_backup :: "signo \<Rightarrow> act list" where
  "signal_handler_backup signal =
     (if signal = SIGUSR1
      then [Sleep, Clock before_migrate, WriteMsg srcfd ''qemu_migrate'',
            ReadMsg srcfd ''qemu_pre_copy_finish'', Clock pre_copy_finish,
            ReadMsg dstfd ''qemu_vm_restart'', Clock vm_restart,
            ReadMsg dstfd ''qemu_post_copy_finish'', Clock post_copy_finish]
      else [])"

definition qemu_backup_code :: "config \<Rightarrow> act list" where
  "qemu_backup_code cfg =
     [Connect srcfd (src_ip cfg) (src_control_port cfg),
      Connect dstfd (dst_ip cfg) (dst_control_port cfg), Handle SIGUSR1]"

subsection \<open>Shared-memory migration\<close>

definition signal_handler_shm_src_complete :: "signo \<Rightarrow> act list" where
  "signal_handler_shm_src_complete signal =
     (if signal = SIGUSR1
      then [AssertCount, WriteMsg connfd ''complete_vm_image'', Exec cmd_shm_quit] else [])"

definition signal_handler_shm_src_precopy :: "signo \<Rightarrow> act list" where
  "signal_handler_shm_src_precopy signal =
     (if signal = SIGUSR2 then [WriteMsg connfd ''shm_pre_copy_finish'', SetCount] else [])"

definition shm_src_code :: "config \<Rightarrow> args \<Rightarrow> act list" where
  "shm_src_code cfg a =
     [Handle SIGUSR1, Handle SIGUSR2, Exec cmd_rm_shm, Spawn (cmd_src_boot a)] @
     listen_wrapper (src_ip cfg) (src_control_port cfg) @
     [ReadMsg connfd ''shm_migrate'', Exec (cmd_shm_migrate a),
      ReadMsg connfd ''shm_migrate_switchover'', Exec cmd_shm_switchover]"

definition signal_handler_shm_dst :: "signo \<Rightarrow> act list" where
  "signal_handler_shm_dst signal =
     (if signal = SIGUSR1 then [WriteMsg connfd ''switchover_finished'', Clock tv_end] else [])"

definition shm_dst_code :: "config \<Rightarrow> args \<Rightarrow> act list" where
  "shm_dst_code cfg a =
     listen_wrapper (dst_ip cfg) (dst_control_port cfg) @
     [Handle SIGUSR1, ReadMsg connfd ''start_target_vm'', Spawn (cmd_dst_boot a),
      ReadMsg connfd ''shm_load_vm_image'', Clock tv_start, ExecRetry (cmd_shm_incoming a)]"

definition signal_handler_shm_backup :: "signo \<Rightarrow> act list" where
  "signal_handler_shm_backup signal =
     (if signal = SIGUSR1
      then [WriteMsg srcfd ''shm_migrate'', Sleep, Clock before_migrate,
            WriteMsg srcfd ''shm_migrate_switchover'', Sleep, WriteMsg dstfd ''start_target_vm'',
            ReadMsg srcfd ''shm_pre_copy_finish'', Clock pre_copy_finish,
            ReadMsg srcfd ''complete_vm_image'',
            WriteMsg dstfd ''shm_load_vm_image'', ReadMsg dstfd ''switchover_finished'', Clock vm_restart]
      else [])"

definition shm_backup_code :: "config \<Rightarrow> act list" where
  "shm_backup_code cfg =
     [Connect srcfd (src_ip cfg) (src_control_port cfg),
      Connect dstfd (dst_ip cfg) (dst_control_port cfg), Handle SIGUSR1]"

subsection \<open>The main function and the handlers of a role\<close>

fun main_code :: "entry \<Rightarrow> config \<Rightarrow> args \<Rightarrow> act list" where
  "main_code shm_src_main cfg a = shm_src_code cfg a"
| "main_code shm_dst_main cfg a = shm_dst_code cfg a"
| "main_code shm_backup_main cfg a = shm_backup_code cfg"
| "main_code (qemu_src_main flag) cfg a = qemu_src_code flag cfg a"
| "main_code (qemu_dst_main flag) cfg a = qemu_dst_code flag cfg a"
| "main_code qemu_backup_main cfg a = qemu_backup_code cfg"

text \<open>The function each main registers for a signal with \<^verbatim>\<open>signal\<close>.\<close>

fun handler_code :: "entry \<Rightarrow> signo \<Rightarrow> act list" where
  "handler_code shm_src_main s =
     (if s = SIGUSR1 then signal_handler_shm_src_complete s else signal_handler_shm_src_precopy s)"
| "handler_code shm_dst_main s = signal_handler_shm_dst s"
| "handler_code shm_backup_main s = signal_handler_shm_backup s"
| "handler_code (qemu_src_main flag) s = signal_handler_src s"
| "handler_code (qemu_dst_main flag) s =
     (if s = SIGUSR1 then signal_handler_dst_1 s else signal_handler_dst_2 s)"
| "handler_code qemu_backup_main s = signal_handler_backup s"

section \<open>Processes, streams and the system\<close>

datatype role = Src | Dst | Backup

datatype status = Running | Aborted | Exited int | Killed

text \<open>
  A process: its code (fixed), the stack of active frames (the main program at the bottom, the
  handlers that preempt it above, each with the signal it blocks), the installed handlers, which
  descriptors are assigned, \<^verbatim>\<open>sigusr1_count\<close> and the clock readings.
\<close>

record proc =
  code :: "act list"
  hcode :: "signo \<Rightarrow> act list"
  frames :: "(signo option \<times> act list) list"
  installed :: "signo \<Rightarrow> bool"
  fd_open :: "fd \<Rightarrow> bool"
  sigusr1_count :: bool
  status :: status
  clk :: "tvar \<Rightarrow> int"

text \<open>
  One direction of a TCP stream: all bytes written so far and how many of them were read;
  \<open>sent\<close> and \<open>recvd\<close> record the complete messages, for the statements below only.
\<close>

record stream =
  wr :: string
  rd :: nat
  sent :: "string list"
  recvd :: "string list"

record link =
  listening :: bool
  connected :: bool
  up :: stream
  down :: stream

record sys =
  procs :: "role \<Rightarrow> proc"
  links :: "role \<Rightarrow> link"
  now :: int
  trace :: "(role \<times> act) list"

text \<open>The stream behind a descriptor, named by the controller at its other end from the backup.\<close>

fun link_of :: "role \<Rightarrow> fd \<Rightarrow> role option" where
  "link_of Src connfd = Some Src"
| "link_of Dst connfd = Some Dst"
| "link_of Backup srcfd = Some Src"
| "link_of Backup dstfd = Some Dst"
| "link_of r f = None"

definition out_stream :: "role \<Rightarrow> link \<Rightarrow> stream" where
  "out_stream r l = (if r = Backup then down l else up l)"

definition in_stream :: "role \<Rightarrow> link \<Rightarrow> stream" where
  "in_stream r l = (if r = Backup then up l else down l)"

definition set_out :: "role \<Rightarrow> stream \<Rightarrow> link \<Rightarrow> link" where
  "set_out r st l = (if r = Backup then l\<lparr>down := st\<rparr> else l\<lparr>up := st\<rparr>)"

definition set_in :: "role \<Rightarrow> stream \<Rightarrow> link \<Rightarrow> link" where
  "set_in r st l = (if r = Backup then l\<lparr>up := st\<rparr> else l\<lparr>down := st\<rparr>)"

definition set_proc :: "role \<Rightarrow> proc \<Rightarrow> sys \<Rightarrow> sys" where
  "set_proc r p s = s\<lparr>procs := (procs s)(r := p)\<rparr>"

definition set_link :: "role \<Rightarrow> link \<Rightarrow> sys \<Rightarrow> sys" where
  "set_link r l s = s\<lparr>links := (links s)(r := l)\<rparr>"

fun pop_act :: "(signo option \<times> act list) list \<Rightarrow> (signo option \<times> act list) list" where
  "pop_act ((sg, a # as) # fs) = (sg, as) # fs"
| "pop_act fs = fs"

text \<open>Process \<open>r\<close> completes action \<open>a\<close>, after the update \<open>f\<close> of its own state.\<close>

definition advance :: "role \<Rightarrow> act \<Rightarrow> (proc \<Rightarrow> proc) \<Rightarrow> sys \<Rightarrow> sys" where
  "advance r a f s =
     (let p = f (procs s r)
      in (set_proc r (p\<lparr>frames := pop_act (frames p)\<rparr>) s)\<lparr>trace := (r, a) # trace s\<rparr>)"

definition fail :: "role \<Rightarrow> status \<Rightarrow> sys \<Rightarrow> sys" where
  "fail r st s = set_proc r ((procs s r)\<lparr>status := st\<rparr>) s"

text \<open>
  \<^verbatim>\<open>write_to_file\<close>: with \<open>k = 0\<close> the operating system takes all the bytes, with
  \<open>k > 0\<close> only the first \<open>k - 1\<close>; \<^verbatim>\<open>assert(write_len == strlen(data))\<close>.
\<close>

definition write_to_file :: "nat \<Rightarrow> string \<Rightarrow> string \<times> bool" where
  "write_to_file k data =
     (let bytes = (if k = 0 then data else take (k - 1) data)
      in (bytes, length bytes = length data))"

text \<open>
  \<^verbatim>\<open>read_from_file(fd, len, data)\<close> with \<open>len\<close> the \<^verbatim>\<open>sizeof\<close> of the expected
  literal: \<open>None\<close> while the loop has nothing to read, otherwise the bytes delivered (at most
  \<open>len - 1\<close>, at most what is available, and with \<open>k > 0\<close> at most \<open>k - 1\<close>) and whether
  \<^verbatim>\<open>assert(read_len == len - 1)\<close> holds.  \<open>k = 1\<close> also covers a failing
  \<^verbatim>\<open>read\<close>, whose result -1 ends the loop and fails the assertion.
\<close>

definition read_from_file :: "nat \<Rightarrow> nat \<Rightarrow> string \<Rightarrow> (string \<times> bool) option" where
  "read_from_file k len avail =
     (if avail = [] \<and> k \<noteq> 1 then None
      else let data = take (if k = 0 then len - 1 else min (k - 1) (len - 1)) avail
           in Some (data, length data = len - 1))"

text \<open>The two calls on a stream; the flag says that the message went through whole (and matched).\<close>

definition stream_write :: "nat \<Rightarrow> string \<Rightarrow> stream \<Rightarrow> stream \<times> bool" where
  "stream_write k m st =
     (let (bytes, ok) = write_to_file k m
      in (st\<lparr>wr := wr st @ bytes, sent := (if ok then sent st @ [m] else sent st)\<rparr>, ok))"

definition stream_read :: "nat \<Rightarrow> string \<Rightarrow> stream \<Rightarrow> (stream \<times> bool) option" where
  "stream_read k m st =
     (case read_from_file k (Suc (length m)) (drop (rd st) (wr st)) of
        None \<Rightarrow> None
      | Some (data, ok) \<Rightarrow>
          let good = (ok \<and> data = m)
          in Some (st\<lparr>rd := rd st + length data,
                      recvd := (if good then recvd st @ [m] else recvd st)\<rparr>, good))"

definition write_msg :: "nat \<Rightarrow> role \<Rightarrow> fd \<Rightarrow> string \<Rightarrow> act \<Rightarrow> sys \<Rightarrow> sys option" where
  "write_msg k r f m a s =
     (if \<not> fd_open (procs s r) f
      then \<comment> \<open>the descriptor is still 0: the bytes do not reach the peer\<close>
        (if snd (write_to_file k m) then Some (advance r a id s) else Some (fail r Aborted s))
      else case link_of r f of
        None \<Rightarrow> None
      | Some l \<Rightarrow>
          let (st, ok) = stream_write k m (out_stream r (links s l));
              s' = set_link l (set_out r st (links s l)) s
          in if ok then Some (advance r a id s') else Some (fail r Aborted s'))"

definition read_msg :: "nat \<Rightarrow> role \<Rightarrow> fd \<Rightarrow> string \<Rightarrow> act \<Rightarrow> sys \<Rightarrow> sys option" where
  "read_msg k r f m a s =
     (if \<not> fd_open (procs s r) f then None
      else case link_of r f of
        None \<Rightarrow> None
      | Some l \<Rightarrow>
          case stream_read k m (in_stream r (links s l)) of
            None \<Rightarrow> None
          | Some (st, good) \<Rightarrow>
              let s' = set_link l (set_in r st (links s l)) s
              in if good then Some (advance r a id s') else Some (fail r Aborted s'))"

text \<open>
  \<^verbatim>\<open>connect_wrapper\<close>: the connection is refused unless the peer listens; any failure is
  \<^verbatim>\<open>exit(0)\<close>.
\<close>

definition connect_wrapper :: "nat \<Rightarrow> role \<Rightarrow> fd \<Rightarrow> act \<Rightarrow> sys \<Rightarrow> sys option" where
  "connect_wrapper k r f a s =
     (case link_of r f of
        None \<Rightarrow> None
      | Some l \<Rightarrow>
          if k = 0 \<and> listening (links s l)
          then Some (advance r a (\<lambda>p. p\<lparr>fd_open := (fd_open p)(f := True)\<rparr>)
                 (set_link l ((links s l)\<lparr>connected := True\<rparr>) s))
          else Some (fail r (Exited 0) s))"

text \<open>
  One action; \<open>k\<close> is the answer of the operating system: 0 when the call does all it was asked
  to, otherwise a failing status or a short transfer.
\<close>

fun exec_act :: "nat \<Rightarrow> role \<Rightarrow> act \<Rightarrow> sys \<Rightarrow> sys option" where
  "exec_act k r (Handle sg) s =
     Some (advance r (Handle sg) (\<lambda>p. p\<lparr>installed := (installed p)(sg := True)\<rparr>) s)"
| "exec_act k r (Spawn c) s =
     (if k = 0 then Some (advance r (Spawn c) id s) else Some (fail r (Exited (- 1)) s))"
| "exec_act k r (Exec c) s = Some (advance r (Exec c) id s)"
| "exec_act k r (ExecOk c) s =
     (if k = 0 then Some (advance r (ExecOk c) id s) else Some (fail r Aborted s))"
| "exec_act k r (ExecRetry c) s = (if k = 0 then Some (advance r (ExecRetry c) id s) else Some s)"
| "exec_act k r (ExecFirst c) s = Some (advance r (ExecFirst c) id s)"
| "exec_act k r (Listen addr port) s =
     (if k = 0 then Some (advance r (Listen addr port) id
        (set_link r ((links s r)\<lparr>listening := True\<rparr>) s))
      else Some (fail r (Exited 0) s))"
| "exec_act k r Accept s =
     (if k \<noteq> 0 then Some (fail r (Exited 0) s)
      else if connected (links s r)
      then Some (advance r Accept (\<lambda>p. p\<lparr>fd_open := (fd_open p)(connfd := True)\<rparr>) s)
      else None)"
| "exec_act k r (Connect f addr port) s = connect_wrapper k r f (Connect f addr port) s"
| "exec_act k r (WriteMsg f m) s = write_msg k r f m (WriteMsg f m) s"
| "exec_act k r (WriteFirst f m1 m2) s =
     write_msg k r f (if \<not> sigusr1_count (procs s r) then m1 else m2) (WriteFirst f m1 m2) s"
| "exec_act k r (ReadMsg f m) s = read_msg k r f m (ReadMsg f m) s"
| "exec_act k r AssertCount s =
     (if sigusr1_count (procs s r) then Some (advance r AssertCount id s) else Some (fail r Aborted s))"
| "exec_act k r SetCount s = Some (advance r SetCount (\<lambda>p. p\<lparr>sigusr1_count := True\<rparr>) s)"
| "exec_act k r Sleep s = Some (advance r Sleep id s)"
| "exec_act k r (Clock v) s = Some (advance r (Clock v) (\<lambda>p. p\<lparr>clk := (clk p)(v := now s)\<rparr>) s)"

datatype choice = Run role nat | Deliver role signo | Tick nat

text \<open>
  A scheduling choice: run the innermost frame of a process, deliver a signal (its handler starts
  unless that signal is being handled already; without a handler the default action kills the
  process), or let the monotonic clock advance.  An empty main frame is the final
  \<^verbatim>\<open>while (1) sleep(1)\<close>.
\<close>

fun sys_step :: "choice \<Rightarrow> sys \<Rightarrow> sys option" where
  "sys_step (Run r k) s =
     (if status (procs s r) \<noteq> Running then None
      else case frames (procs s r) of
        [] \<Rightarrow> None
      | (sg, a # as) # fs \<Rightarrow> exec_act k r a s
      | (sg, []) # fs \<Rightarrow>
          (if fs = [] then None else Some (set_proc r ((procs s r)\<lparr>frames := fs\<rparr>) s)))"
| "sys_step (Deliver r sg) s =
     (if status (procs s r) \<noteq> Running then None
      else if \<not> installed (procs s r) sg then Some (fail r Killed s)
      else if Some sg \<in> fst ` set (frames (procs s r)) then None
      else Some (set_proc r
             ((procs s r)\<lparr>frames := (Some sg, hcode (procs s r) sg) # frames (procs s r)\<rparr>) s))"
| "sys_step (Tick d) s = Some (s\<lparr>now := now s + int d\<rparr>)"

fun run :: "choice list \<Rightarrow> sys \<Rightarrow> sys option" where
  "run [] s = Some s"
| "run (c # cs) s = (case sys_step c s of None \<Rightarrow> None | Some s' \<Rightarrow> run cs s')"

inductive reachable :: "sys \<Rightarrow> sys \<Rightarrow> bool" for s0 where
  start: "reachable s0 s0"
| step: "reachable s0 s \<Longrightarrow> sys_step c s = Some s' \<Longrightarrow> reachable s0 s'"

definition init_proc :: "entry \<Rightarrow> config \<Rightarrow> args \<Rightarrow> proc" where
  "init_proc e cfg a =
     \<lparr>code = main_code e cfg a, hcode = handler_code e, frames = [(None, main_code e cfg a)],
      installed = (\<lambda>_. False), fd_open = (\<lambda>_. False), sigusr1_count = False, status = Running,
      clk = (\<lambda>_. 0)\<rparr>"

definition init_stream :: stream where
  "init_stream = \<lparr>wr = [], rd = 0, sent = [], recvd = []\<rparr>"

definition init_link :: link where
  "init_link = \<lparr>listening = False, connected = False, up = init_stream, down = init_stream\<rparr>"

definition init_sys :: "(role \<Rightarrow> proc) \<Rightarrow> sys" where
  "init_sys ps = \<lparr>procs = ps, links = (\<lambda>_. init_link), now = 0, trace = []\<rparr>"

definition shm_init :: "config \<Rightarrow> (role \<Rightarrow> args) \<Rightarrow> sys" where
  "shm_init cfg a = init_sys (\<lambda>r. case r of
       Src \<Rightarrow> init_proc shm_src_main cfg (a Src)
     | Dst \<Rightarrow> init_proc shm_dst_main cfg (a Dst)
     | Backup \<Rightarrow> init_proc shm_backup_main cfg (a Backup))"

definition qemu_init :: "bool \<Rightarrow> config \<Rightarrow> (role \<Rightarrow> args) \<Rightarrow> sys" where
  "qemu_init flag cfg a = init_sys (\<lambda>r. case r of
       Src \<Rightarrow> init_proc (qemu_src_main flag) cfg (a Src)
     | Dst \<Rightarrow> init_proc (qemu_dst_main flag) cfg (a Dst)
     | Backup \<Rightarrow> init_proc qemu_backup_main cfg (a Backup))"

end
