(* ===== verification/Controller_Safety.thy ===== *)
theory Controller_Safety
  imports Controller_Proc
begin

text \<open>
  What the migration controllers guarantee under every schedule: program order within a process,
  byte-exact delivery on the control streams, unambiguous framing of the control messages, and
  from these the causal order of a shared-memory migration.
\<close>

section \<open>Framing of length-delimited messages\<close>

text \<open>
  The controllers read a fixed number of bytes per message.  Over a set of words none of which is
  a prefix of another, reading that way recovers exactly the words written, however the stream
  coalesces them.
\<close>

locale prefix_code =
  fixes words :: "'a list set"
  assumes nonempty: "w \<in> words \<Longrightarrow> w \<noteq> []"
    and prefix_free: "v \<in> words \<Longrightarrow> w \<in> words \<Longrightarrow> prefix v w \<Longrightarrow> v = w"
begin

lemma decode:
  assumes "set rs \<subseteq> words" and "set ws \<subseteq> words"
    and part: "part = [] \<or> (\<exists>w \<in> words. strict_prefix part w)"
    and "prefix (concat rs) (concat ws @ part)"
  shows "prefix rs ws"
  using assms(1,2,4)
proof (induction rs arbitrary: ws)
  case Nil
  then show ?case by simp
next
  case (Cons r rs)
  then have r: "r \<in> words" "r \<noteq> []" using nonempty by auto
  show ?case
  proof (cases ws)
    case Nil
    with Cons.prems have p: "prefix r part" by (auto intro: append_prefixD)
    with r obtain w where w: "w \<in> words" "strict_prefix part w" using part by auto
    with p have "prefix r w" by (meson prefix_order.dual_order.trans strict_prefix_def)
    with r w have "r = w" using prefix_free by blast
    with w p have False by (meson prefix_order.less_le_not_le)
    then show ?thesis ..
  next
    case (Cons w ws')
    with Cons.prems have w: "w \<in> words" by simp
    have "prefix r (w @ concat ws' @ part)"
      using Cons.prems Cons by (auto intro: append_prefixD)
    then have "prefix r w \<or> prefix w r"
      by (meson prefix_same_cases prefixI)
    with r w have "r = w" using prefix_free by blast
    with Cons.prems Cons Cons.IH [of ws'] show ?thesis by auto
  qed
qed

end

definition control_words :: "string list" where
  "control_words =
     [''qemu_migrate'', ''qemu_pre_copy_finish'', ''qemu_vm_restart'', ''qemu_post_copy_finish'',
      ''shm_migrate_switchover'', ''shm_pre_copy_finish'', ''complete_vm_image'',
      ''start_target_vm'', ''shm_load_vm_image'', ''switchover_finished'']"

lemma control_words_prefix_free:
  "list_all (\<lambda>v. v \<noteq> [] \<and> list_all (\<lambda>w. prefix v w \<longrightarrow> v = w) control_words) control_words"
  by code_simp

interpretation control: prefix_code "set control_words"
  using control_words_prefix_free by unfold_locales (auto simp: list_all_iff)

section \<open>What a step can do\<close>

definition progs :: "proc \<Rightarrow> act list set" where
  "progs p = insert (code p) (range (hcode p))"

definition done_acts :: "role \<Rightarrow> (role \<times> act) list \<Rightarrow> act set" where
  "done_acts r t = {a. (r, a) \<in> set t}"

lemma done_acts_simps [simp]:
  "done_acts r [] = {}"
  "done_acts r ((r', a) # t) = (if r = r' then insert a (done_acts r t) else done_acts r t)"
  by (auto simp: done_acts_def)

lemmas sys_defs = set_proc_def set_link_def fail_def advance_def out_stream_def in_stream_def
  set_out_def set_in_def connect_wrapper_def Let_def

lemma exec_act_code:
  "exec_act k r a s = Some s' \<Longrightarrow> code (procs s' r') = code (procs s r') \<and> hcode (procs s' r') = hcode (procs s r')"
  by (cases a)
     (auto simp: sys_defs write_msg_def read_msg_def split: if_splits option.splits prod.splits)

lemma sys_step_code:
  "sys_step c s = Some s' \<Longrightarrow> code (procs s' r) = code (procs s r) \<and> hcode (procs s' r) = hcode (procs s r)"
  by (cases c) (auto simp: sys_defs exec_act_code split: if_splits list.splits)

lemma sys_step_progs: "sys_step c s = Some s' \<Longrightarrow> progs (procs s' r) = progs (procs s r)"
  using sys_step_code [of c s s' r] by (simp add: progs_def)

text \<open>An action either completes, or leaves the frames and the trace as they are.\<close>

lemma exec_act_frames:
  assumes "exec_act k r a s = Some s'"
  shows "(trace s' = (r, a) # trace s \<and> frames (procs s' r) = pop_act (frames (procs s r)) \<or>
          trace s' = trace s \<and> frames (procs s' r) = frames (procs s r)) \<and>
         (\<forall>r'. r' \<noteq> r \<longrightarrow> procs s' r' = procs s r')"
  using assms
  by (cases a)
     (auto simp: sys_defs write_msg_def read_msg_def split: if_splits option.splits prod.splits)

section \<open>Program order\<close>

text \<open>
  Every action in the trace was reached in one of the programs of its process, after all the
  actions before it in that program.
\<close>

fun ordered :: "(role \<Rightarrow> act list set) \<Rightarrow> (role \<times> act) list \<Rightarrow> bool" where
  "ordered P [] = True"
| "ordered P ((r, a) # t) \<longleftrightarrow>
     (\<exists>p q. p @ a # q \<in> P r \<and> set p \<subseteq> done_acts r t) \<and> ordered P t"

definition frames_ok :: "(role \<Rightarrow> act list set) \<Rightarrow> sys \<Rightarrow> bool" where
  "frames_ok P s \<longleftrightarrow>
     (\<forall>r. \<forall>fr \<in> set (frames (procs s r)). \<exists>p. p @ snd fr \<in> P r \<and> set p \<subseteq> done_acts r (trace s))"

definition program_order :: "(role \<Rightarrow> act list set) \<Rightarrow> sys \<Rightarrow> bool" where
  "program_order P s \<longleftrightarrow>
     (\<forall>r. progs (procs s r) = P r) \<and> frames_ok P s \<and> ordered P (trace s)"

definition well_started :: "sys \<Rightarrow> bool" where
  "well_started s \<longleftrightarrow>
     trace s = [] \<and> (\<forall>r. frames (procs s r) = [(None, code (procs s r))] \<and>
       \<not> sigusr1_count (procs s r)) \<and> links s = (\<lambda>_. init_link)"

lemma exec_act_program_order:
  assumes ex: "exec_act k r a s = Some s'" and fr: "frames (procs s r) = (sg, a # as) # fs"
    and ok: "frames_ok P s" and ord: "ordered P (trace s)"
  shows "frames_ok P s' \<and> ordered P (trace s')"
proof -
  from ok fr obtain p where p: "p @ a # as \<in> P r" "set p \<subseteq> done_acts r (trace s)"
    unfolding frames_ok_def by (metis list.set_intros(1) snd_conv)
  from exec_act_frames [OF ex] consider
      (pop) "trace s' = (r, a) # trace s" "frames (procs s' r) = (sg, as) # fs"
        "\<forall>r'. r' \<noteq> r \<longrightarrow> procs s' r' = procs s r'"
    | (stay) "trace s' = trace s" "\<forall>r'. frames (procs s' r') = frames (procs s r')"
    using fr by (metis pop_act.simps(1))
  then show ?thesis
  proof cases
    case pop
    have "frames_ok P s'"
      unfolding frames_ok_def
    proof (intro allI ballI)
      fix r' fr' assume f: "fr' \<in> set (frames (procs s' r'))"
      show "\<exists>p. p @ snd fr' \<in> P r' \<and> set p \<subseteq> done_acts r' (trace s')"
      proof (cases "r' = r \<and> fr' = (sg, as)")
        case True
        with p have "(p @ [a]) @ snd fr' \<in> P r'" "set (p @ [a]) \<subseteq> done_acts r' (trace s')"
          by (auto simp: pop)
        then show ?thesis by blast
      next
        case False
        with f pop fr have "fr' \<in> set (frames (procs s r'))" by (cases "r' = r") auto
        with ok obtain p' where "p' @ snd fr' \<in> P r'" "set p' \<subseteq> done_acts r' (trace s)"
          unfolding frames_ok_def by blast
        then show ?thesis by (auto simp: pop)
      qed
    qed
    with p ord pop show ?thesis by auto
  next
    case stay
    with ok ord show ?thesis by (simp add: frames_ok_def)
  qed
qed

lemma sys_step_program_order:
  assumes st: "sys_step c s = Some s'" and po: "program_order P s"
  shows "program_order P s'"
proof -
  have pr: "\<forall>r. progs (procs s' r) = P r"
    using po sys_step_progs [OF st] by (simp add: program_order_def)
  have "frames_ok P s' \<and> ordered P (trace s')"
  proof (cases c)
    case (Run r k)
    with st obtain sg l fs where fr: "frames (procs s r) = (sg, l) # fs"
      by (auto split: if_splits list.splits)
    show ?thesis
    proof (cases l)
      case Nil
      with Run st fr have "s' = set_proc r ((procs s r)\<lparr>frames := fs\<rparr>) s"
        by (auto split: if_splits)
      with po fr show ?thesis
        by (auto simp: program_order_def frames_ok_def sys_defs)
    next
      case (Cons a as)
      with Run st fr have "exec_act k r a s = Some s'" by (auto split: if_splits)
      with exec_act_program_order fr Cons po show ?thesis by (auto simp: program_order_def)
    qed
  next
    case (Deliver r sg)
    with st consider "s' = fail r Killed s"
      | "s' = set_proc r ((procs s r)\<lparr>frames := (Some sg, hcode (procs s r) sg) # frames (procs s r)\<rparr>) s"
      by (auto split: if_splits)
    then show ?thesis
    proof cases
      case 1
      with po show ?thesis by (auto simp: program_order_def frames_ok_def sys_defs)
    next
      case 2
      have "hcode (procs s r) sg \<in> P r" using po by (auto simp: program_order_def progs_def)
      then have "\<exists>p. p @ hcode (procs s r) sg \<in> P r \<and> set p \<subseteq> done_acts r (trace s)"
        by (intro exI [of _ "[]"]) simp
      with 2 po show ?thesis by (auto simp: program_order_def frames_ok_def sys_defs)
    qed
  next
    case (Tick d)
    with st have "s' = s\<lparr>now := now s + int d\<rparr>" by simp
    with po show ?thesis by (simp add: program_order_def frames_ok_def)
  qed
  with pr show ?thesis by (simp add: program_order_def)
qed

lemma reachable_program_order:
  assumes "reachable s0 s" and "well_started s0"
  shows "program_order (\<lambda>r. progs (procs s0 r)) s"
  using assms
proof (induction rule: reachable.induct)
  case start
  then show ?case
    by (auto simp: program_order_def frames_ok_def well_started_def progs_def intro!: exI [of _ "[]"])
qed (blast intro: sys_step_program_order)

text \<open>The trace only grows, so each of its suffixes is the trace of an earlier reachable state.\<close>

lemma exec_act_trace: "exec_act k r a s = Some s' \<Longrightarrow> trace s' = trace s \<or> (\<exists>e. trace s' = e # trace s)"
  using exec_act_frames by blast

lemma sys_step_trace: "sys_step c s = Some s' \<Longrightarrow> trace s' = trace s \<or> (\<exists>e. trace s' = e # trace s)"
  by (cases c) (auto simp: sys_defs dest!: exec_act_trace split: if_splits list.splits)

lemma reachable_suffix:
  assumes "reachable s0 s" and "well_started s0" and "trace s = u @ v"
  shows "\<exists>s'. reachable s0 s' \<and> trace s' = v"
  using assms
proof (induction arbitrary: u rule: reachable.induct)
  case start
  then show ?case by (auto simp: well_started_def intro: reachable.start)
next
  case (step s c s')
  show ?case
  proof (cases u)
    case Nil
    with step.prems step.hyps show ?thesis by (auto intro: reachable.step)
  next
    case (Cons e u')
    with step.prems sys_step_trace [OF step.hyps(2)] have "\<exists>w. trace s = w @ v"
      by (metis append_Cons list.inject)
    with step.IH step.prems(1) show ?thesis by blast
  qed
qed

section \<open>The control streams\<close>

definition out_words :: "act list set \<Rightarrow> fd \<Rightarrow> string set" where
  "out_words P f =
     {m. \<exists>pr \<in> P. WriteMsg f m \<in> set pr \<or> (\<exists>m'. WriteFirst f m m' \<in> set pr \<or> WriteFirst f m' m \<in> set pr)}"

definition in_words :: "act list set \<Rightarrow> fd \<Rightarrow> string set" where
  "in_words P f = {m. \<exists>pr \<in> P. ReadMsg f m \<in> set pr}"

fun backup_fd :: "role \<Rightarrow> fd" where
  "backup_fd Src = srcfd"
| "backup_fd Dst = dstfd"
| "backup_fd Backup = connfd"

text \<open>
  A stream carries the messages sent, followed at most by part of one more if its writer died in
  the middle of it; what was received is a prefix of the bytes written, and a reader that is still
  alive has consumed exactly the messages it received.
\<close>

definition stream_ok :: "string set \<Rightarrow> string set \<Rightarrow> bool \<Rightarrow> bool \<Rightarrow> stream \<Rightarrow> bool" where
  "stream_ok W R writing reading st \<longleftrightarrow>
     (\<exists>part. wr st = concat (sent st) @ part \<and>
        (part = [] \<or> \<not> writing \<and> (\<exists>m \<in> W. strict_prefix part m))) \<and>
     set (sent st) \<subseteq> W \<and> set (recvd st) \<subseteq> R \<and>
     prefix (concat (recvd st)) (wr st) \<and>
     (reading \<longrightarrow> rd st = length (concat (recvd st)))"

lemma stream_ok_mono:
  "stream_ok W R w r st \<Longrightarrow> (w' \<longrightarrow> w) \<Longrightarrow> (r' \<longrightarrow> r) \<Longrightarrow> stream_ok W R w' r' st"
  by (auto simp: stream_ok_def)

lemma stream_ok_init [simp]: "stream_ok W R w r init_stream"
  by (simp add: stream_ok_def init_stream_def)

lemma stream_write_ok:
  assumes "stream_write k m st = (st', ok)" and "stream_ok W R True r st" and "m \<in> W"
  shows "stream_ok W R ok r st'"
proof (cases ok)
  case True
  with assms show ?thesis
    by (auto simp: stream_ok_def stream_write_def write_to_file_def Let_def)
next
  case False
  with assms(1) have st': "st' = st\<lparr>wr := wr st @ take (k - 1) m\<rparr>" "k - 1 < length m"
    by (auto simp: stream_write_def write_to_file_def Let_def split: if_splits)
  then have "strict_prefix (take (k - 1) m) m"
    by (metis length_take less_irrefl min.absorb4 take_is_prefix prefix_order.le_neq_trans)
  with False st' assms(2,3) show ?thesis by (auto simp: stream_ok_def)
qed

lemma stream_read_ok:
  assumes "stream_read k m st = Some (st', ok)" and "stream_ok W R w True st" and "m \<in> R"
  shows "stream_ok W R w ok st'"
proof -
  from assms(2) obtain rest where r: "wr st = concat (recvd st) @ rest" and
    n: "rd st = length (concat (recvd st))"
    by (auto simp: stream_ok_def prefix_def)
  show ?thesis
  proof (cases ok)
    case True
    with assms(1) r n have "prefix m rest"
      and st': "st' = st\<lparr>rd := rd st + length m, recvd := recvd st @ [m]\<rparr>"
      by (auto simp: stream_read_def read_from_file_def Let_def take_is_prefix split: if_splits)
         (metis take_is_prefix)+
    with assms(2,3) r n True show ?thesis by (auto simp: stream_ok_def)
  next
    case False
    with assms(1) obtain j where "st' = st\<lparr>rd := j\<rparr>"
      by (auto simp: stream_read_def read_from_file_def Let_def split: if_splits)
    with False assms(2) show ?thesis by (auto simp: stream_ok_def)
  qed
qed

definition streams_ok :: "(role \<Rightarrow> act list set) \<Rightarrow> sys \<Rightarrow> bool" where
  "streams_ok P s \<longleftrightarrow>
     (\<forall>l \<in> {Src, Dst}.
        stream_ok (out_words (P l) connfd) (in_words (P Backup) (backup_fd l))
          (status (procs s l) = Running) (status (procs s Backup) = Running) (up (links s l)) \<and>
        stream_ok (out_words (P Backup) (backup_fd l)) (in_words (P l) connfd)
          (status (procs s Backup) = Running) (status (procs s l) = Running) (down (links s l)))"

lemma streams_ok_weaken:
  assumes "streams_ok P s"
    and "\<And>l. up (links s' l) = up (links s l) \<and> down (links s' l) = down (links s l)"
    and "\<And>r. status (procs s' r) = Running \<Longrightarrow> status (procs s r) = Running"
  shows "streams_ok P s'"
  using assms by (auto simp: streams_ok_def elim!: stream_ok_mono)

lemma link_of_cases:
  assumes "link_of r f = Some l"
  obtains "r = l" "f = connfd" "l = Src" | "r = l" "f = connfd" "l = Dst"
    | "r = Backup" "f = srcfd" "l = Src" | "r = Backup" "f = dstfd" "l = Dst"
  using assms by (cases r; cases f) auto

lemma write_msg_cases:
  assumes "write_msg k r f m a s = Some s'"
  obtains (unopened) "links s' = links s" "\<And>r'. status (procs s' r') = Running \<Longrightarrow> status (procs s r') = Running"
      "trace s' = trace s \<or> trace s' = (r, a) # trace s" "\<And>r'. sigusr1_count (procs s' r') = sigusr1_count (procs s r')"
  | (stream) l st ok where "link_of r f = Some l" "stream_write k m (out_stream r (links s l)) = (st, ok)"
      "links s' = (links s)(l := set_out r st (links s l))"
      "\<And>r'. status (procs s' r') = (if r' = r \<and> \<not> ok then Aborted else status (procs s r'))"
      "trace s' = (if ok then (r, a) # trace s else trace s)" "\<And>r'. sigusr1_count (procs s' r') = sigusr1_count (procs s r')"
proof (cases "fd_open (procs s r) f")
  case False
  with assms show ?thesis
    by (intro unopened) (auto simp: write_msg_def sys_defs split: if_splits)
next
  case True
  with assms obtain l st ok where l: "link_of r f = Some l"
    "stream_write k m (out_stream r (links s l)) = (st, ok)"
    by (auto simp: write_msg_def Let_def split: option.splits prod.splits)
  show ?thesis
  proof (rule stream [OF l])
    show "links s' = (links s)(l := set_out r st (links s l))"
      using assms True l by (auto simp: write_msg_def advance_def fail_def set_proc_def set_link_def Let_def split: if_splits)
    show "\<And>r'. status (procs s' r') = (if r' = r \<and> \<not> ok then Aborted else status (procs s r'))"
      using assms True l by (auto simp: write_msg_def advance_def fail_def set_proc_def set_link_def Let_def split: if_splits)
    show "trace s' = (if ok then (r, a) # trace s else trace s)"
      using assms True l by (auto simp: write_msg_def advance_def fail_def set_proc_def set_link_def Let_def split: if_splits)
    show "\<And>r'. sigusr1_count (procs s' r') = sigusr1_count (procs s r')"
      using assms True l by (auto simp: write_msg_def advance_def fail_def set_proc_def set_link_def Let_def split: if_splits)
  qed
qed

lemma read_msg_cases:
  assumes "read_msg k r f m a s = Some s'"
  obtains l st ok where "link_of r f = Some l" "stream_read k m (in_stream r (links s l)) = Some (st, ok)"
      "links s' = (links s)(l := set_in r st (links s l))"
      "\<And>r'. status (procs s' r') = (if r' = r \<and> \<not> ok then Aborted else status (procs s r'))"
      "trace s' = (if ok then (r, a) # trace s else trace s)" "\<And>r'. sigusr1_count (procs s' r') = sigusr1_count (procs s r')"
proof -
  from assms obtain l st ok where l: "link_of r f = Some l" "fd_open (procs s r) f"
    "stream_read k m (in_stream r (links s l)) = Some (st, ok)"
    by (auto simp: read_msg_def Let_def split: option.splits prod.splits if_splits)
  show thesis
  proof (rule that [OF l(1,3)])
    show "links s' = (links s)(l := set_in r st (links s l))"
      using assms l by (auto simp: read_msg_def advance_def fail_def set_proc_def set_link_def Let_def split: if_splits)
    show "\<And>r'. status (procs s' r') = (if r' = r \<and> \<not> ok then Aborted else status (procs s r'))"
      using assms l by (auto simp: read_msg_def advance_def fail_def set_proc_def set_link_def Let_def split: if_splits)
    show "trace s' = (if ok then (r, a) # trace s else trace s)"
      using assms l by (auto simp: read_msg_def advance_def fail_def set_proc_def set_link_def Let_def split: if_splits)
    show "\<And>r'. sigusr1_count (procs s' r') = sigusr1_count (procs s r')"
      using assms l by (auto simp: read_msg_def advance_def fail_def set_proc_def set_link_def Let_def split: if_splits)
  qed
qed

lemma write_msg_streams_ok:
  assumes "write_msg k r f m a s = Some s'" and ok: "streams_ok P s"
    and run: "status (procs s r) = Running" and m: "m \<in> out_words (P r) f"
  shows "streams_ok P s'"
  using assms(1)
proof (cases rule: write_msg_cases)
  case unopened
  show ?thesis by (rule streams_ok_weaken [OF ok]) (simp_all add: unopened)
next
  case (stream l st b)
  from stream(1) show ?thesis
    by (cases rule: link_of_cases)
       (use ok stream run m in \<open>auto simp: streams_ok_def out_stream_def set_out_def intro: stream_write_ok elim!: stream_ok_mono\<close>)
qed

lemma read_msg_streams_ok:
  assumes "read_msg k r f m a s = Some s'" and ok: "streams_ok P s"
    and run: "status (procs s r) = Running" and m: "m \<in> in_words (P r) f"
  shows "streams_ok P s'"
  using assms(1)
proof (cases rule: read_msg_cases)
  case stream: (1 l st b)
  from stream(1) show ?thesis
    by (cases rule: link_of_cases)
       (use ok stream run m in \<open>auto simp: streams_ok_def in_stream_def set_in_def intro: stream_read_ok elim!: stream_ok_mono\<close>)
qed

lemma exec_act_streams_ok:
  assumes ex: "exec_act k r a s = Some s'" and ok: "streams_ok P s"
    and run: "status (procs s r) = Running" and a: "\<exists>pr \<in> P r. a \<in> set pr"
  shows "streams_ok P s'"
proof (cases a)
  case (WriteMsg f m)
  moreover from a WriteMsg have "m \<in> out_words (P r) f" by (auto simp: out_words_def)
  ultimately show ?thesis using ex ok run write_msg_streams_ok by auto
next
  case (WriteFirst f m1 m2)
  moreover from a WriteFirst have "m1 \<in> out_words (P r) f" "m2 \<in> out_words (P r) f"
    by (auto simp: out_words_def)
  ultimately show ?thesis using ex ok run write_msg_streams_ok by (auto split: if_splits)
next
  case (ReadMsg f m)
  moreover from a ReadMsg have "m \<in> in_words (P r) f" by (auto simp: in_words_def)
  ultimately show ?thesis using ex ok run read_msg_streams_ok by auto
qed (use ex in \<open>auto intro!: streams_ok_weaken [OF ok] simp: sys_defs split: if_splits option.splits\<close>)

text \<open>
  The trace and the streams agree: a completed read received its message, a message sent is a
  completed write, and \<^verbatim>\<open>sigusr1_count\<close> is set only by \<^const>\<open>SetCount\<close>.
\<close>

definition wrote :: "role \<Rightarrow> fd \<Rightarrow> string \<Rightarrow> (role \<times> act) list \<Rightarrow> bool" where
  "wrote r f m t \<longleftrightarrow>
     (r, WriteMsg f m) \<in> set t \<or>
     (\<exists>m'. (r, WriteFirst f m m') \<in> set t \<or> (r, WriteFirst f m' m) \<in> set t)"

definition trace_ok :: "sys \<Rightarrow> bool" where
  "trace_ok s \<longleftrightarrow>
     (\<forall>r f m l. (r, ReadMsg f m) \<in> set (trace s) \<longrightarrow> link_of r f = Some l \<longrightarrow>
        m \<in> set (recvd (in_stream r (links s l)))) \<and>
     (\<forall>r f m l. link_of r f = Some l \<longrightarrow> m \<in> set (sent (out_stream r (links s l))) \<longrightarrow>
        wrote r f m (trace s)) \<and>
     (\<forall>r. sigusr1_count (procs s r) \<longrightarrow> (r, SetCount) \<in> set (trace s))"

lemma trace_okD:
  assumes "trace_ok s"
  shows "(r, ReadMsg f m) \<in> set (trace s) \<Longrightarrow> link_of r f = Some l \<Longrightarrow> m \<in> set (recvd (in_stream r (links s l)))"
    and "link_of r f = Some l \<Longrightarrow> m \<in> set (sent (out_stream r (links s l))) \<Longrightarrow> wrote r f m (trace s)"
    and "sigusr1_count (procs s r) \<Longrightarrow> (r, SetCount) \<in> set (trace s)"
  using assms by (auto simp: trace_ok_def)

lemma wrote_mono: "wrote r f m t \<Longrightarrow> set t \<subseteq> set t' \<Longrightarrow> wrote r f m t'"
  by (auto simp: wrote_def)

definition asserts_ok :: "(role \<times> act) list \<Rightarrow> bool" where
  "asserts_ok t \<longleftrightarrow> (\<forall>u r v. t = u @ (r, AssertCount) # v \<longrightarrow> (r, SetCount) \<in> set v)"

lemma asserts_ok_Cons:
  "asserts_ok ((r, a) # t) \<longleftrightarrow> (a = AssertCount \<longrightarrow> (r, SetCount) \<in> set t) \<and> asserts_ok t"
  by (auto simp: asserts_ok_def Cons_eq_append_conv)

lemma stream_write_sent: "stream_write k m st = (st', ok) \<Longrightarrow> sent st' = sent st @ (if ok then [m] else []) \<and> recvd st' = recvd st"
  by (auto simp: stream_write_def Let_def split: prod.splits)

lemma stream_read_recvd: "stream_read k m st = Some (st', ok) \<Longrightarrow> recvd st' = recvd st @ (if ok then [m] else []) \<and> sent st' = sent st"
  by (auto simp: stream_read_def Let_def split: prod.splits option.splits)

lemma link_of_inj: "link_of r f = Some l \<Longrightarrow> link_of r f' = Some l \<Longrightarrow> f' = f"
  by (cases r; cases f; cases f') auto

lemma link_of_other: "link_of r f = Some l \<Longrightarrow> link_of r' f' = Some l \<Longrightarrow> r' = r \<or> (r = Backup) \<noteq> (r' = Backup)"
  by (cases r; cases f; cases r'; cases f') auto

lemma trace_ok_weaken:
  assumes "trace_ok s"
    and "\<And>l. up (links s' l) = up (links s l) \<and> down (links s' l) = down (links s l)"
    and "set (trace s) \<subseteq> set (trace s')"
    and "\<And>r f m. (r, ReadMsg f m) \<in> set (trace s') \<Longrightarrow> (r, ReadMsg f m) \<in> set (trace s)"
    and "\<And>r. sigusr1_count (procs s' r) \<Longrightarrow> sigusr1_count (procs s r) \<or> (r, SetCount) \<in> set (trace s')"
  shows "trace_ok s'"
  unfolding trace_ok_def
proof (intro conjI allI impI)
  fix r f m l assume "(r, ReadMsg f m) \<in> set (trace s')" "link_of r f = Some l"
  from trace_okD(1) [OF assms(1) assms(4) [OF this(1)] this(2)] assms(2)
  show "m \<in> set (recvd (in_stream r (links s' l)))" by (simp add: in_stream_def split: if_splits)
next
  fix r f m l assume l: "link_of r f = Some l" and "m \<in> set (sent (out_stream r (links s' l)))"
  then have "m \<in> set (sent (out_stream r (links s l)))" using assms(2) by (simp add: out_stream_def split: if_splits)
  from trace_okD(2) [OF assms(1) l this] assms(3)
  show "wrote r f m (trace s')" by (rule wrote_mono)
next
  fix r assume "sigusr1_count (procs s' r)"
  with assms(3,5) trace_okD(3) [OF assms(1)] show "(r, SetCount) \<in> set (trace s')" by blast
qed

lemma write_msg_trace_ok:
  assumes "write_msg k r f m a s = Some s'" and ok: "trace_ok s"
    and a: "a = WriteMsg f m \<or> (\<exists>m'. a = WriteFirst f m m' \<or> a = WriteFirst f m' m)"
  shows "trace_ok s'"
  using assms(1)
proof (cases rule: write_msg_cases)
  case unopened
  with a show ?thesis by (intro trace_ok_weaken [OF ok]) auto
next
  case (stream l st b)
  note sw = stream_write_sent [OF stream(2)]
  have sub: "set (trace s) \<subseteq> set (trace s')" using stream by auto
  show ?thesis
    unfolding trace_ok_def
  proof (intro conjI allI impI)
    fix r' f' m' l' assume "(r', ReadMsg f' m') \<in> set (trace s')" and l': "link_of r' f' = Some l'"
    with stream a have "(r', ReadMsg f' m') \<in> set (trace s)" by (auto split: if_splits)
    from trace_okD(1) [OF ok this l'] stream sw l'
    show "m' \<in> set (recvd (in_stream r' (links s' l')))"
      by (auto simp: in_stream_def set_out_def out_stream_def dest: link_of_other [OF stream(1)])
  next
    fix r' f' m' l' assume l': "link_of r' f' = Some l'" and m': "m' \<in> set (sent (out_stream r' (links s' l')))"
    show "wrote r' f' m' (trace s')"
    proof (cases "m' \<in> set (sent (out_stream r' (links s l')))")
      case True
      from trace_okD(2) [OF ok l' True] sub show ?thesis by (rule wrote_mono)
    next
      case False
      with m' stream sw l' have "l' = l" "r' = r" "m' = m" "b"
        by (auto simp: out_stream_def set_out_def split: if_splits dest: link_of_other [OF stream(1)])
      with l' stream a show ?thesis by (auto simp: wrote_def dest: link_of_inj)
    qed
  next
    fix r' assume "sigusr1_count (procs s' r')"
    with trace_okD(3) [OF ok] stream sub show "(r', SetCount) \<in> set (trace s')" by auto
  qed
qed

lemma read_msg_trace_ok:
  assumes "read_msg k r f m a s = Some s'" and ok: "trace_ok s" and a: "a = ReadMsg f m"
  shows "trace_ok s'"
  using assms(1)
proof (cases rule: read_msg_cases)
  case stream: (1 l st b)
  note sr = stream_read_recvd [OF stream(2)]
  have sub: "set (trace s) \<subseteq> set (trace s')" using stream by auto
  show ?thesis
    unfolding trace_ok_def
  proof (intro conjI allI impI)
    fix r' f' m' l' assume t: "(r', ReadMsg f' m') \<in> set (trace s')" and l': "link_of r' f' = Some l'"
    show "m' \<in> set (recvd (in_stream r' (links s' l')))"
    proof (cases "(r', ReadMsg f' m') \<in> set (trace s)")
      case True
      from trace_okD(1) [OF ok True l'] stream sr show ?thesis by (auto simp: in_stream_def set_in_def)
    next
      case False
      with t stream a have "r' = r" "f' = f" "m' = m" "b" by (auto split: if_splits)
      with l' stream sr show ?thesis by (auto simp: in_stream_def set_in_def)
    qed
  next
    fix r' f' m' l' assume l': "link_of r' f' = Some l'" and m': "m' \<in> set (sent (out_stream r' (links s' l')))"
    with stream sr have "m' \<in> set (sent (out_stream r' (links s l')))"
      by (auto simp: out_stream_def in_stream_def set_in_def split: if_splits)
    from trace_okD(2) [OF ok l' this] sub show "wrote r' f' m' (trace s')" by (rule wrote_mono)
  next
    fix r' assume "sigusr1_count (procs s' r')"
    with trace_okD(3) [OF ok] stream sub show "(r', SetCount) \<in> set (trace s')" by auto
  qed
qed

lemma exec_act_trace_ok:
  assumes ex: "exec_act k r a s = Some s'" and ok: "trace_ok s"
  shows "trace_ok s'"
proof (cases a)
  case (WriteMsg f m)
  with ex ok write_msg_trace_ok show ?thesis by auto
next
  case (WriteFirst f m1 m2)
  with ex ok show ?thesis by (auto split: if_splits intro: write_msg_trace_ok)
next
  case (ReadMsg f m)
  with ex ok read_msg_trace_ok show ?thesis by auto
qed (use ex in \<open>auto intro!: trace_ok_weaken [OF ok] simp: sys_defs split: if_splits option.splits\<close>)

lemma exec_act_asserts_ok:
  assumes ex: "exec_act k r a s = Some s'" and ok: "trace_ok s" and t: "asserts_ok (trace s)"
  shows "asserts_ok (trace s')"
proof (cases "trace s' = trace s")
  case False
  with exec_act_frames [OF ex] have tr: "trace s' = (r, a) # trace s" by blast
  have "(r, SetCount) \<in> set (trace s)" if "a = AssertCount"
    using that ex tr trace_okD(3) [OF ok] by (auto simp: sys_defs split: if_splits)
  with t tr show ?thesis by (simp add: asserts_ok_Cons)
qed (use t in simp)

definition control_inv :: "(role \<Rightarrow> act list set) \<Rightarrow> sys \<Rightarrow> bool" where
  "control_inv P s \<longleftrightarrow> program_order P s \<and> streams_ok P s \<and> trace_ok s \<and> asserts_ok (trace s)"

lemma sys_step_control_inv:
  assumes st: "sys_step c s = Some s'" and inv: "control_inv P s"
  shows "control_inv P s'"
proof -
  from inv have po: "program_order P s" and so: "streams_ok P s" and tr: "trace_ok s"
    and as: "asserts_ok (trace s)" by (auto simp: control_inv_def)
  have "streams_ok P s' \<and> trace_ok s' \<and> asserts_ok (trace s')"
  proof (cases c)
    case (Run r k)
    with st obtain sg l fs where fr: "frames (procs s r) = (sg, l) # fs" and run: "status (procs s r) = Running"
      by (auto split: if_splits list.splits)
    show ?thesis
    proof (cases l)
      case Nil
      with Run st fr have "s' = set_proc r ((procs s r)\<lparr>frames := fs\<rparr>) s"
        by (auto split: if_splits)
      then show ?thesis
        using as by (auto intro!: streams_ok_weaken [OF so] trace_ok_weaken [OF tr] simp: sys_defs split: if_splits)
    next
      case (Cons a as')
      with Run st fr have ex: "exec_act k r a s = Some s'" by (auto split: if_splits)
      from po fr Cons obtain p where "p @ a # as' \<in> P r"
        unfolding program_order_def frames_ok_def by (metis list.set_intros(1) snd_conv)
      then have "\<exists>pr \<in> P r. a \<in> set pr" by (intro bexI) auto
      with ex so tr as run show ?thesis
        using exec_act_streams_ok exec_act_trace_ok exec_act_asserts_ok by blast
    qed
  next
    case (Deliver r sg)
    with st as show ?thesis
      by (auto intro!: streams_ok_weaken [OF so] trace_ok_weaken [OF tr] simp: sys_defs split: if_splits)
  next
    case (Tick d)
    with st as show ?thesis
      by (auto intro!: streams_ok_weaken [OF so] trace_ok_weaken [OF tr])
  qed
  with sys_step_program_order [OF st po] show ?thesis by (simp add: control_inv_def)
qed

abbreviation sys_progs :: "sys \<Rightarrow> role \<Rightarrow> act list set" where
  "sys_progs s0 \<equiv> \<lambda>r. progs (procs s0 r)"

lemma reachable_control_inv:
  assumes "reachable s0 s" and ws: "well_started s0"
  shows "control_inv (sys_progs s0) s"
  using assms(1)
proof (induction rule: reachable.induct)
  case start
  have "program_order (sys_progs s0) s0"
    using reachable_program_order [OF reachable.start ws] .
  then show ?case
    using ws by (auto simp: control_inv_def streams_ok_def trace_ok_def asserts_ok_def well_started_def
      init_link_def in_stream_def out_stream_def init_stream_def [symmetric])
       (auto simp: init_stream_def split: if_splits)
qed (blast intro: sys_step_control_inv)

section \<open>Consequences used by the migration theorems\<close>

text \<open>Whatever is read over a prefix-free set of messages was written before, in that order.\<close>

lemma recvd_prefix_sent:
  assumes "stream_ok W R w r st" and "W \<subseteq> set control_words" and "R \<subseteq> set control_words"
  shows "prefix (recvd st) (sent st)"
proof -
  from assms(1) obtain part where p: "wr st = concat (sent st) @ part"
    "part = [] \<or> (\<exists>m \<in> W. strict_prefix part m)"
    and s: "set (sent st) \<subseteq> W" "set (recvd st) \<subseteq> R" "prefix (concat (recvd st)) (wr st)"
    unfolding stream_ok_def by blast
  show ?thesis
    using s p assms(2,3) by (intro control.decode [of "recvd st" "sent st" part]) auto
qed

lemma reachable_streams:
  assumes "reachable s0 s" and "well_started s0" and "link_of r f = Some l"
    and "link_of r' f' = Some l" and "r' \<noteq> r"
    and "out_words (sys_progs s0 r') f' \<subseteq> set control_words"
    and "in_words (sys_progs s0 r) f \<subseteq> set control_words"
  shows "prefix (recvd (in_stream r (links s l))) (sent (out_stream r' (links s l)))"
proof -
  have "streams_ok (sys_progs s0) s"
    using reachable_control_inv [OF assms(1,2)] by (simp add: control_inv_def)
  with assms show ?thesis
    by (elim link_of_cases)
       (simp_all add: streams_ok_def in_stream_def out_stream_def, (blast intro: recvd_prefix_sent)+)
qed

lemma read_after_write:
  assumes r: "reachable s0 s" and ws: "well_started s0" and t: "trace s = u @ (r, ReadMsg f m) # v"
    and l: "link_of r f = Some l" "link_of r' f' = Some l" "r' \<noteq> r"
    and w: "out_words (sys_progs s0 r') f' \<subseteq> set control_words" "in_words (sys_progs s0 r) f \<subseteq> set control_words"
  shows "wrote r' f' m v"
proof -
  from reachable_suffix [OF r ws t] obtain s1 where s1: "reachable s0 s1" "trace s1 = (r, ReadMsg f m) # v" by blast
  then have tr: "trace_ok s1" using reachable_control_inv ws by (auto simp: control_inv_def)
  have "m \<in> set (recvd (in_stream r (links s1 l)))"
    using trace_okD(1) [OF tr _ l(1)] s1 by simp
  then have "m \<in> set (sent (out_stream r' (links s1 l)))"
    using reachable_streams [OF s1(1) ws l w] by (auto dest: set_mono_prefix)
  then have "wrote r' f' m (trace s1)" by (rule trace_okD(2) [OF tr l(2)])
  with s1 l(3) show ?thesis by (auto simp: wrote_def)
qed

lemma after_in_program:
  assumes r: "reachable s0 s" and ws: "well_started s0" and t: "trace s = u @ (r, a) # v"
    and b: "\<And>p q. p @ a # q \<in> sys_progs s0 r \<Longrightarrow> b \<in> set p"
  shows "(r, b) \<in> set v"
proof -
  from reachable_suffix [OF r ws t] obtain s1 where s1: "reachable s0 s1" "trace s1 = (r, a) # v" by blast
  then have "ordered (sys_progs s0) ((r, a) # v)"
    using reachable_program_order [OF s1(1) ws] by (simp add: program_order_def)
  then obtain p q where "p @ a # q \<in> sys_progs s0 r" "set p \<subseteq> done_acts r v" by auto
  with b show ?thesis by (auto simp: done_acts_def)
qed

lemma count_before_assert:
  assumes r: "reachable s0 s" and ws: "well_started s0" and t: "trace s = u @ (r, AssertCount) # v"
  shows "(r, SetCount) \<in> set v"
  using reachable_control_inv [OF r ws] t by (auto simp: control_inv_def asserts_ok_def)

end
