(* ===== verification/Controller_Migration.thy ===== *)
theory Controller_Migration
  imports Controller_Safety
begin

text \<open>
  The migration protocols of \<^verbatim>\<open>src/apps/controller.c\<close> as a whole: the causal order of a
  shared-memory migration under every schedule, a schedule that completes each protocol, and the
  two windows in which a second signal arrives before the first handler has set
  \<^verbatim>\<open>sigusr1_count\<close>.
\<close>

section \<open>The programs of the two protocols\<close>

lemma progs_eq: "progs p = {code p, hcode p SIGUSR1, hcode p SIGUSR2}"
proof -
  have "range (hcode p) = hcode p ` {SIGUSR1, SIGUSR2}"
    by (rule arg_cong [where f = "image (hcode p)"]) (auto intro: signo.exhaust)
  then show ?thesis by (auto simp: progs_def)
qed

lemma shm_progs:
  "sys_progs (shm_init cfg a) Src =
     {shm_src_code cfg (a Src), signal_handler_shm_src_complete SIGUSR1, signal_handler_shm_src_precopy SIGUSR2}"
  "sys_progs (shm_init cfg a) Dst = {shm_dst_code cfg (a Dst), signal_handler_shm_dst SIGUSR1, []}"
  "sys_progs (shm_init cfg a) Backup = {shm_backup_code cfg, signal_handler_shm_backup SIGUSR1, []}"
  by (simp_all add: shm_init_def init_sys_def init_proc_def progs_eq
        signal_handler_shm_dst_def signal_handler_shm_backup_def)

lemma qemu_progs:
  "sys_progs (qemu_init flag cfg a) Src = {qemu_src_code flag cfg (a Src), signal_handler_src SIGUSR1, []}"
  "sys_progs (qemu_init flag cfg a) Dst =
     {qemu_dst_code flag cfg (a Dst), signal_handler_dst_1 SIGUSR1, signal_handler_dst_2 SIGUSR2}"
  "sys_progs (qemu_init flag cfg a) Backup = {qemu_backup_code cfg, signal_handler_backup SIGUSR1, []}"
  by (simp_all add: qemu_init_def init_sys_def init_proc_def progs_eq
        signal_handler_src_def signal_handler_backup_def)

lemma well_started_init [simp]: "well_started (shm_init cfg a)" "well_started (qemu_init flag cfg a)"
  by (auto simp: well_started_def shm_init_def qemu_init_def init_sys_def init_proc_def split: role.splits)

lemmas shm_code = shm_src_code_def shm_dst_code_def shm_backup_code_def listen_wrapper_def
  signal_handler_shm_src_complete_def signal_handler_shm_src_precopy_def signal_handler_shm_dst_def
  signal_handler_shm_backup_def

lemmas qemu_code = qemu_src_code_def qemu_dst_code_def qemu_backup_code_def listen_wrapper_def
  signal_handler_src_def signal_handler_dst_1_def signal_handler_dst_2_def signal_handler_backup_def

lemma shm_words:
  "out_words (sys_progs (shm_init cfg a) Src) connfd = {''shm_pre_copy_finish'', ''complete_vm_image''}"
  "out_words (sys_progs (shm_init cfg a) Dst) connfd = {''switchover_finished''}"
  "out_words (sys_progs (shm_init cfg a) Backup) dstfd = {''start_target_vm'', ''shm_load_vm_image''}"
  "in_words (sys_progs (shm_init cfg a) Dst) connfd = {''start_target_vm'', ''shm_load_vm_image''}"
  "in_words (sys_progs (shm_init cfg a) Backup) srcfd = {''shm_pre_copy_finish'', ''complete_vm_image''}"
  "in_words (sys_progs (shm_init cfg a) Backup) dstfd = {''switchover_finished''}"
  unfolding shm_progs out_words_def in_words_def by (auto simp: shm_code)

lemma qemu_words:
  "out_words (sys_progs (qemu_init flag cfg a) Src) connfd = {''qemu_pre_copy_finish''}"
  "out_words (sys_progs (qemu_init flag cfg a) Dst) connfd = {''qemu_vm_restart'', ''qemu_post_copy_finish''}"
  "out_words (sys_progs (qemu_init flag cfg a) Backup) srcfd = {''qemu_migrate''}"
  "in_words (sys_progs (qemu_init flag cfg a) Src) connfd = {''qemu_migrate''}"
  "in_words (sys_progs (qemu_init flag cfg a) Backup) srcfd = {''qemu_pre_copy_finish''}"
  "in_words (sys_progs (qemu_init flag cfg a) Backup) dstfd = {''qemu_vm_restart'', ''qemu_post_copy_finish''}"
  unfolding qemu_progs out_words_def in_words_def by (auto simp: qemu_code split: if_splits)

section \<open>Causal order of a shared-memory migration\<close>

text \<open>
  Chains of events are stated as subsequences of the trace, latest event first.  From an event of
  the trace one goes back to an earlier one by program order, by a matching write, or by the
  \<^verbatim>\<open>assert\<close> on \<^verbatim>\<open>sigusr1_count\<close>.
\<close>

lemma chainI:
  assumes "t = w0 @ x # v0" and "(e :: role \<times> act) \<in> set v0" and "\<And>w v. t = w @ e # v \<Longrightarrow> subseq es v"
  shows "subseq (e # es) v0"
proof -
  from assms(2) obtain u v where v0: "v0 = u @ e # v" by (auto simp: in_set_conv_decomp)
  with assms(1) have "t = (w0 @ x # u) @ e # v" by simp
  then have "subseq es v" by (rule assms(3))
  with v0 show ?thesis by (auto simp: list_emb_append2)
qed

lemma ordered_in_programs: "ordered P t \<Longrightarrow> (r, a) \<in> set t \<Longrightarrow> \<exists>pr \<in> P r. a \<in> set pr"
proof (induction P t rule: ordered.induct)
  case (2 P r' a' t)
  show ?case
  proof (cases "(r, a) = (r', a')")
    case True
    with 2 obtain p q where "p @ a # q \<in> P r" by auto
    then show ?thesis by (intro bexI [of _ "p @ a # q"]) auto
  qed (use 2 in auto)
qed simp

lemma shm_write_once:
  assumes "wrote r f m v" and "reachable (shm_init cfg a) s" and "trace s = u @ v"
  shows "(r, WriteMsg f m) \<in> set v"
proof -
  have "ordered (sys_progs (shm_init cfg a)) (trace s)"
    using reachable_program_order [OF assms(2)] by (simp add: program_order_def)
  from ordered_in_programs [OF this, of r] assms(3)
  have "\<exists>pr \<in> sys_progs (shm_init cfg a) r. WriteFirst f' m1 m2 \<in> set pr"
    if "(r, WriteFirst f' m1 m2) \<in> set v" for f' m1 m2
    using that by auto
  moreover have "\<not> (\<exists>pr \<in> sys_progs (shm_init cfg a) r. WriteFirst f' m1 m2 \<in> set pr)" for f' m1 m2
    by (cases r) (auto simp: shm_progs shm_code)
  ultimately show ?thesis using assms(1) unfolding wrote_def by blast
qed

lemma shm_read_after_write:
  assumes "reachable (shm_init cfg a) s" and "trace s = u @ (r, ReadMsg f m) # v"
    and "link_of r f = Some l" and "link_of r' f' = Some l" and "r' \<noteq> r" and "(r', f') \<noteq> (Backup, srcfd)"
  shows "(r', WriteMsg f' m) \<in> set v"
proof -
  have "wrote r' f' m v"
    by (rule read_after_write [OF assms(1) well_started_init(1) assms(2,3,4,5)];
        insert assms(3-6); elim link_of_cases; simp add: shm_words control_words_def)
  then show ?thesis by (rule shm_write_once [OF _ assms(1), of _ _ _ _ "u @ [(r, ReadMsg f m)]"]) (simp add: assms(2))
qed

lemma shm_after:
  assumes "reachable (shm_init cfg a) s" and "trace s = u @ (r, x) # v"
    and "\<And>p q. p @ x # q \<in> sys_progs (shm_init cfg a) r \<Longrightarrow> y \<in> set p"
  shows "(r, y) \<in> set v"
  using after_in_program [OF assms(1) well_started_init(1) assms(2,3)] .

lemma shm_chain_facts:
  "p @ ReadMsg srcfd ''complete_vm_image'' # q \<in> sys_progs (shm_init cfg a) Backup \<Longrightarrow>
     ReadMsg srcfd ''shm_pre_copy_finish'' \<in> set p"
  "p @ WriteMsg dstfd ''shm_load_vm_image'' # q \<in> sys_progs (shm_init cfg a) Backup \<Longrightarrow>
     ReadMsg srcfd ''complete_vm_image'' \<in> set p"
  "p @ ExecRetry c # q \<in> sys_progs (shm_init cfg a) Dst \<Longrightarrow> ReadMsg connfd ''shm_load_vm_image'' \<in> set p"
  "p @ WriteMsg connfd ''complete_vm_image'' # q \<in> sys_progs (shm_init cfg a) Src \<Longrightarrow> AssertCount \<in> set p"
  "p @ SetCount # q \<in> sys_progs (shm_init cfg a) Src \<Longrightarrow> WriteMsg connfd ''shm_pre_copy_finish'' \<in> set p"
  "p @ ReadMsg dstfd ''switchover_finished'' # q \<in> sys_progs (shm_init cfg a) Backup \<Longrightarrow>
     WriteMsg dstfd ''shm_load_vm_image'' \<in> set p"
  "p @ Clock vm_restart # q \<in> sys_progs (shm_init cfg a) Backup \<Longrightarrow>
     ReadMsg dstfd ''switchover_finished'' \<in> set p"
  unfolding shm_progs by (auto simp: shm_code append_eq_Cons_conv)

definition image_chain :: "(role \<times> act) list" where
  "image_chain =
     [(Backup, WriteMsg dstfd ''shm_load_vm_image''), (Backup, ReadMsg srcfd ''complete_vm_image''),
      (Src, WriteMsg connfd ''complete_vm_image''), (Src, AssertCount), (Src, SetCount),
      (Src, WriteMsg connfd ''shm_pre_copy_finish'')]"

lemma image_chain_unfold: "image_chain = (Backup, WriteMsg dstfd ''shm_load_vm_image'') # tl image_chain"
  by (simp add: image_chain_def)

lemma shm_image_chain:
  assumes r: "reachable (shm_init cfg a) s"
    and t: "trace s = w @ (Backup, WriteMsg dstfd ''shm_load_vm_image'') # v"
  shows "subseq (tl image_chain) v"
proof -
  note after = shm_after [OF r]
  have c5: "subseq [(Src, WriteMsg connfd ''shm_pre_copy_finish'')] v"
    if "trace s = w @ (Src, SetCount) # v" for w v
    by (rule chainI [OF that after [OF that shm_chain_facts(5)]]) simp_all
  have c4: "subseq [(Src, SetCount), (Src, WriteMsg connfd ''shm_pre_copy_finish'')] v"
    if "trace s = w @ (Src, AssertCount) # v" for w v
    by (rule chainI [OF that count_before_assert [OF r well_started_init(1) that] c5])
  have c3: "subseq [(Src, AssertCount), (Src, SetCount), (Src, WriteMsg connfd ''shm_pre_copy_finish'')] v"
    if "trace s = w @ (Src, WriteMsg connfd ''complete_vm_image'') # v" for w v
    by (rule chainI [OF that after [OF that shm_chain_facts(4)] c4])
  have c2: "subseq [(Src, WriteMsg connfd ''complete_vm_image''), (Src, AssertCount), (Src, SetCount),
      (Src, WriteMsg connfd ''shm_pre_copy_finish'')] v"
    if "trace s = w @ (Backup, ReadMsg srcfd ''complete_vm_image'') # v" for w v
    by (rule chainI [OF that shm_read_after_write [OF r that] c3]) simp_all
  show ?thesis
    unfolding image_chain_def list.sel by (rule chainI [OF t after [OF t shm_chain_facts(2)] c2])
qed

text \<open>
  C1.  In every execution of the shared-memory migration, under every interleaving, every short
  transfer and every sequence of signals: when the destination has told its QEMU to load the VM
  image (\<^verbatim>\<open>migrate_incoming_shm\<close>), then before that it had received
  \<^verbatim>\<open>shm_load_vm_image\<close>, which the backup had sent after receiving
  \<^verbatim>\<open>complete_vm_image\<close>, which the source had sent after checking
  \<^verbatim>\<open>sigusr1_count\<close>, set only after it had reported the end of pre-copy.
\<close>

theorem shm_load_after_complete_image:
  assumes "reachable (shm_init cfg a) s"
    and "(Dst, ExecRetry (cmd_shm_incoming (a Dst))) \<in> set (trace s)"
  shows "subseq ((Dst, ExecRetry (cmd_shm_incoming (a Dst))) # (Dst, ReadMsg connfd ''shm_load_vm_image'') # image_chain)
           (trace s)"
proof -
  from assms(2) obtain u0 v0 where t0: "trace s = u0 @ (Dst, ExecRetry (cmd_shm_incoming (a Dst))) # v0"
    by (auto simp: in_set_conv_decomp)
  have c2: "subseq image_chain v" if "trace s = w @ (Dst, ReadMsg connfd ''shm_load_vm_image'') # v" for w v
    by (subst image_chain_unfold,
        rule chainI [OF that shm_read_after_write [OF assms(1) that] shm_image_chain [OF assms(1)]]) simp_all
  have "subseq ((Dst, ReadMsg connfd ''shm_load_vm_image'') # image_chain) v0"
    by (rule chainI [OF t0 shm_after [OF assms(1) t0 shm_chain_facts(3)] c2])
  with t0 show ?thesis by (auto simp: list_emb_append2)
qed

section \<open>Schedules\<close>

text \<open>
  A benign schedule: every system call does all it was asked to (answer 0).  The abbreviations
  below are schedules built from it.
\<close>

definition benign :: "choice list \<Rightarrow> bool" where
  "benign cs = list_all (\<lambda>c. case c of Run r k \<Rightarrow> k = 0 | _ \<Rightarrow> True) cs"

definition go :: "role \<Rightarrow> nat \<Rightarrow> choice list" where
  "go r n = replicate n (Run r 0)"

text \<open>Both controllers boot, the backup connects, everyone is ready for a signal.\<close>

definition shm_connect :: "choice list" where
  "shm_connect = go Src 5 @ go Dst 1 @ go Backup 3 @ go Src 1 @ go Dst 2"

definition shm_schedule :: "choice list" where
  "shm_schedule =
     shm_connect @ [Deliver Backup SIGUSR1] @ go Backup 6 @ go Src 4 @ go Dst 2 @
     [Deliver Src SIGUSR2] @ go Src 3 @ [Deliver Src SIGUSR1] @ go Src 4 @
     go Backup 4 @ go Dst 3 @ [Deliver Dst SIGUSR1] @ go Dst 3 @ go Backup 3"

lemma all_role: "(\<forall>r. P r) \<longleftrightarrow> P Src \<and> P Dst \<and> P Backup"
  by (metis role.exhaust)

lemmas run_simps = all_role go_def replicate_Suc numeral_nat benign_def write_msg_def read_msg_def
  stream_write_def stream_read_def write_to_file_def read_from_file_def sys_defs init_sys_def
  init_proc_def init_link_def init_stream_def

lemma run_reachable: "run cs s = Some s' \<Longrightarrow> reachable s0 s \<Longrightarrow> reachable s0 s'"
  by (induction cs s rule: run.induct) (auto split: option.splits intro: reachable.step)

lemma shm_schedule_run:
  "\<exists>s. benign shm_schedule \<and> run shm_schedule (shm_init cfg a) = Some s \<and>
     (\<forall>r. status (procs s r) = Running) \<and> hd (trace s) = (Backup, Clock vm_restart) \<and>
     frames (procs s Backup) = [(None, [])] \<and> (Dst, ExecRetry (cmd_shm_incoming (a Dst))) \<in> set (trace s)"
  by (simp add: shm_schedule_def shm_connect_def shm_init_def shm_code run_simps)

definition sample_config :: config where
  "sample_config = \<lparr>src_ip = ''10.10.1.3'', dst_ip = ''10.10.1.3'', backup_ip = ''10.10.1.3'',
     vm_ip = ''10.10.1.100'', migration_port = ''4444'', src_control_port = ''55555'',
     dst_control_port = ''56666'', backup_control_port = ''57777''\<rparr>"

theorem shm_load_after_complete_image_witness:
  "\<exists>s. reachable (shm_init sample_config (\<lambda>_. no_args)) s \<and>
     subseq ((Dst, ExecRetry (cmd_shm_incoming no_args)) # (Dst, ReadMsg connfd ''shm_load_vm_image'') # image_chain)
       (trace s)"
proof -
  obtain s where "run shm_schedule (shm_init sample_config (\<lambda>_. no_args)) = Some s"
    and e: "(Dst, ExecRetry (cmd_shm_incoming no_args)) \<in> set (trace s)"
    using shm_schedule_run [of sample_config "\<lambda>_. no_args"] by blast
  then have "reachable (shm_init sample_config (\<lambda>_. no_args)) s"
    by (blast intro: run_reachable reachable.start)
  with shm_load_after_complete_image [OF this] e show ?thesis by blast
qed









end
