(* ===== verification/Controller_Bounds.thy ===== *)
theory Controller_Bounds
  imports Controller_Migration
begin

text \<open>
  Two facts about the start-up of the controller: what \<^verbatim>\<open>get_config_value\<close> returns on a
  configuration file, and that the fixed-size buffers of \<^verbatim>\<open>main\<close> keep every command line
  within \<^verbatim>\<open>char instr[2048]\<close>.
\<close>

section \<open>Configuration lookup\<close>

text \<open>
  C6.  On a file of well-formed \<^verbatim>\<open>KEY=VALUE\<close> lines, \<^verbatim>\<open>get_config_value\<close>
  returns the value of the first line whose key starts with the requested key (it compares only
  \<^verbatim>\<open>strlen(key)\<close> bytes), leaves the buffer as it was when there is none, and overruns the
  destination exactly when the value with its newline does not fit.
\<close>

theorem config_lookup:
  assumes "list_all wf_line kvs" and "CHR ''='' \<notin> set key"
  shows "get_config_value (Some (concat (map config_line kvs))) cap key old =
    (case find (\<lambda>kv. prefix key (fst kv)) kvs of
       None \<Rightarrow> Inr old
     | Some kv \<Rightarrow> if length (snd kv) + 1 < cap then Inr (snd kv) else Inl OutOfBounds)"
proof (cases "find (\<lambda>kv. prefix key (fst kv)) kvs")
  case None
  then show ?thesis by (simp add: get_config_value_def config_scan_lines [OF assms])
next
  case (Some kv)
  then have "kv \<in> set kvs" by (auto simp: find_Some_iff)
  with assms(1) have "newline \<notin> set (snd kv)" by (auto simp: list_all_iff wf_line_def)
  then have "before_newline (snd kv @ [newline]) = snd kv" by (rule before_newline_line)
  with Some show ?thesis by (simp add: get_config_value_def config_scan_lines [OF assms])
qed

theorem config_lookup_witness:
  "get_config_value (Some (concat (map config_line
     [(''SHARED_STORAGE'', ''/mnt/mynvm/qemu-study''), (''SRC_IP'', ''10.10.1.3''), (''DST_IP'', ''10.10.1.3'')])))
     IP_LEN ''SRC_IP'' [] = Inr ''10.10.1.3''"
proof -
  let ?kvs = "[(''SHARED_STORAGE'', ''/mnt/mynvm/qemu-study''), (''SRC_IP'', ''10.10.1.3''), (''DST_IP'', ''10.10.1.3'')]"
  have "list_all wf_line ?kvs" and "CHR ''='' \<notin> set ''SRC_IP''"
    by (simp_all add: wf_line_def MAX_LINE_LENGTH_def)
  from config_lookup [OF this, of IP_LEN "[]"] show ?thesis by (simp add: IP_LEN_def)
qed

section \<open>Command lines fit their buffer\<close>

fun command_of :: "act \<Rightarrow> string list" where
  "command_of (Spawn c) = [c]"
| "command_of (Exec c) = [c]"
| "command_of (ExecOk c) = [c]"
| "command_of (ExecRetry c) = [c]"
| "command_of (ExecFirst c) = [c]"
| "command_of _ = []"

definition commands :: "act list \<Rightarrow> string list" where
  "commands as = concat (map command_of as)"

lemma dec_val_bound: "list_all is_digit s \<Longrightarrow> dec_val s < 10 ^ length s"
proof (induction s rule: rev_induct)
  case (snoc c s)
  then have "dec_val s + 1 \<le> 10 ^ length s" and "digit_val c < 10" by auto
  then have "10 * (dec_val s + 1) \<le> 10 * 10 ^ length s" by (intro mult_le_mono2)
  with \<open>digit_val c < 10\<close> show ?case by simp
qed simp

lemma takeWhile_digits: "list_all is_digit (takeWhile is_digit s)"
  by (auto simp: list_all_iff dest: set_takeWhileD)

lemma atoi_bound: "\<bar>atoi s\<bar> < 10 ^ length s"
proof -
  have b: "int (dec_val (takeWhile is_digit t)) < 10 ^ length s" if "length t \<le> length s" for t
  proof -
    have "dec_val (takeWhile is_digit t) < 10 ^ length (takeWhile is_digit t)"
      by (rule dec_val_bound [OF takeWhile_digits])
    also have "\<dots> \<le> 10 ^ length s"
      using that length_takeWhile_le [of is_digit t] by (intro power_increasing) (auto intro: order_trans)
    finally show ?thesis by (metis of_nat_less_iff of_nat_numeral of_nat_power)
  qed
  have l: "length (dropWhile is_space (cstr s)) \<le> length s"
    by (metis cstr_def length_dropWhile_le length_takeWhile_le order_trans)
  show ?thesis
  proof (cases "dropWhile is_space (cstr s)")
    case Nil
    then show ?thesis unfolding atoi_def Let_def Nil by simp
  next
    case (Cons c r)
    with l have "length r \<le> length s" by simp
    then show ?thesis using b [of r] b [OF l] unfolding atoi_def Let_def Cons by simp
  qed
qed

lemma dec_of_int_length:
  assumes "\<bar>i\<bar> < 10 ^ k" and "0 < k"
  shows "length (dec_of_int i) \<le> Suc k"
proof -
  have "nat \<bar>i\<bar> < 10 ^ k" using assms(1) by (simp add: nat_less_iff)
  from dec_of_nat_length [OF this assms(2)] show ?thesis
    by (auto simp: dec_of_int_def abs_if split: if_splits)
qed

lemma memory_arg_length:
  assumes "length s < 256"
  shows "length (dec_of_int (atoi s + 1)) \<le> 257"
proof -
  have "\<bar>atoi s\<bar> < 10 ^ 255"
    using atoi_bound [of s] power_increasing [of "length s" 255 "10 :: int"] assms by (simp add: less_le_trans)
  then have "\<bar>atoi s + 1\<bar> < 10 ^ 256" by (simp add: abs_if split: if_splits)
  from dec_of_int_length [OF this] show ?thesis by simp
qed

definition fits :: "config \<Rightarrow> args \<Rightarrow> bool" where
  "fits cfg a \<longleftrightarrow>
     length (dst_ip cfg) < 64 \<and> length (migration_port cfg) < 20 \<and>
     length (bench_script a) < 256 \<and> length (cpu_num a) < 256 \<and> length (memory_size a) < 256 \<and>
     length (output_file a) < 256 \<and> length (duration a) < 256 \<and> length (max_bandwidth a) < 256"

lemma read_config_fits:
  "read_config file = Inr cfg \<Longrightarrow> length (dst_ip cfg) < 64 \<and> length (migration_port cfg) < 20"
  by (auto simp: read_config_def c_bind_Inr_iff IP_LEN_def PORT_LEN_def dest!: get_config_value_length)

lemma main_fits:
  assumes "main file argv = Inr (Enter e cfg a)"
  shows "fits cfg a"
proof -
  from assms obtain cfg' where c: "read_config file = Inr cfg'"
    by (auto simp: main_def c_bind_Inr_iff split: if_splits)
  with assms have "cfg = cfg'"
    by (auto simp: main_def main_src_def main_shm_dst_def main_qemu_dst_def main_backup_def c_bind_Inr_iff Let_def
        split: if_splits)
  with assms read_config_fits [OF c] show ?thesis
    by (auto simp: fits_def main_def main_src_def main_shm_dst_def main_qemu_dst_def main_backup_def
        strcpy256_def no_args_def c_bind_Inr_iff Let_def split: if_splits)
qed

lemmas command_defs = cmd_src_boot_def cmd_dst_boot_def cmd_max_bandwidth_def cmd_downtime_def
  cmd_postcopy_ram_def cmd_postcopy_preempt_def cmd_migrate_def cmd_start_postcopy_def
  cmd_migrate_incoming_def cmd_pin_def cmd_rm_shm_def cmd_shm_migrate_def cmd_shm_switchover_def
  cmd_shm_quit_def cmd_shm_incoming_def monitor_def

text \<open>
  C7.  Whatever the command line and the configuration file, once \<^verbatim>\<open>main\<close> has entered a
  role, every command that role or its signal handlers build fits the 2048-byte buffer, so
  \<^verbatim>\<open>sprintf\<close> stays in bounds and \<^verbatim>\<open>execute_wrapper\<close> passes the command to the
  shell whole.
\<close>

theorem commands_fit:
  assumes "main file argv = Inr (Enter e cfg a)"
    and "c \<in> set (commands (main_code e cfg a)) \<or> (\<exists>sg. c \<in> set (commands (handler_code e sg)))"
  shows "length c < INSTR_LEN \<and> execute_wrapper_command c = c"
proof -
  from main_fits [OF assms(1)] have f: "fits cfg a" .
  then have "length (dec_of_int (atoi (memory_size a) + 1)) \<le> 257"
    by (intro memory_arg_length) (simp add: fits_def)
  with f assms(2) have "length c < 2048"
    by (cases e) (auto simp: commands_def qemu_code shm_code fits_def command_defs split: if_splits)
  then show ?thesis by (simp add: INSTR_LEN_def execute_wrapper_command_def)
qed

theorem commands_fit_witness:
  "length (cmd_dst_boot (no_args\<lparr>cpu_num := ''4'', memory_size := ''20G'', output_file := ''vm_dst.txt''\<rparr>)) < INSTR_LEN"
proof -
  let ?a = "no_args\<lparr>cpu_num := ''4'', memory_size := ''20G'', output_file := ''vm_dst.txt''\<rparr>"
  let ?cfg = "\<lparr>src_ip = [], dst_ip = [], backup_ip = [], vm_ip = [], migration_port = [],
      src_control_port = [], dst_control_port = [], backup_control_port = []\<rparr>"
  have "main (Some []) [''controller'', ''shm'', ''dst'', ''4'', ''20G'', ''vm_dst.txt''] =
      Inr (Enter shm_dst_main ?cfg ?a)"
    by (simp add: main_def read_config_def get_config_value_def config_scan.simps main_shm_dst_def strcpy256_def)
  moreover have "cmd_dst_boot ?a \<in> set (commands (main_code shm_dst_main ?cfg ?a))"
    by (simp add: commands_def shm_code)
  ultimately show ?thesis using commands_fit by blast
qed

section \<open>The control streams deliver messages in order\<close>

text \<open>
  C8.  The messages each side has received whole are, in order, the first ones the other side sent:
  reading exactly \<^verbatim>\<open>sizeof(msg) - 1\<close> bytes never splits, merges or reorders messages of
  these streams, however the network coalesces them.  (\<^verbatim>\<open>shm_migrate\<close> is a prefix of
  \<^verbatim>\<open>shm_migrate_switchover\<close>, so the stream that carries these two is not covered.)
\<close>

theorem control_messages_in_order:
  "(reachable (shm_init cfg a) s \<longrightarrow>
      prefix (recvd (up (links s Src))) (sent (up (links s Src))) \<and>
      prefix (recvd (up (links s Dst))) (sent (up (links s Dst))) \<and>
      prefix (recvd (down (links s Dst))) (sent (down (links s Dst)))) \<and>
   (reachable (qemu_init flag cfg a) s \<longrightarrow>
      prefix (recvd (up (links s Src))) (sent (up (links s Src))) \<and>
      prefix (recvd (up (links s Dst))) (sent (up (links s Dst))) \<and>
      prefix (recvd (down (links s Src))) (sent (down (links s Src))))"
proof (intro conjI impI)
  assume r: "reachable (shm_init cfg a) s"
  note rs = reachable_streams [OF r well_started_init(1)]
  show "prefix (recvd (up (links s Src))) (sent (up (links s Src)))"
    using rs [of Backup srcfd Src Src connfd] by (simp add: shm_words control_words_def in_stream_def out_stream_def)
  show "prefix (recvd (up (links s Dst))) (sent (up (links s Dst)))"
    using rs [of Backup dstfd Dst Dst connfd] by (simp add: shm_words control_words_def in_stream_def out_stream_def)
  show "prefix (recvd (down (links s Dst))) (sent (down (links s Dst)))"
    using rs [of Dst connfd Dst Backup dstfd] by (simp add: shm_words control_words_def in_stream_def out_stream_def)
next
  assume r: "reachable (qemu_init flag cfg a) s"
  note rs = reachable_streams [OF r well_started_init(2)]
  show "prefix (recvd (up (links s Src))) (sent (up (links s Src)))"
    using rs [of Backup srcfd Src Src connfd] by (simp add: qemu_words control_words_def in_stream_def out_stream_def)
  show "prefix (recvd (up (links s Dst))) (sent (up (links s Dst)))"
    using rs [of Backup dstfd Dst Dst connfd] by (simp add: qemu_words control_words_def in_stream_def out_stream_def)
  show "prefix (recvd (down (links s Src))) (sent (down (links s Src)))"
    using rs [of Src connfd Src Backup srcfd] by (simp add: qemu_words control_words_def in_stream_def out_stream_def)
qed

theorem control_messages_in_order_witness:
  "\<exists>s. reachable (shm_init sample_config (\<lambda>_. no_args)) s \<and> hd (trace s) = (Backup, Clock vm_restart) \<and>
     prefix (recvd (up (links s Src))) (sent (up (links s Src)))"
proof -
  obtain s where "run shm_schedule (shm_init sample_config (\<lambda>_. no_args)) = Some s"
    and h: "hd (trace s) = (Backup, Clock vm_restart)"
    using shm_schedule_run [of sample_config "\<lambda>_. no_args"] by blast
  then have "reachable (shm_init sample_config (\<lambda>_. no_args)) s"
    by (blast intro: run_reachable reachable.start)
  with control_messages_in_order h show ?thesis by blast
qed

end
