(* ===== verification/Fmsync_Policy.thy ===== *)
theory Fmsync_Policy
  imports Prelude
begin

text \<open>
  The fmsync write-back simulator, \<^verbatim>\<open>src/fmsync_policy/policy.cc\<close> (and its truncated
  variant \<^verbatim>\<open>backup_policy.cc\<close>): parsing a dirty log into a 0/1 matrix and replaying it
  under the LRU, MIN and LFU eviction policies with a bound on the dirty set.
\<close>

section \<open>The dirty log\<close>

definition PAGE_NUM :: nat where "PAGE_NUM = 32 * 512"
definition MAX_ITER :: nat where "MAX_ITER = 1000"

text \<open>\<^verbatim>\<open>std::getline\<close>: the lines of the file, without their newline.\<close>

function getlines :: "string \<Rightarrow> string list" where
  "getlines s =
     (if s = [] then []
      else before_newline s # getlines (drop (Suc (length (before_newline s))) s))"
  by pat_completeness auto
termination
  by (relation "measure length") auto

declare getlines.simps [simp del]

text \<open>\<^verbatim>\<open>line.substr(0, line.length() - 1)\<close>; on an empty line the length wraps and nothing is cut.\<close>

definition chop :: "string \<Rightarrow> string" where
  "chop line = butlast line"

text \<open>The regular expression \<^verbatim>\<open>^[01]+$\<close>.\<close>

definition binary_pattern :: "string \<Rightarrow> bool" where
  "binary_pattern line \<longleftrightarrow> line \<noteq> [] \<and> list_all (\<lambda>c. c = CHR ''0'' \<or> c = CHR ''1'') line"

record dirty_log =
  log_m :: nat
  log_rows :: "int list list"

abbreviation log_n :: "dirty_log \<Rightarrow> nat" where
  "log_n d \<equiv> length (log_rows d)"

text \<open>
  One matching line: \<^verbatim>\<open>++n\<close>, the length check, and the copy into \<^verbatim>\<open>a[n]\<close>, which
  exists for \<open>n < MAX_ITER\<close> and has \<^verbatim>\<open>PAGE_NUM\<close> columns.
\<close>

definition parse_line :: "dirty_log \<Rightarrow> string \<Rightarrow> dirty_log c_result" where
  "parse_line d line0 =
     (let line = chop line0
      in if \<not> binary_pattern line then Inr d
         else let m = (if log_m d = 0 then length line else log_m d)
              in if m \<noteq> length line then Inl AssertFail
                 else if MAX_ITER \<le> Suc (log_n d) \<or> PAGE_NUM < m then Inl OutOfBounds
                 else Inr \<lparr>log_m = m, log_rows = log_rows d @ [map (\<lambda>c. of_char c - 48) line]\<rparr>)"

fun parse_lines :: "dirty_log \<Rightarrow> string list \<Rightarrow> dirty_log c_result" where
  "parse_lines d [] = Inr d"
| "parse_lines d (l # ls) = c_bind (parse_line d l) (\<lambda>d'. parse_lines d' ls)"

definition parse_input :: "string option \<Rightarrow> dirty_log c_result" where
  "parse_input file =
     (case file of
        None \<Rightarrow> Inl AssertFail
      | Some s \<Rightarrow> parse_lines \<lparr>log_m = 0, log_rows = []\<rparr> (getlines s))"

text \<open>\<^verbatim>\<open>a[iter][idx]\<close>; rows from 1, everything not written is 0.\<close>

definition cell :: "dirty_log \<Rightarrow> nat \<Rightarrow> nat \<Rightarrow> int" where
  "cell d iter idx =
     (if 1 \<le> iter \<and> iter \<le> log_n d \<and> idx < length (log_rows d ! (iter - 1))
      then log_rows d ! (iter - 1) ! idx else 0)"

text \<open>The pages a row dirties, in the order of the inner loop.\<close>

definition dirtied :: "dirty_log \<Rightarrow> nat \<Rightarrow> nat list" where
  "dirtied d iter = filter (\<lambda>idx. cell d iter idx = 1) [0..<log_m d]"

text \<open>\<^verbatim>\<open>size()\<close> of a container, and an \<^verbatim>\<open>int\<close> compared with it or subtracted from it.\<close>

definition dsize :: "nat set \<Rightarrow> nat" where
  "dsize D = card D mod 2 ^ 64"

definition to_size :: "int \<Rightarrow> nat" where
  "to_size t = nat (t mod 2 ^ 64)"

definition size_minus :: "nat \<Rightarrow> int \<Rightarrow> nat" where
  "size_minus n t = (n + (2 ^ 64 - to_size t)) mod 2 ^ 64"

text \<open>One line of output: iteration, size of the dirty set, evictions, size before them.\<close>

record report =
  r_iter :: nat
  r_dirty :: nat
  r_evict :: int
  r_prev :: nat

fun run_policy :: "(nat \<Rightarrow> 'st \<Rightarrow> ('st \<times> report) c_result) \<Rightarrow> nat list \<Rightarrow> 'st \<Rightarrow> ('st \<times> report list) c_result" where
  "run_policy f [] st = Inr (st, [])"
| "run_policy f (i # is) st =
     c_bind (f i st) (\<lambda>(st', r). c_bind (run_policy f is st') (\<lambda>(st'', rs). Inr (st'', r # rs)))"

section \<open>LRU\<close>

text \<open>
  \<^verbatim>\<open>page_map\<close> maps a page to its node of \<^verbatim>\<open>lru_list\<close>; a node is identified by the
  page it holds, so the model keeps the keys, and erasing through the iterator removes that page.
\<close>

record lru =
  lru_list :: "nat list"
  page_map :: "nat set"
  lru_dirty :: "nat set"

definition lru_init :: lru where
  "lru_init = \<lparr>lru_list = [], page_map = {}, lru_dirty = {}\<rparr>"

definition lru_touch :: "nat \<Rightarrow> lru \<Rightarrow> lru" where
  "lru_touch idx st =
     (let l = (if idx \<in> page_map st then remove1 idx (lru_list st) else lru_list st)
      in \<lparr>lru_list = idx # l, page_map = insert idx (page_map st), lru_dirty = insert idx (lru_dirty st)\<rparr>)"

text \<open>
  The eviction loop.  \<^verbatim>\<open>back()\<close> of an empty list is undefined; \<^verbatim>\<open>dirty_set[p]\<close>
  of an absent page is false.
\<close>

function lru_evict :: "int \<Rightarrow> lru \<Rightarrow> int \<Rightarrow> (lru \<times> int) c_result" where
  "lru_evict target st cnt =
     (if to_size target < dsize (lru_dirty st)
      then if lru_list st = [] then Inl OutOfBounds
           else let lru_page = last (lru_list st)
                in if lru_page \<notin> lru_dirty st then Inl AssertFail
                   else lru_evict target
                          \<lparr>lru_list = butlast (lru_list st), page_map = page_map st - {lru_page},
                           lru_dirty = lru_dirty st - {lru_page}\<rparr> (cnt + 1)
      else Inr (st, cnt))"
  by pat_completeness auto
termination
  by (relation "measure (\<lambda>(t, st, c). length (lru_list st))") auto

declare lru_evict.simps [simp del]

definition lru_iter :: "dirty_log \<Rightarrow> int \<Rightarrow> nat \<Rightarrow> lru \<Rightarrow> (lru \<times> report) c_result" where
  "lru_iter d target iter st =
     (let st1 = fold lru_touch (dirtied d iter) st
      in c_bind (lru_evict target st1 0) (\<lambda>(st2, cnt).
           Inr (st2, \<lparr>r_iter = iter, r_dirty = dsize (lru_dirty st2), r_evict = cnt,
                      r_prev = dsize (lru_dirty st1)\<rparr>)))"

definition lru_policy :: "dirty_log \<Rightarrow> int \<Rightarrow> (lru \<times> report list) c_result" where
  "lru_policy d target = run_policy (lru_iter d target) [1..<Suc (log_n d)] lru_init"

section \<open>MIN\<close>

record minp =
  next_use :: "nat \<Rightarrow> nat list"
  min_dirty :: "nat set"

text \<open>The first pass: for every page the iterations that dirty it, in order.\<close>

definition push_use :: "dirty_log \<Rightarrow> nat \<Rightarrow> (nat \<Rightarrow> nat list) \<Rightarrow> nat \<Rightarrow> nat list" where
  "push_use d iter u = fold (\<lambda>idx u. u(idx := u idx @ [iter])) (dirtied d iter) u"

definition build_next_use :: "dirty_log \<Rightarrow> nat \<Rightarrow> nat list" where
  "build_next_use d = fold (push_use d) [1..<Suc (log_n d)] (\<lambda>_. [])"

definition min_init :: "dirty_log \<Rightarrow> minp" where
  "min_init d = \<lparr>next_use = build_next_use d, min_dirty = {}\<rparr>"

definition min_touch :: "nat \<Rightarrow> minp \<Rightarrow> minp c_result" where
  "min_touch idx st =
     (if next_use st idx = [] then Inl AssertFail
      else Inr \<lparr>next_use = (next_use st)(idx := tl (next_use st idx)), min_dirty = insert idx (min_dirty st)\<rparr>)"

fun min_touches :: "nat list \<Rightarrow> minp \<Rightarrow> minp c_result" where
  "min_touches [] st = Inr st"
| "min_touches (i # is) st = c_bind (min_touch i st) (min_touches is)"

text \<open>\<^verbatim>\<open>next_use[page].empty() ? 1000000 : next_use[page].front()\<close>.\<close>

definition next_at :: "(nat \<Rightarrow> nat list) \<Rightarrow> nat \<Rightarrow> int" where
  "next_at u page = (if u page = [] then 1000000 else int (hd (u page)))"

text \<open>The vector \<^verbatim>\<open>v\<close> after \<^verbatim>\<open>std::sort\<close>: pairs are compared lexicographically and all distinct.\<close>

definition min_vector :: "nat \<Rightarrow> (nat \<Rightarrow> nat list) \<Rightarrow> nat set \<Rightarrow> nat list" where
  "min_vector m u dirty = sort_key (\<lambda>p. - next_at u p) (filter (\<lambda>p. p \<in> dirty) [0..<m])"

text \<open>The inner loop: its bound is re-evaluated after every erase.\<close>

function min_inner :: "int \<Rightarrow> nat list \<Rightarrow> nat \<Rightarrow> nat set \<Rightarrow> int \<Rightarrow> (nat set \<times> int) c_result" where
  "min_inner target v i dirty cnt =
     (if i < size_minus (dsize dirty) target
      then if length v \<le> i then Inl OutOfBounds
           else if v ! i \<notin> dirty then Inl AssertFail
           else min_inner target v (Suc i) (dirty - {v ! i}) (cnt + 1)
      else Inr (dirty, cnt))"
  by pat_completeness auto
termination
  by (relation "measure (\<lambda>(t, v, i, s, c). length v - i)") auto

declare min_inner.simps [simp del]

lemma to_size_less: "to_size t < 2 ^ 64"
  by (simp add: to_size_def nat_less_iff)

lemma size_minus_eq:
  assumes "to_size t \<le> n" and "n < 2 ^ 64"
  shows "size_minus n t = n - to_size t"
proof -
  have "n + (2 ^ 64 - to_size t) = (n - to_size t) + 2 ^ 64"
    using assms to_size_less [of t] by simp
  then have "size_minus n t = (n - to_size t) mod 2 ^ 64" by (simp add: size_minus_def)
  with assms show ?thesis by simp
qed

lemma dsize_less: "dsize D < 2 ^ 64"
  by (simp add: dsize_def)

lemma size_minus_pos: "to_size t < dsize D \<Longrightarrow> 0 < size_minus (dsize D) t"
  using size_minus_eq [of t "dsize D"] dsize_less [of D] by simp

lemma min_inner_card:
  assumes "min_inner target v i dirty cnt = Inr (dirty', cnt')" and "finite dirty"
  shows "dirty' \<subseteq> dirty \<and> (i < size_minus (dsize dirty) target \<longrightarrow> card dirty' < card dirty)"
  using assms
proof (induction target v i dirty cnt rule: min_inner.induct)
  case (1 target v i dirty cnt)
  show ?case
  proof (cases "i < size_minus (dsize dirty) target")
    case True
    with "1.prems" have v: "\<not> length v \<le> i" "v ! i \<in> dirty"
      and rec: "min_inner target v (Suc i) (dirty - {v ! i}) (cnt + 1) = Inr (dirty', cnt')"
      by (auto simp: min_inner.simps [of target v i] split: if_splits)
    have "dirty' \<subseteq> dirty - {v ! i}" using "1.IH" [OF True v(1)] v(2) rec "1.prems"(2) by simp
    moreover have "card (dirty - {v ! i}) < card dirty"
      using v "1.prems"(2) by (intro card_Diff1_less)
    ultimately show ?thesis
      using "1.prems"(2) by (meson Diff_subset card_mono finite_Diff le_less_trans subset_trans)
  next
    case False
    with "1.prems" show ?thesis by (simp add: min_inner.simps [of target v i])
  qed
qed

text \<open>
  The outer loop.  A pass evicts about half of the surplus, because the bound of the inner loop
  shrinks as the index grows, so several passes are needed; each removes at least one page.
\<close>

function min_evict :: "nat \<Rightarrow> int \<Rightarrow> (nat \<Rightarrow> nat list) \<Rightarrow> nat set \<Rightarrow> int \<Rightarrow> (nat set \<times> int) c_result" where
  "min_evict m target u dirty cnt =
     (if to_size target < dsize dirty
      then (case min_inner target (min_vector m u dirty) 0 dirty cnt of
              Inl e \<Rightarrow> Inl e
            | Inr (dirty', cnt') \<Rightarrow> min_evict m target u dirty' cnt')
      else Inr (dirty, cnt))"
  by pat_completeness auto
termination
proof (relation "measure (\<lambda>(m, t, u, s, c). card s)", goal_cases)
  case (2 m target u dirty cnt p dirty' cnt')
  then have "card dirty \<noteq> 0" by (auto simp: dsize_def)
  then have "finite dirty" by (metis card.infinite)
  with 2 show ?case using min_inner_card size_minus_pos by fastforce
qed simp

declare min_evict.simps [simp del]

definition min_iter :: "dirty_log \<Rightarrow> int \<Rightarrow> nat \<Rightarrow> minp \<Rightarrow> (minp \<times> report) c_result" where
  "min_iter d target iter st =
     c_bind (min_touches (dirtied d iter) st) (\<lambda>st1.
     c_bind (min_evict (log_m d) target (next_use st1) (min_dirty st1) 0) (\<lambda>(dirty, cnt).
       Inr (st1\<lparr>min_dirty := dirty\<rparr>,
            \<lparr>r_iter = iter, r_dirty = dsize dirty, r_evict = cnt, r_prev = dsize (min_dirty st1)\<rparr>)))"

definition min_policy :: "dirty_log \<Rightarrow> int \<Rightarrow> (minp \<times> report list) c_result" where
  "min_policy d target = run_policy (min_iter d target) [1..<Suc (log_n d)] (min_init d)"

section \<open>LFU\<close>

text \<open>
  \<^verbatim>\<open>value[]\<close> holds doubles, but with \<^verbatim>\<open>exponential\<close> equal to 1 they are counts of at
  most \<^verbatim>\<open>MAX_ITER\<close> and exact.  The traversal of the unordered map followed by
  \<^verbatim>\<open>std::sort\<close> with \<^verbatim>\<open>compare_func\<close> is the parameter \<open>order\<close>: any order of the
  dirty pages by increasing value (ties and the map's order are unspecified).
\<close>

record poly =
  page_value :: "nat \<Rightarrow> int"
  poly_dirty :: "nat set"

definition exponential :: int where "exponential = 1"

definition compare_func :: "(nat \<Rightarrow> int) \<Rightarrow> nat \<Rightarrow> nat \<Rightarrow> bool" where
  "compare_func v x y \<longleftrightarrow> v x < v y"

definition sorts_by_value :: "((nat \<Rightarrow> int) \<Rightarrow> nat set \<Rightarrow> nat list) \<Rightarrow> bool" where
  "sorts_by_value order \<longleftrightarrow>
     (\<forall>v D. finite D \<longrightarrow> distinct (order v D) \<and> set (order v D) = D \<and>
        sorted_wrt (\<lambda>x y. \<not> compare_func v y x) (order v D))"

definition poly_init :: poly where
  "poly_init = \<lparr>page_value = (\<lambda>_. 0), poly_dirty = {}\<rparr>"

definition poly_touch :: "dirty_log \<Rightarrow> nat \<Rightarrow> nat \<Rightarrow> poly \<Rightarrow> poly" where
  "poly_touch d iter idx st =
     \<lparr>page_value = (page_value st)(idx := page_value st idx * exponential + cell d iter idx),
      poly_dirty = (if cell d iter idx = 1 then insert idx (poly_dirty st) else poly_dirty st)\<rparr>"

text \<open>\<^verbatim>\<open>int evict_num = dirty_set.size() - dirty_target\<close>, clipped at 0.\<close>

definition evict_num :: "nat \<Rightarrow> int \<Rightarrow> int" where
  "evict_num n target = max 0 (sint (of_nat n - of_int target :: 32 word))"

text \<open>
  The eviction loop over \<^verbatim>\<open>index_sort\<close>.  Past the end of the sorted part the entries are stale,
  but by then every dirty page has been erased and the assertion fails on whatever they hold.
\<close>

fun poly_evict :: "nat \<Rightarrow> nat list \<Rightarrow> nat set \<Rightarrow> nat set c_result" where
  "poly_evict 0 idxs dirty = Inr dirty"
| "poly_evict (Suc k) [] dirty = Inl AssertFail"
| "poly_evict (Suc k) (p # ps) dirty = (if p \<in> dirty then poly_evict k ps (dirty - {p}) else Inl AssertFail)"

definition poly_iter ::
  "((nat \<Rightarrow> int) \<Rightarrow> nat set \<Rightarrow> nat list) \<Rightarrow> dirty_log \<Rightarrow> int \<Rightarrow> nat \<Rightarrow> poly \<Rightarrow> (poly \<times> report) c_result" where
  "poly_iter order d target iter st =
     (let st1 = fold (poly_touch d iter) [0..<log_m d] st;
          index_sort = order (page_value st1) (poly_dirty st1);
          k = evict_num (dsize (poly_dirty st1)) target
      in c_bind (poly_evict (nat k) index_sort (poly_dirty st1)) (\<lambda>dirty.
           Inr (st1\<lparr>poly_dirty := dirty\<rparr>,
                \<lparr>r_iter = iter, r_dirty = dsize dirty, r_evict = k, r_prev = dsize (poly_dirty st1)\<rparr>)))"

definition poly_policy ::
  "((nat \<Rightarrow> int) \<Rightarrow> nat set \<Rightarrow> nat list) \<Rightarrow> dirty_log \<Rightarrow> int \<Rightarrow> (poly \<times> report list) c_result" where
  "poly_policy order d target = run_policy (poly_iter order d target) [1..<Suc (log_n d)] poly_init"

section \<open>The program, and its truncated variant\<close>

definition policy_main ::
  "((nat \<Rightarrow> int) \<Rightarrow> nat set \<Rightarrow> nat list) \<Rightarrow> string option \<Rightarrow> int \<Rightarrow>
     (nat \<times> nat \<times> report list \<times> report list \<times> report list) c_result" where
  "policy_main order file cache_size =
     c_bind (parse_input file) (\<lambda>d.
     c_bind (poly_policy order d cache_size) (\<lambda>(_, lfu).
     c_bind (lru_policy d cache_size) (\<lambda>(_, lru).
     c_bind (min_policy d cache_size) (\<lambda>(_, mn).
       Inr (log_n d, log_m d, lfu, lru, mn)))))"

text \<open>\<^verbatim>\<open>backup_policy.cc\<close> replays only the first seven rows and prints the history of each victim.\<close>

definition print_page_history :: "dirty_log \<Rightarrow> nat \<Rightarrow> nat \<Rightarrow> string" where
  "print_page_history d page iter =
     ''evict page: '' @ dec_of_nat page @ [CHR 0x0A] @
     concat (map (\<lambda>i. dec_of_int (cell d i page)) [1..<Suc iter]) @ '' '' @
     concat (map (\<lambda>i. dec_of_int (cell d i page)) [Suc iter..<16]) @ [CHR 0x0A]"

definition backup_min_policy :: "dirty_log \<Rightarrow> int \<Rightarrow> (minp \<times> report list) c_result" where
  "backup_min_policy d target = run_policy (min_iter d target) [1..<8] (min_init d)"

definition backup_lru_policy :: "dirty_log \<Rightarrow> int \<Rightarrow> (lru \<times> report list) c_result" where
  "backup_lru_policy d target = run_policy (lru_iter d target) [1..<8] lru_init"

definition backup_poly_policy ::
  "((nat \<Rightarrow> int) \<Rightarrow> nat set \<Rightarrow> nat list) \<Rightarrow> dirty_log \<Rightarrow> int \<Rightarrow> (poly \<times> report list) c_result" where
  "backup_poly_policy order d target = run_policy (poly_iter order d target) [1..<8] poly_init"

end
