(* ===== verification/Fmsync_Props.thy ===== *)
theory Fmsync_Props
  imports Fmsync_Policy
begin

text \<open>
  Correctness of the write-back simulator: the contract all three policies share, stated as a locale
  and interpreted by each of them, and what distinguishes them, namely which pages they evict.
\<close>

section \<open>The contract of an eviction policy\<close>

text \<open>
  One iteration adds the pages of the row to the dirty set and evicts down to \<open>bound\<close>.  The
  invariant is indexed by the iteration about to run.
\<close>

definition report_ok :: "nat \<Rightarrow> report \<Rightarrow> bool" where
  "report_ok bound r \<longleftrightarrow>
     r_dirty r = min (r_prev r) bound \<and> r_evict r = int (r_prev r) - int (r_dirty r)"

locale write_back =
  fixes iterate :: "nat \<Rightarrow> 'st \<Rightarrow> ('st \<times> report) c_result"
    and dirty :: "'st \<Rightarrow> nat set"
    and invar :: "nat \<Rightarrow> 'st \<Rightarrow> bool"
    and row :: "nat \<Rightarrow> nat set"
    and bound :: nat
  assumes iterate_ok: "invar i st \<Longrightarrow> \<exists>st' r. iterate i st = Inr (st', r) \<and> invar (Suc i) st' \<and>
      dirty st' \<subseteq> dirty st \<union> row i \<and> r_iter r = i \<and> r_prev r = card (dirty st \<union> row i) \<and>
      r_dirty r = card (dirty st') \<and> report_ok bound r"
begin

lemma run_ok:
  assumes "invar i st" and "i \<le> j"
  shows "\<exists>st' rs. run_policy iterate [i..<j] st = Inr (st', rs) \<and> invar j st' \<and>
    dirty st' \<subseteq> dirty st \<union> (\<Union>k \<in> {i..<j}. row k) \<and>
    map r_iter rs = [i..<j] \<and> list_all (report_ok bound) rs"
  using assms
proof (induction "j - i" arbitrary: i st)
  case 0
  then have "i = j" by simp
  with 0 show ?case by simp
next
  case (Suc k)
  then have up: "[i..<j] = i # [Suc i..<j]" and le: "Suc i \<le> j" by (auto simp: upt_conv_Cons)
  from iterate_ok [OF Suc.prems(1)] obtain st1 r where
    1: "iterate i st = Inr (st1, r)" "invar (Suc i) st1" "dirty st1 \<subseteq> dirty st \<union> row i"
      "r_iter r = i" "report_ok bound r" by blast
  have "k = j - Suc i" using Suc.hyps(2) by simp
  from Suc.hyps(1) [OF this 1(2) le] obtain st2 rs where
    2: "run_policy iterate [Suc i..<j] st1 = Inr (st2, rs)" "invar j st2"
      "dirty st2 \<subseteq> dirty st1 \<union> (\<Union>k \<in> {Suc i..<j}. row k)"
      "map r_iter rs = [Suc i..<j]" "list_all (report_ok bound) rs" by blast
  have "{i..<j} = insert i {Suc i..<j}" using le by auto
  with 1 2 have "dirty st2 \<subseteq> dirty st \<union> (\<Union>k \<in> {i..<j}. row k)" by auto
  with 1 2 show ?case unfolding up by auto
qed

text \<open>A run is a sequence of dirty sets, with the evictions its reports count.\<close>

lemma run_sets:
  assumes "invar i st" and "i \<le> j" and "run_policy iterate [i..<j] st = Inr (st', rs)"
  shows "\<exists>S. S i = dirty st \<and> (\<forall>k \<in> {i..<j}. S (Suc k) \<subseteq> S k \<union> row k \<and> card (S (Suc k)) \<le> bound) \<and>
    map r_evict rs = map (\<lambda>k. int (card (S k \<union> row k)) - int (card (S (Suc k)))) [i..<j]"
  using assms
proof (induction "j - i" arbitrary: i st rs)
  case 0
  then show ?case by (intro exI [of _ "\<lambda>_. dirty st"]) simp
next
  case (Suc x)
  then have up: "[i..<j] = i # [Suc i..<j]" and le: "Suc i \<le> j" and x: "x = j - Suc i" by (auto simp: upt_conv_Cons)
  from iterate_ok [OF Suc.prems(1)] Suc.prems(3) obtain st1 r rs' where
    1: "invar (Suc i) st1" "dirty st1 \<subseteq> dirty st \<union> row i" "r_prev r = card (dirty st \<union> row i)"
      "r_dirty r = card (dirty st1)" "report_ok bound r" and
    rs: "rs = r # rs'" "run_policy iterate [Suc i..<j] st1 = Inr (st', rs')"
    by (auto simp: up c_bind_Inr_iff)
  from Suc.hyps(1) [OF x 1(1) le rs(2)] obtain S where
    S: "S (Suc i) = dirty st1" "\<forall>k \<in> {Suc i..<j}. S (Suc k) \<subseteq> S k \<union> row k \<and> card (S (Suc k)) \<le> bound"
      "map r_evict rs' = map (\<lambda>k. int (card (S k \<union> row k)) - int (card (S (Suc k)))) [Suc i..<j]" by blast
  have "map (\<lambda>k. int (card ((S(i := dirty st)) k \<union> row k)) - int (card ((S(i := dirty st)) (Suc k)))) [Suc i..<j]
      = map r_evict rs'" unfolding S(3) by (intro map_cong) auto
  with 1 S(1,2) rs(1) show ?case
    by (intro exI [of _ "S(i := dirty st)"]) (auto simp: up report_ok_def)
qed

text \<open>The invariant holds wherever a run has arrived.\<close>

lemma run_invar:
  assumes "invar i st" and "i \<le> j" and "run_policy iterate [i..<j] st = Inr (st', rs)"
  shows "invar j st'"
  using run_ok [OF assms(1,2)] assms(3) by auto

end

section \<open>LRU\<close>

definition small_log :: "dirty_log \<Rightarrow> bool" where
  "small_log d \<longleftrightarrow> log_m d \<le> PAGE_NUM"

lemma dsize_small:
  assumes "small_log d" and "D \<subseteq> {..<log_m d}"
  shows "dsize D = card D"
proof -
  have "card D \<le> log_m d" using assms(2) card_mono [of "{..<log_m d}" D] by simp
  with assms(1) show ?thesis by (simp add: dsize_def small_log_def PAGE_NUM_def)
qed

lemma dirtied_set: "set (dirtied d i) = {p. p < log_m d \<and> cell d i p = 1}"
  by (auto simp: dirtied_def)

lemma dirtied_small: "set (dirtied d i) \<subseteq> {..<log_m d}"
  by (auto simp: dirtied_set)

definition lru_inv :: "dirty_log \<Rightarrow> lru \<Rightarrow> bool" where
  "lru_inv d st \<longleftrightarrow>
     distinct (lru_list st) \<and> set (lru_list st) = lru_dirty st \<and> page_map st = lru_dirty st \<and>
     lru_dirty st \<subseteq> {..<log_m d} \<and> small_log d"

lemma lru_inv_card: "lru_inv d st \<Longrightarrow> card (lru_dirty st) = length (lru_list st)"
  by (metis distinct_card lru_inv_def)

lemma lru_touch_inv: "lru_inv d st \<Longrightarrow> p < log_m d \<Longrightarrow> lru_inv d (lru_touch p st)"
  by (auto simp: lru_inv_def lru_touch_def)

lemma lru_touch_dirty [simp]: "lru_dirty (lru_touch p st) = insert p (lru_dirty st)"
  by (simp add: lru_touch_def)

lemma fold_lru_touch:
  "lru_inv d st \<Longrightarrow> set ps \<subseteq> {..<log_m d} \<Longrightarrow>
     lru_inv d (fold lru_touch ps st) \<and> lru_dirty (fold lru_touch ps st) = lru_dirty st \<union> set ps"
  by (induction ps arbitrary: st) (auto simp: lru_touch_inv)

lemma lru_evict_eq:
  assumes "lru_inv d st"
  shows "lru_evict t st c =
    (let l = take (to_size t) (lru_list st)
     in Inr (\<lparr>lru_list = l, page_map = set l, lru_dirty = set l\<rparr>, c + int (length (lru_list st) - length l)))"
  using assms
proof (induction t st c rule: lru_evict.induct)
  case (1 t st c)
  let ?l = "lru_list st"
  have n: "dsize (lru_dirty st) = length ?l"
    using 1 dsize_small distinct_card by (fastforce simp: lru_inv_def)
  show ?case
  proof (cases "to_size t < length ?l")
    case True
    then have ne: "?l \<noteq> []" by auto
    let ?st = "\<lparr>lru_list = butlast ?l, page_map = page_map st - {last ?l}, lru_dirty = lru_dirty st - {last ?l}\<rparr>"
    have last: "last ?l \<in> lru_dirty st" using 1 ne by (auto simp: lru_inv_def)
    have "distinct (butlast ?l @ [last ?l])" using 1 ne by (simp add: lru_inv_def)
    moreover have "set ?l = insert (last ?l) (set (butlast ?l))"
      using ne by (metis append_butlast_last_id list.simps(15) rotate1.simps(2) set_rotate1)
    ultimately have inv: "lru_inv d ?st" using 1 by (auto simp: lru_inv_def)
    have rec: "lru_evict t st c = lru_evict t ?st (c + 1)"
      by (subst lru_evict.simps) (simp add: n True ne last Let_def)
    have "take (to_size t) (butlast ?l) = take (to_size t) ?l"
      using True by (simp add: take_butlast)
    with "1.IH" [OF _ ne refl _ inv] n True last show ?thesis
      by (simp add: rec Let_def)
  next
    case False
    have "st = \<lparr>lru_list = ?l, page_map = set ?l, lru_dirty = set ?l\<rparr>"
      using 1 by (simp add: lru_inv_def)
    with False n show ?thesis by (subst lru_evict.simps) (simp add: Let_def)
  qed
qed

lemma lru_inv_take:
  assumes "lru_inv d st"
  shows "lru_inv d \<lparr>lru_list = take k (lru_list st), page_map = set (take k (lru_list st)),
           lru_dirty = set (take k (lru_list st))\<rparr>"
  using assms by (auto simp: lru_inv_def dest: in_set_takeD)

lemma lru_iter_eq:
  fixes i :: nat
  assumes "lru_inv d st"
  defines "st1 \<equiv> fold lru_touch (dirtied d i) st"
  shows "lru_iter d t i st =
    (let l = take (to_size t) (lru_list st1)
     in Inr (\<lparr>lru_list = l, page_map = set l, lru_dirty = set l\<rparr>,
         \<lparr>r_iter = i, r_dirty = card (set l), r_evict = int (length (lru_list st1)) - int (length l),
          r_prev = card (lru_dirty st1)\<rparr>))"
proof -
  have inv: "lru_inv d st1" using fold_lru_touch [OF assms(1) dirtied_small] by (simp add: st1_def)
  have "dsize (lru_dirty st1) = card (lru_dirty st1)"
    using inv by (auto simp: lru_inv_def intro: dsize_small)
  moreover have "dsize (set (take (to_size t) (lru_list st1))) = card (set (take (to_size t) (lru_list st1)))"
    using lru_inv_take [OF inv] by (auto simp: lru_inv_def intro!: dsize_small)
  ultimately show ?thesis
    by (simp add: lru_iter_def st1_def [symmetric] lru_evict_eq [OF inv] Let_def)
qed

subsection \<open>Recency\<close>

text \<open>The last iteration up to \<open>i\<close> that dirtied a page, 0 if there is none.\<close>

definition last_use :: "dirty_log \<Rightarrow> nat \<Rightarrow> nat \<Rightarrow> nat" where
  "last_use d i p = last (0 # filter (\<lambda>j. cell d j p = 1) [1..<Suc i])"

lemma cell_0 [simp]: "cell d 0 p = 0"
  by (simp add: cell_def)

lemma last_use_step: "last_use d i p = (if cell d i p = 1 then i else last_use d (i - 1) p)"
  by (cases i) (auto simp: last_use_def)

lemma last_use_le: "last_use d i p \<le> i"
proof -
  have "last_use d i p \<in> set (0 # filter (\<lambda>j. cell d j p = 1) [1..<Suc i])"
    unfolding last_use_def by (rule last_in_set) simp
  then show ?thesis by auto
qed

definition by_recency :: "dirty_log \<Rightarrow> nat \<Rightarrow> nat list \<Rightarrow> bool" where
  "by_recency d i l \<longleftrightarrow> sorted_wrt (\<lambda>p q. last_use d i q \<le> last_use d i p) l"

lemma sorted_wrt_const: "(\<And>p. p \<in> set l \<Longrightarrow> f p = c) \<Longrightarrow> sorted_wrt (\<lambda>p q. f q \<le> (f p :: nat)) l"
  by (induction l) auto

lemma lru_touch_list:
  "lru_inv d st \<Longrightarrow> lru_list (lru_touch p st) = p # filter (\<lambda>q. q \<noteq> p) (lru_list st)"
proof (cases "p \<in> lru_dirty st")
  case False
  assume "lru_inv d st"
  with False have "filter (\<lambda>q. q \<noteq> p) (lru_list st) = lru_list st"
    by (intro filter_True) (auto simp: lru_inv_def)
  with False \<open>lru_inv d st\<close> show ?thesis by (simp add: lru_touch_def lru_inv_def)
qed (auto simp: lru_touch_def lru_inv_def distinct_remove1_removeAll removeAll_filter_not_eq intro!: filter_cong)

lemma fold_lru_touch_list:
  assumes "lru_inv d st" and "distinct ps" and "set ps \<subseteq> {..<log_m d}"
  shows "lru_list (fold lru_touch ps st) = rev ps @ filter (\<lambda>q. q \<notin> set ps) (lru_list st)"
  using assms
proof (induction ps arbitrary: st)
  case (Cons p ps)
  then have inv: "lru_inv d (lru_touch p st)" by (simp add: lru_touch_inv)
  have "filter (\<lambda>q. q \<notin> set ps) (p # filter (\<lambda>q. q \<noteq> p) (lru_list st)) =
      p # filter (\<lambda>q. q \<notin> set (p # ps)) (lru_list st)"
    using Cons.prems by (simp add: conj_commute)
  with Cons.IH [OF inv] Cons.prems show ?case by (simp add: lru_touch_list)
qed simp

lemma fold_lru_touch_recency:
  assumes inv: "lru_inv d st" and rec: "by_recency d (i - 1) (lru_list st)"
  shows "by_recency d i (lru_list (fold lru_touch (dirtied d i) st))"
proof -
  have dist: "distinct (dirtied d i)" by (simp add: dirtied_def)
  let ?old = "filter (\<lambda>q. q \<notin> set (dirtied d i)) (lru_list st)"
  have old: "last_use d i q = last_use d (i - 1) q" if "q \<in> set ?old" for q
    using that inv by (subst last_use_step) (auto simp: dirtied_set lru_inv_def)
  have "by_recency d (i - 1) ?old" using rec by (simp add: by_recency_def sorted_wrt_filter)
  then have "by_recency d i ?old"
    unfolding by_recency_def by (rule sorted_wrt_mono_rel [rotated]) (simp add: old)
  moreover have new: "last_use d i p = i" if "p \<in> set (dirtied d i)" for p
    using that by (subst last_use_step) (simp add: dirtied_set)
  moreover have "by_recency d i (rev (dirtied d i))"
    unfolding by_recency_def by (rule sorted_wrt_const) (simp add: new)
  ultimately show ?thesis
    by (auto simp: fold_lru_touch_list [OF inv dist dirtied_small] by_recency_def sorted_wrt_append last_use_le)
qed

abbreviation lru_full_inv :: "dirty_log \<Rightarrow> nat \<Rightarrow> lru \<Rightarrow> bool" where
  "lru_full_inv d i st \<equiv> lru_inv d st \<and> by_recency d (i - 1) (lru_list st)"

interpretation lru_wb: write_back "lru_iter d t" lru_dirty "lru_full_inv d" "\<lambda>i. set (dirtied d i)" "to_size t"
  for d t
proof
  fix i st assume inv: "lru_full_inv d i st"
  let ?st1 = "fold lru_touch (dirtied d i) st"
  have 1: "lru_inv d ?st1" "lru_dirty ?st1 = lru_dirty st \<union> set (dirtied d i)"
    using fold_lru_touch [OF _ dirtied_small] inv by auto
  have c: "card (lru_dirty ?st1) = length (lru_list ?st1)" by (rule lru_inv_card [OF 1(1)])
  have "distinct (take (to_size t) (lru_list ?st1))" using 1 by (simp add: lru_inv_def)
  then have c': "card (set (take (to_size t) (lru_list ?st1))) = min (length (lru_list ?st1)) (to_size t)"
    by (simp add: distinct_card)
  have "by_recency d i (take (to_size t) (lru_list ?st1))"
    using fold_lru_touch_recency inv by (auto simp: by_recency_def sorted_wrt_take)
  then show "\<exists>st' r. lru_iter d t i st = Inr (st', r) \<and> lru_full_inv d (Suc i) st' \<and>
      lru_dirty st' \<subseteq> lru_dirty st \<union> set (dirtied d i) \<and> r_iter r = i \<and>
      r_prev r = card (lru_dirty st \<union> set (dirtied d i)) \<and> r_dirty r = card (lru_dirty st') \<and>
      report_ok (to_size t) r"
    using 1 c c' lru_inv_take [OF 1(1), of "to_size t"] inv
    by (auto simp: lru_iter_eq Let_def report_ok_def lru_inv_def dest: in_set_takeD)
qed

lemma lru_init_inv: "small_log d \<Longrightarrow> lru_full_inv d 1 lru_init"
  by (simp add: lru_inv_def lru_init_def by_recency_def)

section \<open>MIN\<close>

text \<open>The iterations after \<open>i\<close> that dirty a page.\<close>

definition future :: "dirty_log \<Rightarrow> nat \<Rightarrow> nat \<Rightarrow> nat list" where
  "future d i p = filter (\<lambda>j. cell d j p = 1) [Suc i..<Suc (log_n d)]"

lemma cell_beyond: "log_n d < i \<Longrightarrow> cell d i p = 0"
  by (simp add: cell_def)

lemma future_step: "future d (i - 1) p = (if cell d i p = 1 then i # future d i p else future d i p)"
proof (cases "1 \<le> i \<and> i \<le> log_n d")
  case True
  then have "[Suc (i - 1)..<Suc (log_n d)] = i # [Suc i..<Suc (log_n d)]"
    by (simp add: upt_conv_Cons)
  then show ?thesis by (simp add: future_def)
next
  case False
  then show ?thesis by (cases "i = 0") (auto simp: future_def cell_beyond)
qed

lemma fold_push: "distinct ps \<Longrightarrow> fold (\<lambda>idx u. u(idx := u idx @ [i])) ps u = (\<lambda>p. u p @ (if p \<in> set ps then [i] else []))"
  by (induction ps arbitrary: u) (auto simp: fun_eq_iff)

lemma build_next_use_eq: "p < log_m d \<Longrightarrow> build_next_use d p = future d 0 p"
proof -
  assume p: "p < log_m d"
  have "fold (push_use d) is u p = u p @ filter (\<lambda>j. cell d j p = 1) is" for "is" u
    by (induction "is" arbitrary: u) (auto simp: push_use_def fold_push dirtied_def p)
  then show ?thesis by (simp add: build_next_use_def future_def)
qed

definition min_inv :: "dirty_log \<Rightarrow> nat \<Rightarrow> minp \<Rightarrow> bool" where
  "min_inv d i st \<longleftrightarrow>
     (\<forall>p < log_m d. next_use st p = future d (i - 1) p) \<and> min_dirty st \<subseteq> {..<log_m d} \<and> small_log d"

lemma min_touches_eq:
  "distinct ps \<Longrightarrow> (\<And>p. p \<in> set ps \<Longrightarrow> next_use st p \<noteq> []) \<Longrightarrow>
     min_touches ps st = Inr \<lparr>next_use = (\<lambda>p. if p \<in> set ps then tl (next_use st p) else next_use st p),
                              min_dirty = min_dirty st \<union> set ps\<rparr>"
proof (induction ps arbitrary: st)
  case (Cons p ps)
  let ?s = "\<lparr>next_use = (next_use st)(p := tl (next_use st p)), min_dirty = insert p (min_dirty st)\<rparr>"
  have "min_touches ps ?s = Inr \<lparr>next_use = (\<lambda>q. if q \<in> set ps then tl (next_use ?s q) else next_use ?s q),
    min_dirty = min_dirty ?s \<union> set ps\<rparr>"
    by (rule Cons.IH) (use Cons.prems in auto)
  with Cons.prems show ?case by (auto simp: min_touch_def fun_eq_iff)
qed simp

lemma min_touches_inv:
  assumes "min_inv d i st"
  shows "\<exists>st1. min_touches (dirtied d i) st = Inr st1 \<and> (\<forall>p < log_m d. next_use st1 p = future d i p) \<and>
    min_dirty st1 = min_dirty st \<union> set (dirtied d i)"
proof -
  have fut: "next_use st p = i # future d i p" if "p \<in> set (dirtied d i)" for p
    using assms that future_step [of d i p] by (simp add: min_inv_def dirtied_set)
  have other: "next_use st p = future d i p" if "p < log_m d" "p \<notin> set (dirtied d i)" for p
    using assms that future_step [of d i p] by (simp add: min_inv_def dirtied_set)
  have "distinct (dirtied d i)" by (simp add: dirtied_def)
  from min_touches_eq [OF this, of st] fut other show ?thesis by (auto simp: fut)
qed

subsection \<open>The eviction loops\<close>

lemma size_minus_drop:
  assumes "distinct v" and "length v < 2 ^ 64" and "i \<le> length v" and "to_size t \<le> length v - i"
  shows "size_minus (dsize (set (drop i v))) t = length v - i - to_size t"
proof -
  have "card (set (drop i v)) = length v - i" using assms(1) by (simp add: distinct_card)
  with assms size_minus_eq [of t "length v - i"] show ?thesis by (simp add: dsize_def)
qed

text \<open>One pass evicts a prefix of the vector, never below the target, and at least one page if it is above.\<close>

lemma min_inner_pass:
  assumes "distinct v" and "length v < 2 ^ 64" and "i + to_size t \<le> length v"
  shows "\<exists>j. i \<le> j \<and> j + to_size t \<le> length v \<and>
    min_inner t v i (set (drop i v)) c = Inr (set (drop j v), c + int (j - i)) \<and>
    (i < length v - i - to_size t \<longrightarrow> i < j)"
  using assms
proof (induction "length v - i" arbitrary: i c rule: less_induct)
  case less
  note sz = size_minus_drop [OF less.prems(1,2), of i t]
  show ?case
  proof (cases "i < length v - i - to_size t")
    case True
    then have i: "i < length v" and le: "Suc i + to_size t \<le> length v" by auto
    have "v ! i \<notin> set (drop (Suc i) v)"
      using less.prems(1) i by (metis Cons_nth_drop_Suc distinct.simps(2) distinct_drop)
    then have d: "set (drop i v) - {v ! i} = set (drop (Suc i) v)" "v ! i \<in> set (drop i v)"
      using i by (auto simp flip: Cons_nth_drop_Suc)
    have "length v - Suc i < length v - i" using i by simp
    from less.hyps [OF this less.prems(1,2) le, of "c + 1"] obtain j where
      j: "Suc i \<le> j" "j + to_size t \<le> length v"
      "min_inner t v (Suc i) (set (drop (Suc i) v)) (c + 1) = Inr (set (drop j v), c + 1 + int (j - Suc i))"
      by blast
    then show ?thesis
      using True i d sz less.prems
      by (intro exI [of _ j]) (auto simp: min_inner.simps [of t v i] of_nat_diff)
  next
    case False
    then show ?thesis
      using sz less.prems by (intro exI [of _ i]) (auto simp: min_inner.simps [of t v i])
  qed
qed

text \<open>Sorting again after a pass gives the rest of the vector: the passes evict one prefix of it.\<close>

lemma filter_in_drop: "distinct v \<Longrightarrow> filter (\<lambda>p. p \<in> set (drop j v)) v = drop j v"
proof -
  assume "distinct v"
  then have "distinct (take j v @ drop j v)" by simp
  then have "filter (\<lambda>p. p \<in> set (drop j v)) (take j v @ drop j v) = drop j v"
    by (subst filter_append) (auto simp: filter_empty_conv filter_id_conv simp del: append_take_drop_id)
  then show ?thesis by simp
qed

lemma min_vector_filter: "min_vector m u D = filter (\<lambda>p. p \<in> D) (sort_key (\<lambda>p. - next_at u p) [0..<m])"
  by (simp add: min_vector_def filter_sort)

lemma min_vector_props:
  "D \<subseteq> {..<m} \<Longrightarrow> distinct (min_vector m u D) \<and> set (min_vector m u D) = D \<and> length (min_vector m u D) = card D"
proof -
  assume "D \<subseteq> {..<m}"
  then have "distinct (min_vector m u D)" and "set (min_vector m u D) = D" by (auto simp: min_vector_def)
  then show ?thesis by (metis distinct_card)
qed

lemma min_vector_again:
  assumes "D \<subseteq> {..<m}"
  shows "min_vector m u (set (drop j (min_vector m u D))) = drop j (min_vector m u D)"
proof -
  let ?v = "min_vector m u D"
  have sub: "set (drop j ?v) \<subseteq> D" using min_vector_props [OF assms] set_drop_subset by metis
  have "min_vector m u E = filter (\<lambda>p. p \<in> E) ?v" if "E \<subseteq> D" for E
    unfolding min_vector_filter filter_filter using that by (intro filter_cong) auto
  from this [OF sub] have "min_vector m u (set (drop j ?v)) = filter (\<lambda>p. p \<in> set (drop j ?v)) ?v" .
  then show ?thesis using filter_in_drop min_vector_props [OF assms] by metis
qed

lemma min_evict_eq:
  assumes "D \<subseteq> {..<m}" and "card D < 2 ^ 64"
  shows "min_evict m t u D c =
    Inr (set (drop (card D - to_size t) (min_vector m u D)), c + int (card D - to_size t))"
  using assms
proof (induction "card D" arbitrary: D c rule: less_induct)
  case less
  let ?v = "min_vector m u D"
  have v: "distinct ?v" "set ?v = D" "length ?v = card D" and d: "dsize D = card D"
    using min_vector_props [OF less.prems(1)] less.prems(2) by (auto simp: dsize_def)
  show ?case
  proof (cases "to_size t < card D")
    case True
    with v less.prems(2) obtain j where j: "0 < j" "j + to_size t \<le> card D"
      "min_inner t ?v 0 D c = Inr (set (drop j ?v), c + int j)"
      using min_inner_pass [of ?v 0 t c] by auto
    let ?D = "set (drop j ?v)"
    have D: "?D \<subseteq> D" "card ?D = card D - j"
      using v set_drop_subset [of j ?v] by (auto simp: distinct_card)
    then have "min_evict m t u ?D (c + int j) =
        Inr (set (drop (card ?D - to_size t) (min_vector m u ?D)), c + int j + int (card ?D - to_size t))"
      using less.prems j by (intro less.hyps) auto
    then show ?thesis
      using True j D d
      by (simp add: min_evict.simps [of m t u D] min_vector_again [OF less.prems(1)] add.commute of_nat_diff)
  next
    case False
    then show ?thesis using d v by (simp add: min_evict.simps [of m t u D])
  qed
qed

lemma min_iter_eq:
  assumes inv: "min_inv d i st"
  shows "\<exists>u. (\<forall>p < log_m d. u p = future d i p) \<and>
    (let D = min_dirty st \<union> set (dirtied d i); k = card D - to_size t; D' = set (drop k (min_vector (log_m d) u D)) in
     min_iter d t i st = Inr (\<lparr>next_use = u, min_dirty = D'\<rparr>,
       \<lparr>r_iter = i, r_dirty = card D', r_evict = int k, r_prev = card D\<rparr>) \<and> card D' = card D - k \<and> D' \<subseteq> D)"
proof -
  let ?D = "min_dirty st \<union> set (dirtied d i)"
  from min_touches_inv [OF inv] obtain st1 where
    st1: "min_touches (dirtied d i) st = Inr st1" "\<forall>p < log_m d. next_use st1 p = future d i p" "min_dirty st1 = ?D"
    by blast
  have D: "?D \<subseteq> {..<log_m d}" and sm: "small_log d" using inv by (auto simp: min_inv_def dirtied_set)
  let ?k = "card ?D - to_size t" and ?v = "min_vector (log_m d) (next_use st1) ?D"
  have v: "distinct ?v" "set ?v = ?D" "length ?v = card ?D" using min_vector_props [OF D] by auto
  have D': "set (drop ?k ?v) \<subseteq> ?D" "card (set (drop ?k ?v)) = card ?D - ?k"
    using v set_drop_subset [of ?k ?v] by (auto simp: distinct_card)
  have sz: "dsize ?D = card ?D" "dsize (set (drop ?k ?v)) = card (set (drop ?k ?v))"
    by (rule dsize_small [OF sm D], rule dsize_small [OF sm subset_trans [OF D'(1) D]])
  have "card ?D < 2 ^ 64" using sz(1) dsize_less by metis
  with st1 D sz D' show ?thesis
    by (intro exI [of _ "next_use st1"]) (simp add: min_iter_def min_evict_eq Let_def)
qed

interpretation min_wb: write_back "min_iter d t" min_dirty "min_inv d" "\<lambda>i. set (dirtied d i)" "to_size t" for d t
proof
  fix i st assume inv: "min_inv d i st"
  from min_iter_eq [OF inv, of t] obtain u where u: "\<forall>p < log_m d. u p = future d i p" and
    it: "let D = min_dirty st \<union> set (dirtied d i); k = card D - to_size t; D' = set (drop k (min_vector (log_m d) u D)) in
     min_iter d t i st = Inr (\<lparr>next_use = u, min_dirty = D'\<rparr>,
       \<lparr>r_iter = i, r_dirty = card D', r_evict = int k, r_prev = card D\<rparr>) \<and> card D' = card D - k \<and> D' \<subseteq> D"
    by blast
  with inv show "\<exists>st' r. min_iter d t i st = Inr (st', r) \<and> min_inv d (Suc i) st' \<and>
      min_dirty st' \<subseteq> min_dirty st \<union> set (dirtied d i) \<and> r_iter r = i \<and>
      r_prev r = card (min_dirty st \<union> set (dirtied d i)) \<and> r_dirty r = card (min_dirty st') \<and> report_ok (to_size t) r"
    by (auto simp: Let_def min_inv_def report_ok_def dirtied_set min_def of_nat_diff)
qed

lemma min_init_inv: "small_log d \<Longrightarrow> min_inv d 1 (min_init d)"
  by (simp add: min_inv_def min_init_def build_next_use_eq)

subsection \<open>Belady's argument: no schedule writes back less than MIN\<close>

text \<open>The pages of \<open>A\<close> whose next use after iteration \<open>i\<close> is later than \<open>k\<close>.\<close>

definition far :: "dirty_log \<Rightarrow> nat \<Rightarrow> int \<Rightarrow> nat set \<Rightarrow> nat" where
  "far d i k A = card {p \<in> A. k < next_at (future d i) p}"

lemma next_at_row: "p \<in> set (dirtied d (Suc i)) \<Longrightarrow> next_at (future d i) p = int (Suc i)"
  using future_step [of d "Suc i" p] by (simp add: dirtied_set next_at_def)

lemma next_at_other: "p < log_m d \<Longrightarrow> p \<notin> set (dirtied d (Suc i)) \<Longrightarrow> next_at (future d i) p = next_at (future d (Suc i)) p"
  using future_step [of d "Suc i" p] by (simp add: dirtied_set next_at_def)

lemma next_at_later: "log_n d < 1000000 \<Longrightarrow> i < log_n d \<Longrightarrow> int (Suc i) < next_at (future d (Suc i)) p"
proof -
  assume "log_n d < 1000000" "i < log_n d"
  moreover have "hd (future d (Suc i) p) \<in> set (future d (Suc i) p)" if "future d (Suc i) p \<noteq> []"
    using that by simp
  ultimately show ?thesis by (auto simp: next_at_def future_def)
qed

lemma far_touch:
  assumes "A \<subseteq> {..<log_m d}" and "int (Suc i) \<le> k"
  shows "far d (Suc i) k (A \<union> set (dirtied d (Suc i))) = far d i k A + far d (Suc i) k (set (dirtied d (Suc i)))"
proof -
  let ?R = "set (dirtied d (Suc i))"
  have "{p \<in> A \<union> ?R. k < next_at (future d (Suc i)) p} =
      {p \<in> A. k < next_at (future d i) p} \<union> {p \<in> ?R. k < next_at (future d (Suc i)) p}"
    using assms next_at_row [of _ d i] next_at_other [of _ d i] by fastforce
  moreover have "{p \<in> A. k < next_at (future d i) p} \<inter> {p \<in> ?R. k < next_at (future d (Suc i)) p} = {}"
    using assms(2) next_at_row [of _ d i] by fastforce
  moreover have "finite A" using assms(1) finite_subset by blast
  ultimately show ?thesis by (simp add: far_def card_Un_disjoint)
qed

lemma far_all:
  assumes "A \<subseteq> {..<log_m d}" and "log_n d < 1000000" and "i < log_n d"
  shows "far d i (int (Suc i)) A = card (A - set (dirtied d (Suc i)))"
proof -
  have "{p \<in> A. int (Suc i) < next_at (future d i) p} = A - set (dirtied d (Suc i))"
    using assms next_at_row [of _ d i] next_at_other [of _ d i] next_at_later [OF assms(2,3)] by fastforce
  then show ?thesis by (simp add: far_def)
qed

lemma filter_drop_mono:
  "sorted_wrt (\<lambda>x y. P y \<longrightarrow> P x) v \<Longrightarrow> length (filter P (drop e v)) = length (filter P v) - e"
proof (induction v arbitrary: e)
  case (Cons x v)
  have "\<not> P x \<Longrightarrow> filter P v = []" using Cons.prems by (auto simp: filter_empty_conv)
  with Cons show ?case by (cases e) auto
qed simp

lemma min_vector_far:
  assumes "D \<subseteq> {..<log_m d}" and u: "\<And>p. p < log_m d \<Longrightarrow> u p = future d i p"
  shows "far d i k (set (drop e (min_vector (log_m d) u D))) = far d i k D - e"
proof -
  let ?v = "min_vector (log_m d) u D" and ?P = "\<lambda>p. k < next_at u p"
  have v: "distinct ?v" "set ?v = D" using min_vector_props [OF assms(1)] by auto
  have "sorted (map (\<lambda>p. - next_at u p) ?v)" by (simp add: min_vector_def)
  then have "sorted_wrt (\<lambda>x y. ?P y \<longrightarrow> ?P x) ?v"
    by (simp add: sorted_map) (erule sorted_wrt_mono_rel [rotated], simp)
  note len = filter_drop_mono [OF this, of e]
  have cnt: "far d i k (set w) = length (filter ?P w)" if "distinct w" "set w \<subseteq> D" for w
  proof -
    have "{p \<in> set w. k < next_at (future d i) p} = set (filter ?P w)"
      using that(2) assms(1) u by (auto simp: next_at_def)
    then show ?thesis using that(1) distinct_card [of "filter ?P w"] by (simp add: far_def)
  qed
  have "set (drop e ?v) \<subseteq> D" using v(2) set_drop_subset by metis
  with cnt [of ?v] cnt [of "drop e ?v"] v len show ?thesis by simp
qed

text \<open>A schedule of dirty sets within the bound, and what it writes back in an iteration.\<close>

definition schedule :: "dirty_log \<Rightarrow> nat \<Rightarrow> (nat \<Rightarrow> nat set) \<Rightarrow> bool" where
  "schedule d bound S \<longleftrightarrow> S 0 = {} \<and>
     (\<forall>i < log_n d. S (Suc i) \<subseteq> S i \<union> set (dirtied d (Suc i)) \<and> card (S (Suc i)) \<le> bound)"

definition written :: "dirty_log \<Rightarrow> (nat \<Rightarrow> nat set) \<Rightarrow> nat \<Rightarrow> int" where
  "written d S i = int (card (S (i - 1) \<union> set (dirtied d i))) - int (card (S i))"

lemma schedule_pages: "schedule d bound S \<Longrightarrow> i \<le> log_n d \<Longrightarrow> S i \<subseteq> {..<log_m d}"
proof (induction i)
  case (Suc i)
  then have "S (Suc i) \<subseteq> S i \<union> set (dirtied d (Suc i))" "S i \<subseteq> {..<log_m d}" by (auto simp: schedule_def)
  then show ?case by (auto simp: dirtied_set)
qed (simp add: schedule_def)

lemma far_shrink:
  assumes "B' \<subseteq> B" and "finite B"
  shows "int (far d i k B) \<le> int (far d i k B') + (int (card B) - int (card B'))"
proof -
  have "finite B'" using assms finite_subset by blast
  have "far d i k B \<le> card ({p \<in> B'. k < next_at (future d i) p} \<union> (B - B'))"
    unfolding far_def using assms \<open>finite B'\<close> by (intro card_mono) auto
  also have "\<dots> \<le> far d i k B' + card (B - B')" unfolding far_def by (rule card_Un_le)
  finally show ?thesis
    using assms \<open>finite B'\<close> card_mono [OF assms(2,1)] by (simp add: card_Diff_subset of_nat_diff)
qed

lemma card_touch: "finite A \<Longrightarrow> card (A \<union> set R) = card (A - set R) + card (set R)"
  by (metis Un_Diff_cancel2 card_Un_disjoint Diff_disjoint finite_Diff finite_set inf_commute)

lemma min_step_far:
  fixes E F :: int
  assumes inv: "min_inv d (Suc i) st" and i: "i < log_n d" "log_n d < 1000000"
    and B: "B \<subseteq> {..<log_m d}" "B' \<subseteq> B \<union> set (dirtied d (Suc i))" "card B' \<le> to_size t"
    and pot: "\<And>k. int (Suc i) \<le> k \<Longrightarrow> E + int (far d i k (min_dirty st)) \<le> F + int (far d i k B)"
  shows "\<exists>st' r. min_iter d t (Suc i) st = Inr (st', r) \<and>
    (\<forall>k \<ge> int (Suc (Suc i)). E + r_evict r + int (far d (Suc i) k (min_dirty st')) \<le>
       F + (int (card (B \<union> set (dirtied d (Suc i)))) - int (card B')) + int (far d (Suc i) k B'))"
proof -
  let ?R = "set (dirtied d (Suc i))" and ?A = "min_dirty st"
  have A: "?A \<subseteq> {..<log_m d}" using inv by (simp add: min_inv_def)
  then have D: "?A \<union> ?R \<subseteq> {..<log_m d}" by (auto simp: dirtied_set)
  have fin: "finite ?A" "finite B" using A B(1) finite_subset by blast+
  let ?e = "card (?A \<union> ?R) - to_size t"
  obtain u where u: "\<forall>p < log_m d. u p = future d (Suc i) p" and
    it: "min_iter d t (Suc i) st =
      Inr (\<lparr>next_use = u, min_dirty = set (drop ?e (min_vector (log_m d) u (?A \<union> ?R)))\<rparr>,
       \<lparr>r_iter = Suc i, r_dirty = card (set (drop ?e (min_vector (log_m d) u (?A \<union> ?R)))), r_evict = int ?e,
        r_prev = card (?A \<union> ?R)\<rparr>)"
    using min_iter_eq [OF inv, of t] by (auto simp: Let_def)
  have base: "E + int (card (?A \<union> ?R)) \<le> F + int (card (B \<union> ?R))"
    using pot [of "int (Suc i)"] far_all [OF A i(2,1)] far_all [OF B(1) i(2,1)]
      card_touch [OF fin(1), of "dirtied d (Suc i)"] card_touch [OF fin(2), of "dirtied d (Suc i)"] by simp
  have "E + int ?e + int (far d (Suc i) k (set (drop ?e (min_vector (log_m d) u (?A \<union> ?R))))) \<le>
      F + (int (card (B \<union> ?R)) - int (card B')) + int (far d (Suc i) k B')" if k: "int (Suc (Suc i)) \<le> k" for k
  proof -
    have k': "int (Suc i) \<le> k" using k by simp
    have "int (far d (Suc i) k (B \<union> ?R)) \<le> int (far d (Suc i) k B') + (int (card (B \<union> ?R)) - int (card B'))"
      using fin by (intro far_shrink B) auto
    with base B(3) pot [OF k'] far_touch [OF A k'] far_touch [OF B(1) k'] min_vector_far [OF D u [rule_format], where e = ?e and k = k]
    show ?thesis by linarith
  qed
  with it show ?thesis by auto
qed

lemma min_run_far:
  fixes E F :: int
  assumes "min_inv d (Suc i) st" and "i \<le> log_n d" and "log_n d < 1000000" and sch: "schedule d (to_size t) S"
    and "\<And>k. int (Suc i) \<le> k \<Longrightarrow> E + int (far d i k (min_dirty st)) \<le> F + int (far d i k (S i))"
    and "run_policy (min_iter d t) [Suc i..<Suc (log_n d)] st = Inr (st', rs)"
  shows "E + sum_list (map r_evict rs) \<le> F + sum_list (map (written d S) [Suc i..<Suc (log_n d)])"
  using assms(1,2,5,6)
proof (induction "log_n d - i" arbitrary: i st E F rs)
  case 0
  then have "i = log_n d" by simp
  moreover have "far d (log_n d) 1000000 A = 0" for A by (simp add: far_def future_def next_at_def)
  ultimately show ?case using "0.prems"(3) [of 1000000] "0.prems"(4) assms(3) by simp
next
  case (Suc x)
  let ?R = "set (dirtied d (Suc i))"
  have i: "i < log_n d" using Suc.hyps(2) by simp
  then have up: "[Suc i..<Suc (log_n d)] = Suc i # [Suc (Suc i)..<Suc (log_n d)]" by (simp add: upt_conv_Cons)
  have sc: "S i \<subseteq> {..<log_m d}" "S (Suc i) \<subseteq> S i \<union> ?R" "card (S (Suc i)) \<le> to_size t"
    using schedule_pages [OF sch, of i] sch i by (auto simp: schedule_def)
  from min_step_far [OF Suc.prems(1) i assms(3) sc Suc.prems(3)] obtain st1 r where
    1: "min_iter d t (Suc i) st = Inr (st1, r)" and
    2: "\<And>k. int (Suc (Suc i)) \<le> k \<Longrightarrow> E + r_evict r + int (far d (Suc i) k (min_dirty st1)) \<le>
       F + (int (card (S i \<union> ?R)) - int (card (S (Suc i)))) + int (far d (Suc i) k (S (Suc i)))" by auto
  have inv1: "min_inv d (Suc (Suc i)) st1" using min_wb.iterate_ok [OF Suc.prems(1), of t] 1 by auto
  from Suc.prems(4) 1 obtain rs' where
    rs: "rs = r # rs'" "run_policy (min_iter d t) [Suc (Suc i)..<Suc (log_n d)] st1 = Inr (st', rs')"
    by (auto simp: up c_bind_Inr_iff simp del: upt_Suc)
  have x: "x = log_n d - Suc i" using Suc.hyps(2) by simp
  from Suc.hyps(1) [OF x inv1 _ 2 rs(2)] i rs(1) show ?case by (simp add: up written_def del: upt_Suc)
qed

section \<open>LFU\<close>

definition use_count :: "dirty_log \<Rightarrow> nat \<Rightarrow> nat \<Rightarrow> int" where
  "use_count d i p = (\<Sum>j \<in> {1..i}. cell d j p)"

lemma use_count_step: "use_count d i p = use_count d (i - 1) p + (if i = 0 then 0 else cell d i p)"
  by (cases i) (simp_all add: use_count_def)

definition poly_inv :: "dirty_log \<Rightarrow> nat \<Rightarrow> poly \<Rightarrow> bool" where
  "poly_inv d i st \<longleftrightarrow>
     1 \<le> i \<and> (\<forall>p < log_m d. page_value st p = use_count d (i - 1) p) \<and> poly_dirty st \<subseteq> {..<log_m d} \<and> small_log d"

lemma fold_poly_touch:
  "distinct ps \<Longrightarrow> fold (poly_touch d i) ps st =
     \<lparr>page_value = (\<lambda>p. page_value st p + (if p \<in> set ps then cell d i p else 0)),
      poly_dirty = poly_dirty st \<union> {p \<in> set ps. cell d i p = 1}\<rparr>"
proof (induction ps arbitrary: st)
  case (Cons p ps)
  then show ?case by (auto simp: poly_touch_def exponential_def fun_eq_iff)
qed simp

lemma poly_evict_eq:
  "distinct v \<Longrightarrow> k \<le> length v \<Longrightarrow> poly_evict k v (set v) = Inr (set (drop k v))"
proof (induction k v "set v" rule: poly_evict.induct)
  case (3 k p ps)
  then show ?case by (simp add: insert_Diff_if)
qed auto

lemma evict_num_eq:
  assumes "0 \<le> t" and "t < 2 ^ 31" and "n < 2 ^ 31"
  shows "evict_num n t = int (n - nat t)"
proof -
  have "(of_nat n - of_int t :: 32 word) = of_int (int n - t)" by simp
  moreover have "sint (of_int (int n - t) :: 32 word) = int n - t"
    using assms by (simp only: signed_of_int) (simp add: signed_take_bit_int_eq_self)
  ultimately show ?thesis using assms by (auto simp: evict_num_def of_nat_diff)
qed

lemma poly_iter_eq:
  fixes d i st t defines "D \<equiv> poly_dirty st \<union> set (dirtied d i)"
    and "u \<equiv> (\<lambda>p. page_value st p + (if p < log_m d then cell d i p else 0))"
  assumes inv: "poly_inv d i st" and ord: "sorts_by_value order" and t: "0 \<le> t" "t < 2 ^ 31"
  defines "k \<equiv> card D - nat t"
  shows "poly_iter order d t i st = Inr (\<lparr>page_value = u, poly_dirty = set (drop k (order u D))\<rparr>,
       \<lparr>r_iter = i, r_dirty = card (set (drop k (order u D))), r_evict = int k, r_prev = card D\<rparr>)"
    and "card (set (drop k (order u D))) = card D - k" and "set (drop k (order u D)) \<subseteq> D"
proof -
  have st1: "fold (poly_touch d i) [0..<log_m d] st = \<lparr>page_value = u, poly_dirty = D\<rparr>"
    by (auto simp: fold_poly_touch u_def D_def dirtied_set)
  have D: "D \<subseteq> {..<log_m d}" and sm: "small_log d" using inv by (auto simp: poly_inv_def D_def dirtied_set)
  then have fin: "finite D" by (meson finite_lessThan finite_subset)
  with ord have v: "distinct (order u D)" "set (order u D) = D" by (auto simp: sorts_by_value_def)
  then have len: "length (order u D) = card D" by (metis distinct_card)
  show sub: "set (drop k (order u D)) \<subseteq> D" using v set_drop_subset by metis
  show crd: "card (set (drop k (order u D))) = card D - k" using v len by (simp add: distinct_card)
  have sz: "dsize D = card D" "dsize (set (drop k (order u D))) = card (set (drop k (order u D)))"
    by (rule dsize_small [OF sm D], rule dsize_small [OF sm subset_trans [OF sub D]])
  have "card D \<le> log_m d" using D card_mono [of "{..<log_m d}" D] by simp
  then have "evict_num (card D) t = int k"
    using t sm by (simp add: evict_num_eq k_def small_log_def PAGE_NUM_def)
  moreover have "poly_evict k (order u D) D = Inr (set (drop k (order u D)))"
    using poly_evict_eq [OF v(1), of k] len by (simp add: v(2) k_def)
  ultimately show "poly_iter order d t i st = Inr (\<lparr>page_value = u, poly_dirty = set (drop k (order u D))\<rparr>,
       \<lparr>r_iter = i, r_dirty = card (set (drop k (order u D))), r_evict = int k, r_prev = card D\<rparr>)"
    by (simp add: poly_iter_def st1 sz)
qed

text \<open>What LFU needs of its inputs: the order it sorts by, and a target that is a nonnegative \<^verbatim>\<open>int\<close>.\<close>

definition lfu_ok :: "((nat \<Rightarrow> int) \<Rightarrow> nat set \<Rightarrow> nat list) \<Rightarrow> int \<Rightarrow> bool" where
  "lfu_ok order t \<longleftrightarrow> sorts_by_value order \<and> 0 \<le> t \<and> t < 2 ^ 31"

lemma to_size_pos: "0 \<le> t \<Longrightarrow> t < 2 ^ 31 \<Longrightarrow> to_size t = nat t"
  by (simp add: to_size_def)

abbreviation poly_full_inv ::
  "((nat \<Rightarrow> int) \<Rightarrow> nat set \<Rightarrow> nat list) \<Rightarrow> dirty_log \<Rightarrow> int \<Rightarrow> nat \<Rightarrow> poly \<Rightarrow> bool" where
  "poly_full_inv order d t i st \<equiv> poly_inv d i st \<and> lfu_ok order t"

lemma poly_inv_step:
  assumes "poly_inv d i st" and "D \<subseteq> {..<log_m d}"
  shows "poly_inv d (Suc i) \<lparr>page_value = (\<lambda>p. page_value st p + (if p < log_m d then cell d i p else 0)), poly_dirty = D\<rparr>"
proof -
  have "use_count d i p = use_count d (i - 1) p + cell d i p" for p
    using assms(1) use_count_step [of d i p] by (simp add: poly_inv_def)
  with assms show ?thesis by (simp add: poly_inv_def)
qed

interpretation poly_wb: write_back "poly_iter order d t" poly_dirty "poly_full_inv order d t"
  "\<lambda>i. set (dirtied d i)" "to_size t" for order d t
proof
  fix i st assume "poly_full_inv order d t i st"
  then have inv: "poly_inv d i st" and ok: "sorts_by_value order" "0 \<le> t" "t < 2 ^ 31" by (auto simp: lfu_ok_def)
  note it = poly_iter_eq [OF inv ok]
  have D: "poly_dirty st \<union> set (dirtied d i) \<subseteq> {..<log_m d}" using inv by (auto simp: poly_inv_def dirtied_set)
  let ?D = "poly_dirty st \<union> set (dirtied d i)"
  let ?u = "\<lambda>p. page_value st p + (if p < log_m d then cell d i p else 0)"
  let ?D' = "set (drop (card ?D - nat t) (order ?u ?D))"
  have "poly_inv d (Suc i) \<lparr>page_value = ?u, poly_dirty = ?D'\<rparr>"
    by (rule poly_inv_step [OF inv subset_trans [OF it(3) D]])
  moreover let ?r = "\<lparr>r_iter = i, r_dirty = card ?D', r_evict = int (card ?D - nat t), r_prev = card ?D\<rparr>"
  have "report_ok (to_size t) ?r"
    unfolding it(2) using ok by (simp add: report_ok_def to_size_pos of_nat_diff)
  ultimately show "\<exists>st' r. poly_iter order d t i st = Inr (st', r) \<and> poly_full_inv order d t (Suc i) st' \<and>
      poly_dirty st' \<subseteq> ?D \<and> r_iter r = i \<and>
      r_prev r = card ?D \<and> r_dirty r = card (poly_dirty st') \<and> report_ok (to_size t) r"
    using it(1,3) ok
    by (intro exI [of _ "\<lparr>page_value = ?u, poly_dirty = ?D'\<rparr>"] exI [of _ ?r]) (simp add: lfu_ok_def)
qed

lemma poly_init_inv: "small_log d \<Longrightarrow> lfu_ok order t \<Longrightarrow> poly_full_inv order d t 1 poly_init"
  by (simp add: poly_inv_def poly_init_def use_count_def)

section \<open>Parsing\<close>

definition log_wf :: "dirty_log \<Rightarrow> bool" where
  "log_wf d \<longleftrightarrow> log_n d < MAX_ITER \<and> small_log d \<and> (log_n d = 0 \<longleftrightarrow> log_m d = 0) \<and>
     list_all (\<lambda>r. length r = log_m d \<and> list_all (\<lambda>x. x = 0 \<or> x = 1) r) (log_rows d)"

lemma binary_cells: "binary_pattern l \<Longrightarrow> list_all (\<lambda>x. x = 0 \<or> x = (1::int)) (map (\<lambda>c. of_char c - 48) l)"
  by (fastforce simp: binary_pattern_def list_all_iff)

lemma parse_line_wf:
  assumes "parse_line d l = Inr d'" and "log_wf d"
  shows "log_wf d'"
proof (cases "binary_pattern (chop l)")
  case True
  then have "chop l \<noteq> []" by (simp add: binary_pattern_def)
  with assms True binary_cells [OF True] show ?thesis
    by (simp add: parse_line_def log_wf_def small_log_def Let_def split: if_splits) auto
next
  case False
  with assms show ?thesis by (simp add: parse_line_def Let_def)
qed

lemma parse_lines_wf: "parse_lines d ls = Inr d' \<Longrightarrow> log_wf d \<Longrightarrow> log_wf d'"
  by (induction d ls rule: parse_lines.induct) (auto simp: c_bind_Inr_iff dest: parse_line_wf)

lemma parse_input_log_wf: "parse_input f = Inr d \<Longrightarrow> log_wf d"
proof -
  assume "parse_input f = Inr d"
  moreover have "log_wf \<lparr>log_m = 0, log_rows = []\<rparr>" by (simp add: log_wf_def small_log_def MAX_ITER_def)
  ultimately show ?thesis by (auto simp: parse_input_def split: option.splits intro: parse_lines_wf)
qed

lemma log_wf_small: "log_wf d \<Longrightarrow> small_log d"
  by (simp add: log_wf_def)

section \<open>Which page goes\<close>

text \<open>In a list sorted so that \<open>f\<close> never increases, what is dropped has no smaller \<open>f\<close> than what is kept.\<close>

lemma sorted_wrt_take_drop:
  "sorted_wrt R l \<Longrightarrow> p \<in> set (take k l) \<Longrightarrow> q \<in> set (drop k l) \<Longrightarrow> R p q"
  by (metis append_take_drop_id sorted_wrt_append)

lemma lru_iter_recency:
  assumes inv: "lru_full_inv d i st" and it: "lru_iter d t i st = Inr (st', r)"
    and q: "q \<in> lru_dirty st'" and p: "p \<in> lru_dirty st \<union> set (dirtied d i) - lru_dirty st'"
  shows "last_use d i p \<le> last_use d i q"
proof -
  let ?st1 = "fold lru_touch (dirtied d i) st"
  have 1: "lru_inv d ?st1" "lru_dirty ?st1 = lru_dirty st \<union> set (dirtied d i)"
    using fold_lru_touch [OF _ dirtied_small] inv by auto
  have "by_recency d i (lru_list ?st1)" using fold_lru_touch_recency inv by auto
  moreover have st': "lru_dirty st' = set (take (to_size t) (lru_list ?st1))"
    using it inv by (auto simp: lru_iter_eq Let_def)
  moreover have "set (lru_list ?st1) = lru_dirty ?st1" using 1(1) by (simp add: lru_inv_def)
  then have "p \<in> set (drop (to_size t) (lru_list ?st1))"
    using p st' 1(2) by (metis DiffE Un_iff append_take_drop_id set_append)
  ultimately show ?thesis using q sorted_wrt_take_drop by (metis (mono_tags, lifting) by_recency_def)
qed

lemma min_iter_farthest:
  assumes inv: "min_inv d i st" and it: "min_iter d t i st = Inr (st', r)"
    and q: "q \<in> min_dirty st'" and p: "p \<in> min_dirty st \<union> set (dirtied d i) - min_dirty st'"
  shows "next_at (future d i) q \<le> next_at (future d i) p"
proof -
  let ?D = "min_dirty st \<union> set (dirtied d i)"
  have D: "?D \<subseteq> {..<log_m d}" using inv by (auto simp: min_inv_def dirtied_set)
  from min_iter_eq [OF inv, of t] it obtain u k where u: "\<forall>p < log_m d. u p = future d i p"
    and st': "min_dirty st' = set (drop k (min_vector (log_m d) u ?D))" "min_dirty st' \<subseteq> ?D"
    by (auto simp: Let_def)
  let ?v = "min_vector (log_m d) u ?D"
  have "set ?v = ?D" using min_vector_props [OF D] by simp
  then have pt: "p \<in> set (take k ?v)" using p st'(1) by (metis DiffE Un_iff append_take_drop_id set_append)
  have "sorted (map (\<lambda>p. - next_at u p) ?v)" by (simp add: min_vector_def)
  then have "sorted_wrt (\<lambda>x y. next_at u y \<le> next_at u x) ?v" by (simp add: sorted_map)
  from sorted_wrt_take_drop [OF this pt] have "next_at u q \<le> next_at u p" using q st'(1) by simp
  moreover have "q < log_m d" "p < log_m d" using q p st'(2) D by auto
  then have "next_at u q = next_at (future d i) q" "next_at u p = next_at (future d i) p"
    using u by (simp_all add: next_at_def)
  ultimately show ?thesis by simp
qed

lemma poly_iter_least_used:
  assumes "poly_full_inv order d t i st" and it: "poly_iter order d t i st = Inr (st', r)"
    and q: "q \<in> poly_dirty st'" and p: "p \<in> poly_dirty st \<union> set (dirtied d i) - poly_dirty st'"
  shows "use_count d i p \<le> use_count d i q"
proof -
  let ?D = "poly_dirty st \<union> set (dirtied d i)" and ?k = "card (poly_dirty st \<union> set (dirtied d i)) - nat t"
  let ?u = "\<lambda>p. page_value st p + (if p < log_m d then cell d i p else 0)"
  have inv: "poly_inv d i st" and ok: "sorts_by_value order" "0 \<le> t" "t < 2 ^ 31"
    using assms(1) by (auto simp: lfu_ok_def)
  have D: "?D \<subseteq> {..<log_m d}" using inv by (auto simp: poly_inv_def dirtied_set)
  then have "finite ?D" by (rule finite_subset) simp
  with ok(1) have v: "set (order ?u ?D) = ?D" "sorted_wrt (\<lambda>x y. \<not> compare_func ?u y x) (order ?u ?D)"
    unfolding sorts_by_value_def by blast+
  have st': "poly_dirty st' = set (drop ?k (order ?u ?D))" "poly_dirty st' \<subseteq> ?D"
    using it poly_iter_eq(1,3) [OF inv ok] by auto
  then have "p \<in> set (take ?k (order ?u ?D))"
    using p v(1) by (metis DiffE Un_iff append_take_drop_id set_append)
  moreover have "q \<in> set (drop ?k (order ?u ?D))" using q st'(1) by simp
  ultimately have "\<not> compare_func ?u q p" by (rule sorted_wrt_take_drop [OF v(2)])
  then have "?u p \<le> ?u q" by (simp only: compare_func_def not_less)
  moreover have "p < log_m d" "q < log_m d" using q p st'(2) D by auto
  moreover have "?u x = use_count d i x" if "x < log_m d" for x
    using that inv use_count_step [of d i x] by (simp add: poly_inv_def)
  ultimately show ?thesis by simp
qed

section \<open>Properties\<close>

lemma policy_runs:
  assumes "log_wf d" and "lfu_ok order t"
  shows "\<exists>st rs. lru_policy d t = Inr (st, rs) \<and> map r_iter rs = [1..<Suc (log_n d)] \<and> list_all (report_ok (nat t)) rs"
    and "\<exists>st rs. min_policy d t = Inr (st, rs) \<and> map r_iter rs = [1..<Suc (log_n d)] \<and> list_all (report_ok (nat t)) rs"
    and "\<exists>st rs. poly_policy order d t = Inr (st, rs) \<and> map r_iter rs = [1..<Suc (log_n d)] \<and>
      list_all (report_ok (nat t)) rs"
proof -
  have s: "small_log d" and t: "to_size t = nat t" using assms by (auto simp: log_wf_def lfu_ok_def to_size_pos)
  note le = le_SucI [OF le0, of "log_n d"]
  show "\<exists>st rs. lru_policy d t = Inr (st, rs) \<and> map r_iter rs = [1..<Suc (log_n d)] \<and> list_all (report_ok (nat t)) rs"
    using lru_wb.run_ok [OF lru_init_inv [OF s], of "Suc (log_n d)" t] by (auto simp: lru_policy_def t simp del: upt_Suc)
  show "\<exists>st rs. min_policy d t = Inr (st, rs) \<and> map r_iter rs = [1..<Suc (log_n d)] \<and> list_all (report_ok (nat t)) rs"
    using min_wb.run_ok [OF min_init_inv [OF s], of "Suc (log_n d)" t] by (auto simp: min_policy_def t simp del: upt_Suc)
  show "\<exists>st rs. poly_policy order d t = Inr (st, rs) \<and> map r_iter rs = [1..<Suc (log_n d)] \<and>
      list_all (report_ok (nat t)) rs"
    using poly_wb.run_ok [OF poly_init_inv [OF s assms(2)], of "Suc (log_n d)"]
    by (auto simp: poly_policy_def t simp del: upt_Suc)
qed

text \<open>
  C9.  On every dirty log the parser accepts and every nonnegative cache size, the program runs all
  three policies to the end without a failed assertion (in particular no page is ever in the LRU list
  and not dirty), prints one line per iteration, and every line shows exactly the dirty set cut down to
  the cache size and the number of pages evicted for that.
\<close>

theorem policy_main_reports:
  assumes "parse_input file = Inr d" and "sorts_by_value order" and "0 \<le> t" and "t < 2 ^ 31"
  shows "\<exists>lfu lru mn. policy_main order file t = Inr (log_n d, log_m d, lfu, lru, mn) \<and>
    (\<forall>rs \<in> {lfu, lru, mn}. map r_iter rs = [1..<Suc (log_n d)] \<and>
       list_all (\<lambda>r. r_dirty r = min (r_prev r) (nat t) \<and> r_evict r = int (r_prev r) - int (r_dirty r)) rs)"
proof -
  have wf: "log_wf d" "lfu_ok order t" using assms parse_input_log_wf by (auto simp: lfu_ok_def)
  have "list_all (report_ok b) = list_all (\<lambda>r. r_dirty r = min (r_prev r) b \<and> r_evict r = int (r_prev r) - int (r_dirty r))" for b
    by (simp add: report_ok_def [abs_def])
  with policy_runs [OF wf] show ?thesis by (auto simp: policy_main_def assms(1) simp del: upt_Suc)
qed

text \<open>A log of three rows over two pages, and an order by value that breaks ties by page.\<close>

definition ex_file :: string where
  "ex_file = ''10.'' @ [CHR 0x0A] @ ''01.'' @ [CHR 0x0A] @ ''# comment'' @ [CHR 0x0A] @ ''11.'' @ [CHR 0x0A]"

definition ex_log :: dirty_log where
  "ex_log = \<lparr>log_m = 2, log_rows = [[1, 0], [0, 1], [1, 1]]\<rparr>"

definition ex_order :: "(nat \<Rightarrow> int) \<Rightarrow> nat set \<Rightarrow> nat list" where
  "ex_order v D = sort_key v (sorted_list_of_set D)"

lemma ex_parse: "parse_input (Some ex_file) = Inr ex_log"
  by (simp add: parse_input_def ex_file_def ex_log_def getlines.simps before_newline_def parse_line_def chop_def
      binary_pattern_def MAX_ITER_def PAGE_NUM_def Let_def)

lemma ex_order_sorts: "sorts_by_value ex_order"
proof -
  have "sorted_wrt (\<lambda>x y. \<not> compare_func v y x) (sort_key v xs)" for v :: "nat \<Rightarrow> int" and xs
    using sorted_sort_key [of v xs] by (simp add: sorted_map compare_func_def not_less)
  then show ?thesis by (simp add: sorts_by_value_def ex_order_def)
qed

theorem policy_main_reports_witness:
  "\<exists>lfu lru mn. policy_main ex_order (Some ex_file) 1 = Inr (3, 2, lfu, lru, mn) \<and>
    (\<forall>rs \<in> {lfu, lru, mn}. map r_iter rs = [1, 2, 3] \<and>
       list_all (\<lambda>r. r_dirty r = min (r_prev r) 1 \<and> r_evict r = int (r_prev r) - int (r_dirty r)) rs)"
  using policy_main_reports [OF ex_parse ex_order_sorts, of 1] by (simp add: ex_log_def upt_rec numeral_nat)

lemma min_policy_schedule:
  assumes "log_wf d" and sch: "schedule d (to_size t) S"
  shows "\<exists>st rs. min_policy d t = Inr (st, rs) \<and>
    sum_list (map r_evict rs) \<le> sum_list (map (written d S) [1..<Suc (log_n d)])"
proof -
  have n: "log_n d < 1000000" and s: "small_log d" using assms(1) by (auto simp: log_wf_def MAX_ITER_def)
  obtain st rs where run: "min_policy d t = Inr (st, rs)"
    using min_wb.run_ok [OF min_init_inv [OF s], of "Suc (log_n d)" t] by (auto simp: min_policy_def simp del: upt_Suc)
  have "S 0 = {}" using sch by (simp add: schedule_def)
  then have "0 + sum_list (map r_evict rs) \<le> 0 + sum_list (map (written d S) [Suc 0..<Suc (log_n d)])"
    by (intro min_run_far [where st = "min_init d" and i = 0 and d = d and t = t and st' = st])
      (use min_init_inv [OF s] n sch run in \<open>auto simp: min_policy_def min_init_def far_def simp del: upt_Suc\<close>)
  with run show ?thesis by (simp del: upt_Suc)
qed

text \<open>The dirty sets of a run of another policy are such a schedule.\<close>

lemma sets_schedule:
  assumes "S 1 = {}" and "\<forall>k \<in> {1..<Suc (log_n d)}. S (Suc k) \<subseteq> S k \<union> set (dirtied d k) \<and> card (S (Suc k)) \<le> bound"
  shows "schedule d bound (\<lambda>i. S (Suc i))"
    and "map (\<lambda>k. int (card (S k \<union> set (dirtied d k))) - int (card (S (Suc k)))) [1..<Suc (log_n d)] =
      map (written d (\<lambda>i. S (Suc i))) [1..<Suc (log_n d)]"
  using assms by (auto simp: schedule_def written_def simp del: upt_Suc)

text \<open>
  C10.  MIN is optimal: over the whole log it writes back no more pages than any schedule of dirty sets
  that keeps within the cache size, whatever that schedule knows of the future.
\<close>

theorem min_policy_optimal:
  assumes "parse_input file = Inr d" and "0 \<le> t" and "t < 2 ^ 31"
    and "S 0 = {}"
    and "\<And>i. i < log_n d \<Longrightarrow> S (Suc i) \<subseteq> S i \<union> set (dirtied d (Suc i)) \<and> card (S (Suc i)) \<le> nat t"
  shows "\<exists>st rs. min_policy d t = Inr (st, rs) \<and>
    sum_list (map r_evict rs) \<le>
      (\<Sum>i \<leftarrow> [1..<Suc (log_n d)]. int (card (S (i - 1) \<union> set (dirtied d i))) - int (card (S i)))"
proof -
  have wf: "log_wf d" using assms(1) parse_input_log_wf by simp
  have sch: "schedule d (to_size t) S" using assms(2-5) by (simp add: schedule_def to_size_pos)
  from min_policy_schedule [OF wf sch] show ?thesis by (simp add: written_def [abs_def] del: upt_Suc)
qed

theorem min_policy_optimal_witness:
  "\<exists>st rs. min_policy ex_log 1 = Inr (st, rs) \<and>
    sum_list (map r_evict rs) \<le>
      (\<Sum>i \<leftarrow> [1..<Suc (log_n ex_log)]. int (card ({} \<union> set (dirtied ex_log i))) - int (card ({} :: nat set)))"
  using min_policy_optimal [OF ex_parse, of 1 "\<lambda>_. {}"] by (simp del: upt_Suc)

text \<open>
  C11.  In particular the report of MIN never counts more evictions than the reports of LRU and LFU on
  the same log and cache size.
\<close>

theorem min_policy_fewest_evictions:
  assumes "parse_input file = Inr d" and "sorts_by_value order" and "0 \<le> t" and "t < 2 ^ 31"
  shows "\<exists>lfu lru mn. policy_main order file t = Inr (log_n d, log_m d, lfu, lru, mn) \<and>
    sum_list (map r_evict mn) \<le> sum_list (map r_evict lru) \<and> sum_list (map r_evict mn) \<le> sum_list (map r_evict lfu)"
proof -
  have wf: "log_wf d" "lfu_ok order t" using assms parse_input_log_wf by (auto simp: lfu_ok_def)
  have s: "small_log d" using wf by (simp add: log_wf_def)
  from policy_runs [OF wf] obtain l1 lru m1 mn p1 lfu where
    run: "lru_policy d t = Inr (l1, lru)" "min_policy d t = Inr (m1, mn)" "poly_policy order d t = Inr (p1, lfu)" by blast
  from lru_wb.run_sets [OF lru_init_inv [OF s] _ run(1) [unfolded lru_policy_def]] obtain S where
    S: "S 1 = {}" "\<forall>k \<in> {1..<Suc (log_n d)}. S (Suc k) \<subseteq> S k \<union> set (dirtied d k) \<and> card (S (Suc k)) \<le> to_size t"
      "map r_evict lru = map (\<lambda>k. int (card (S k \<union> set (dirtied d k))) - int (card (S (Suc k)))) [1..<Suc (log_n d)]"
    by (auto simp: lru_init_def simp del: upt_Suc)
  from poly_wb.run_sets [OF poly_init_inv [OF s wf(2)] _ run(3) [unfolded poly_policy_def]] obtain T where
    T: "T 1 = {}" "\<forall>k \<in> {1..<Suc (log_n d)}. T (Suc k) \<subseteq> T k \<union> set (dirtied d k) \<and> card (T (Suc k)) \<le> to_size t"
      "map r_evict lfu = map (\<lambda>k. int (card (T k \<union> set (dirtied d k))) - int (card (T (Suc k)))) [1..<Suc (log_n d)]"
    by (auto simp: poly_init_def simp del: upt_Suc)
  have "sum_list (map r_evict mn) \<le> sum_list (map r_evict lru)"
    using min_policy_schedule [OF wf(1) sets_schedule(1) [OF S(1,2)]] run(2)
      trans [OF S(3) sets_schedule(2) [OF S(1,2)]]
    by (simp del: upt_Suc)
  moreover have "sum_list (map r_evict mn) \<le> sum_list (map r_evict lfu)"
    using min_policy_schedule [OF wf(1) sets_schedule(1) [OF T(1,2)]] run(2)
      trans [OF T(3) sets_schedule(2) [OF T(1,2)]]
    by (simp del: upt_Suc)
  ultimately show ?thesis using run by (simp add: policy_main_def assms(1))
qed

theorem min_policy_fewest_evictions_witness:
  "\<exists>lfu lru mn. policy_main ex_order (Some ex_file) 1 = Inr (3, 2, lfu, lru, mn) \<and>
    sum_list (map r_evict mn) \<le> sum_list (map r_evict lru) \<and> sum_list (map r_evict mn) \<le> sum_list (map r_evict lfu)"
  using min_policy_fewest_evictions [OF ex_parse ex_order_sorts, of 1] by (simp add: ex_log_def eval_nat_numeral)

text \<open>
  C12.  At every iteration of LRU a page is evicted only if every page kept was dirtied at least as
  recently.
\<close>

theorem lru_victims:
  assumes "parse_input file = Inr d" and "1 \<le> i"
    and "run_policy (lru_iter d t) [1..<i] lru_init = Inr (st, rs)" and "lru_iter d t i st = Inr (st', r)"
    and "p \<in> lru_dirty st \<union> set (dirtied d i) - lru_dirty st'" and "q \<in> lru_dirty st'"
  shows "last_use d i p \<le> last_use d i q"
proof -
  have "small_log d" using assms(1) parse_input_log_wf by (simp add: log_wf_def)
  from lru_wb.run_invar [OF lru_init_inv [OF this] assms(2,3)]
  show ?thesis by (rule lru_iter_recency [OF _ assms(4,6,5)])
qed

theorem lru_victims_witness:
  "lru_iter ex_log 1 2 \<lparr>lru_list = [0], page_map = {0}, lru_dirty = {0}\<rparr> =
     Inr (\<lparr>lru_list = [1], page_map = {1}, lru_dirty = {1}\<rparr>, \<lparr>r_iter = 2, r_dirty = 1, r_evict = 1, r_prev = 2\<rparr>) \<and>
   last_use ex_log 2 0 \<le> last_use ex_log 2 1"
proof
  have d: "dirtied ex_log 1 = [0]" "dirtied ex_log 2 = [1]" by (simp_all add: dirtied_def ex_log_def cell_def upt_rec)
  have 1: "run_policy (lru_iter ex_log 1) [1..<2] lru_init =
      Inr (\<lparr>lru_list = [0], page_map = {0}, lru_dirty = {0}\<rparr>, [\<lparr>r_iter = 1, r_dirty = 1, r_evict = 0, r_prev = 1\<rparr>])"
    by (simp add: upt_rec lru_iter_def lru_init_def lru_touch_def d [unfolded One_nat_def] lru_evict.simps dsize_def to_size_def)
  show 2: "lru_iter ex_log 1 2 \<lparr>lru_list = [0], page_map = {0}, lru_dirty = {0}\<rparr> =
     Inr (\<lparr>lru_list = [1], page_map = {1}, lru_dirty = {1}\<rparr>, \<lparr>r_iter = 2, r_dirty = 1, r_evict = 1, r_prev = 2\<rparr>)"
    by (simp add: lru_iter_def lru_touch_def d lru_evict.simps dsize_def to_size_def insert_Diff_if)
  show "last_use ex_log 2 0 \<le> last_use ex_log 2 1"
    by (rule lru_victims [OF ex_parse _ 1 2]) (simp_all add: d)
qed

text \<open>
  C13.  At every iteration of LFU a page is evicted only if every page kept was dirtied at least as often.
\<close>

theorem lfu_victims:
  assumes "parse_input file = Inr d" and "sorts_by_value order" and "0 \<le> t" and "t < 2 ^ 31" and "1 \<le> i"
    and "run_policy (poly_iter order d t) [1..<i] poly_init = Inr (st, rs)" and "poly_iter order d t i st = Inr (st', r)"
    and "p \<in> poly_dirty st \<union> set (dirtied d i) - poly_dirty st'" and "q \<in> poly_dirty st'"
  shows "use_count d i p \<le> use_count d i q"
proof -
  have "small_log d" and "lfu_ok order t" using assms(1-4) parse_input_log_wf by (auto simp: log_wf_def lfu_ok_def)
  from poly_wb.run_invar [OF poly_init_inv [OF this] assms(5,6)]
  show ?thesis by (rule poly_iter_least_used [OF _ assms(7,9,8)])
qed

theorem lfu_victims_witness:
  "poly_iter ex_order ex_log 1 2 \<lparr>page_value = (\<lambda>_. 0)(0 := 1, 1 := 0), poly_dirty = {0}\<rparr> =
     Inr (\<lparr>page_value = (\<lambda>_. 0)(0 := 1, 1 := 1), poly_dirty = {1}\<rparr>, \<lparr>r_iter = 2, r_dirty = 1, r_evict = 1, r_prev = 2\<rparr>) \<and>
   use_count ex_log 2 0 \<le> use_count ex_log 2 1"
proof
  have c: "cell ex_log 1 0 = 1" "cell ex_log 1 1 = 0" "cell ex_log 2 0 = 0" "cell ex_log 2 1 = 1"
    by (simp_all add: cell_def ex_log_def)
  have m: "[0..<log_m ex_log] = [0, 1]" by (simp add: ex_log_def upt_rec)
  have touch1: "fold (poly_touch ex_log 1) [0..<log_m ex_log] poly_init =
      \<lparr>page_value = (\<lambda>_. 0)(0 := 1, 1 := 0), poly_dirty = {0}\<rparr>"
    by (simp add: m poly_touch_def c c [unfolded One_nat_def] exponential_def poly_init_def)
  have touch2: "fold (poly_touch ex_log 2) [0..<log_m ex_log] \<lparr>page_value = (\<lambda>_. 0)(0 := 1, 1 := 0), poly_dirty = {0}\<rparr> =
      \<lparr>page_value = (\<lambda>_. 0)(0 := 1, 1 := 1), poly_dirty = {0, 1}\<rparr>"
    by (auto simp: m poly_touch_def c c [unfolded One_nat_def] exponential_def fun_eq_iff)
  have order: "ex_order v {0} = [0]" "ex_order ((\<lambda>_. 0)(0 := 1, 1 := 1)) {0, 1} = [0, 1]" for v
    by (simp_all add: ex_order_def)
  have num: "evict_num 1 1 = 0" "evict_num 2 1 = 1" "dsize {0} = 1" "dsize {1} = 1" "dsize {0, 1} = 2"
    by (simp_all add: evict_num_def dsize_def)
  have evict: "poly_evict (nat 1) [0, 1] {0, 1} = Inr {1}" by (simp add: eval_nat_numeral insert_Diff_if)
  have "poly_iter ex_order ex_log 1 1 poly_init =
      Inr (\<lparr>page_value = (\<lambda>_. 0)(0 := 1, 1 := 0), poly_dirty = {0}\<rparr>, \<lparr>r_iter = 1, r_dirty = 1, r_evict = 0, r_prev = 1\<rparr>)"
    unfolding poly_iter_def touch1 Let_def by (simp add: order num del: One_nat_def)
  then have 1: "run_policy (poly_iter ex_order ex_log 1) [1..<2] poly_init =
      Inr (\<lparr>page_value = (\<lambda>_. 0)(0 := 1, 1 := 0), poly_dirty = {0}\<rparr>, [\<lparr>r_iter = 1, r_dirty = 1, r_evict = 0, r_prev = 1\<rparr>])"
    by (simp add: upt_rec)
  show 2: "poly_iter ex_order ex_log 1 2 \<lparr>page_value = (\<lambda>_. 0)(0 := 1, 1 := 0), poly_dirty = {0}\<rparr> =
     Inr (\<lparr>page_value = (\<lambda>_. 0)(0 := 1, 1 := 1), poly_dirty = {1}\<rparr>, \<lparr>r_iter = 2, r_dirty = 1, r_evict = 1, r_prev = 2\<rparr>)"
    unfolding poly_iter_def touch2 Let_def by (simp only: order num evict poly.simps c_bind_simps)
  show "use_count ex_log 2 0 \<le> use_count ex_log 2 1"
    by (rule lfu_victims [OF ex_parse ex_order_sorts _ _ _ 1 2]) (simp_all add: dirtied_def m c)
qed

subsection \<open>The format of a dirty log\<close>

text \<open>A log as the parser expects it: one line per row, its bits followed by one more character.\<close>

definition print_row :: "char \<Rightarrow> int list \<Rightarrow> string" where
  "print_row c r = map (\<lambda>x. if x = 1 then CHR ''1'' else CHR ''0'') r @ [c]"

definition print_log :: "char \<Rightarrow> int list list \<Rightarrow> string" where
  "print_log c rows = concat (map (\<lambda>r. print_row c r @ [CHR 0x0A]) rows)"

definition rows_wf :: "nat \<Rightarrow> int list list \<Rightarrow> bool" where
  "rows_wf m rows \<longleftrightarrow> list_all (\<lambda>r. length r = m \<and> list_all (\<lambda>x. x = 0 \<or> x = 1) r) rows"

lemma getlines_line: "CHR 0x0A \<notin> set l \<Longrightarrow> getlines (l @ CHR 0x0A # s) = l # getlines s"
  by (subst getlines.simps) (simp add: before_newline_line)

lemma getlines_print_log: "c \<noteq> CHR 0x0A \<Longrightarrow> getlines (print_log c rows) = map (print_row c) rows"
proof (induction rows)
  case (Cons r rows)
  then have "CHR 0x0A \<notin> set (print_row c r)" by (auto simp: print_row_def)
  with Cons show ?case by (simp add: print_log_def getlines_line)
qed (simp add: print_log_def getlines.simps)

lemma parse_line_row:
  assumes "length r = m" and "list_all (\<lambda>x. x = 0 \<or> x = 1) r" and "0 < m" and "m \<le> PAGE_NUM" and "log_m d \<in> {0, m}"
  shows "parse_line d (print_row c r) =
    (if MAX_ITER \<le> Suc (log_n d) then Inl OutOfBounds else Inr \<lparr>log_m = m, log_rows = log_rows d @ [r]\<rparr>)"
proof -
  have "map ((\<lambda>c. of_char c - 48) \<circ> (\<lambda>x. if x = 1 then CHR ''1'' else CHR ''0'')) r = r"
    using assms(2) by (intro map_idI) (auto simp: list_all_iff)
  moreover have "binary_pattern (map (\<lambda>x. if x = 1 then CHR ''1'' else CHR ''0'') r)"
    using assms(1,3) by (auto simp: binary_pattern_def list_all_iff)
  ultimately show ?thesis using assms by (auto simp: parse_line_def chop_def print_row_def Let_def)
qed

lemma parse_lines_rows:
  assumes "rows_wf m rows" and "0 < m" and "m \<le> PAGE_NUM" and "log_m d \<in> {0, m}" and "rows \<noteq> []"
    and "log_n d < MAX_ITER"
  shows "parse_lines d (map (print_row c) rows) =
    (if MAX_ITER \<le> log_n d + length rows then Inl OutOfBounds else Inr \<lparr>log_m = m, log_rows = log_rows d @ rows\<rparr>)"
  using assms
proof (induction rows arbitrary: d)
  case (Cons r rows)
  then have r: "parse_line d (print_row c r) =
    (if MAX_ITER \<le> Suc (log_n d) then Inl OutOfBounds else Inr \<lparr>log_m = m, log_rows = log_rows d @ [r]\<rparr>)"
    by (intro parse_line_row) (auto simp: rows_wf_def)
  show ?case
  proof (cases "rows = [] \<or> MAX_ITER \<le> Suc (log_n d)")
    case False
    then have "parse_lines \<lparr>log_m = m, log_rows = log_rows d @ [r]\<rparr> (map (print_row c) rows) =
      (if MAX_ITER \<le> Suc (log_n d) + length rows then Inl OutOfBounds
       else Inr \<lparr>log_m = m, log_rows = (log_rows d @ [r]) @ rows\<rparr>)"
      using Cons.prems Cons.IH [of "\<lparr>log_m = m, log_rows = log_rows d @ [r]\<rparr>"] by (simp add: rows_wf_def)
    with False r show ?thesis by simp
  qed (use r in auto)
qed simp

text \<open>
  C14.  The parser reads a log back exactly: rows of equal length written as bits, one trailing
  character and a newline each, give the matrix with those rows as long as there are fewer than 1000;
  from 1000 rows on it writes past the end of its array.
\<close>

theorem parse_input_print_log:
  assumes "rows_wf m rows" and "0 < m" and "m \<le> PAGE_NUM" and "rows \<noteq> []" and "c \<noteq> CHR 0x0A"
  shows "parse_input (Some (print_log c rows)) =
    (if length rows < 1000 then Inr \<lparr>log_m = m, log_rows = rows\<rparr> else Inl OutOfBounds)"
  using parse_lines_rows [OF assms(1-3), of "\<lparr>log_m = 0, log_rows = []\<rparr>" c] assms(4,5)
  by (simp add: parse_input_def getlines_print_log MAX_ITER_def)

theorem parse_input_print_log_witness:
  "parse_input (Some (print_log CHR ''.'' [[1, 0], [0, 1]])) = Inr \<lparr>log_m = 2, log_rows = [[1, 0], [0, 1]]\<rparr> \<and>
   parse_input (Some (print_log CHR ''.'' (replicate 1000 [1]))) = Inl OutOfBounds"
  using parse_input_print_log [of 2 "[[1, 0], [0, 1]]" "CHR ''.''"]
    parse_input_print_log [of 1 "replicate 1000 [1]" "CHR ''.''"]
  by (simp add: rows_wf_def PAGE_NUM_def list_all_iff)





end
