(* ===== verification/Random_Write.thy ===== *)
theory Random_Write
  imports Prelude
begin

text \<open>
  The random-write workload, \<^verbatim>\<open>apps/random-write\<close>: the command lines of \<^verbatim>\<open>mem_access.c\<close> and
  \<^verbatim>\<open>alloc.c\<close>, the pages \<^verbatim>\<open>alloc.c\<close> touches, and the writer threads of \<^verbatim>\<open>mem_access.c\<close> as a
  step relation.  The threads share the mapping without a lock, and \<^verbatim>\<open>memory[off] ^= 1\<close> is a load and a
  store that other threads can come between.  The kernel's answers (mappings, thread creation, affinity) and the values of
  \<^verbatim>\<open>rand\<close> are parameters.
\<close>

unbundle bit_operations_syntax

section \<open>Command lines\<close>

definition GB :: nat where "GB = 1024 * 1024 * 1024"

text \<open>
  A C conversion of an \<^verbatim>\<open>int\<close> to \<^verbatim>\<open>size_t\<close>.  Numbers on the command line are taken to be in the range of
  \<^verbatim>\<open>int\<close>, outside which the result of \<^verbatim>\<open>atoi\<close> is not defined.
\<close>

definition to_size_t :: "int \<Rightarrow> nat" where
  "to_size_t i = nat (i mod 2 ^ 64)"

record mem_access_args =
  memory :: "byte list"
  arg_size :: nat
  non_hot_freq :: nat
  interval_secs :: nat

text \<open>
  The two ways to get memory: \<open>anon n\<close> is the result of the anonymous mapping of \<open>n\<close> bytes and
  \<open>dax n\<close> that of opening and mapping the CXL device, each \<open>None\<close> when the kernel refuses.
\<close>

definition mmap_normal :: "(nat \<Rightarrow> byte list option) \<Rightarrow> nat \<Rightarrow> byte list c_result" where
  "mmap_normal anon n = (case anon n of None \<Rightarrow> Inl (Exit 1) | Some m \<Rightarrow> Inr m)"

definition mmap_cxl :: "bool \<Rightarrow> (nat \<Rightarrow> byte list option) \<Rightarrow> nat \<Rightarrow> byte list c_result" where
  "mmap_cxl dev_opens dax n =
     (if \<not> dev_opens then Inl (Exit 1) else case dax n of None \<Rightarrow> Inl (Exit 1) | Some m \<Rightarrow> Inr m)"

text \<open>The loop that starts the threads: creation is asserted, a refused affinity ends the program.\<close>

fun start_threads :: "(nat \<Rightarrow> bool) \<Rightarrow> (nat \<Rightarrow> bool) \<Rightarrow> nat \<Rightarrow> nat \<Rightarrow> unit c_result" where
  "start_threads created pinned i 0 = Inr ()"
| "start_threads created pinned i (Suc n) =
     (if \<not> created i then Inl AssertFail
      else if \<not> pinned (16 + i) then Inl (Exit (- 1))
      else start_threads created pinned (i + 1) n)"

definition mem_access_main ::
  "(nat \<Rightarrow> byte list option) \<Rightarrow> bool \<Rightarrow> (nat \<Rightarrow> byte list option) \<Rightarrow> (nat \<Rightarrow> bool) \<Rightarrow> (nat \<Rightarrow> bool) \<Rightarrow> string list
   \<Rightarrow> (mem_access_args \<times> nat) c_result" where
  "mem_access_main anon dev_opens dax created pinned argv =
     (if length argv \<noteq> 6 then Inl (Exit 1)
      else let N = to_size_t (atoi (argv ! 1)); K = to_size_t (atoi (argv ! 2)); S = to_size_t (atoi (argv ! 3));
               NT = to_size_t (atoi (argv ! 4)); only_use_cxl = atoi (argv ! 5); bytes = (N * GB) mod 2 ^ 64
           in if N = 0 \<or> S = 0 \<or> NT = 0 then Inl (Exit 1)
              else c_bind (if only_use_cxl \<noteq> 0 then mmap_cxl dev_opens dax bytes else mmap_normal anon bytes) (\<lambda>m.
                   c_bind (start_threads created pinned 0 NT) (\<lambda>_.
                     Inr (\<lparr>memory = m, arg_size = bytes, non_hot_freq = K, interval_secs = S\<rparr>, NT))))"

text \<open>\<^verbatim>\<open>alloc.c\<close>: one byte per page is set.\<close>

function touch_pages :: "nat \<Rightarrow> nat \<Rightarrow> nat \<Rightarrow> byte list \<Rightarrow> byte list c_result" where
  "touch_pages pagesize siz i buffer =
     (if 0 < pagesize \<and> i < siz
      then if i < length buffer then touch_pages pagesize siz (i + pagesize) (buffer[i := 1]) else Inl OutOfBounds
      else Inr buffer)"
  by pat_completeness auto
termination
  by (relation "measure (\<lambda>(pagesize, siz, i, buffer). siz - i)") auto

declare touch_pages.simps [simp del]

definition alloc_main :: "(nat \<Rightarrow> byte list option) \<Rightarrow> nat \<Rightarrow> string list \<Rightarrow> byte list c_result" where
  "alloc_main malloc pagesize argv =
     (if length argv < 2 then Inl (Exit 1)
      else let siz = (to_size_t (atoi (argv ! 1)) * 2 ^ 30) mod 2 ^ 64
           in case malloc siz of None \<Rightarrow> Inl (Exit 1) | Some buffer \<Rightarrow> touch_pages pagesize siz 0 buffer)"

section \<open>Writer threads\<close>

definition RAND_MAX :: nat where "RAND_MAX = 2147483647"

definition rand_u64 :: "nat \<Rightarrow> nat \<Rightarrow> u64" where
  "rand_u64 upper lower = push_bit 32 (of_nat upper) OR of_nat lower"

definition random_offset :: "nat \<Rightarrow> nat \<Rightarrow> nat \<Rightarrow> nat" where
  "random_offset siz upper lower = unat (rand_u64 upper lower) mod siz"

text \<open>A thread is between two writes, or has loaded a byte and not yet stored it back.\<close>

datatype rw_pc = Idle | Loaded nat byte

record rw_state =
  rw_mem :: "byte list"
  rw_pcs :: "rw_pc list"

definition rw_init :: "byte list \<Rightarrow> nat \<Rightarrow> rw_state" where
  "rw_init m nt = \<lparr>rw_mem = m, rw_pcs = replicate nt Idle\<rparr>"

definition rw_load :: "nat \<Rightarrow> nat \<Rightarrow> nat \<Rightarrow> nat \<Rightarrow> rw_state \<Rightarrow> rw_state" where
  "rw_load siz t upper lower s =
     (let off = random_offset siz upper lower in s\<lparr>rw_pcs := (rw_pcs s)[t := Loaded off (rw_mem s ! off)]\<rparr>)"

definition rw_store :: "nat \<Rightarrow> nat \<Rightarrow> byte \<Rightarrow> rw_state \<Rightarrow> rw_state" where
  "rw_store t off v s = s\<lparr>rw_mem := (rw_mem s)[off := v XOR 1], rw_pcs := (rw_pcs s)[t := Idle]\<rparr>"

inductive rw_step :: "nat \<Rightarrow> rw_state \<Rightarrow> rw_state \<Rightarrow> bool" for siz :: nat where
  load: "t < length (rw_pcs s) \<Longrightarrow> rw_pcs s ! t = Idle \<Longrightarrow> upper \<le> RAND_MAX \<Longrightarrow> lower \<le> RAND_MAX \<Longrightarrow>
    rw_step siz s (rw_load siz t upper lower s)"
| store: "t < length (rw_pcs s) \<Longrightarrow> rw_pcs s ! t = Loaded off v \<Longrightarrow> rw_step siz s (rw_store t off v s)"

inductive rw_reach :: "nat \<Rightarrow> rw_state \<Rightarrow> rw_state \<Rightarrow> bool" for siz :: nat and s0 :: rw_state where
  start: "rw_reach siz s0 s0"
| step: "rw_reach siz s0 s \<Longrightarrow> rw_step siz s s' \<Longrightarrow> rw_reach siz s0 s'"

section \<open>Invariant\<close>

definition may_hit :: "nat \<Rightarrow> nat \<Rightarrow> bool" where
  "may_hit siz off \<longleftrightarrow> (\<exists>upper \<le> RAND_MAX. \<exists>lower \<le> RAND_MAX. off = random_offset siz upper lower)"

definition flipped :: "byte \<Rightarrow> byte \<Rightarrow> bool" where
  "flipped a b \<longleftrightarrow> b = a \<or> b = a XOR 1"

definition pc_ok :: "nat \<Rightarrow> byte list \<Rightarrow> rw_pc \<Rightarrow> bool" where
  "pc_ok siz m0 pc \<longleftrightarrow> (case pc of Idle \<Rightarrow> True | Loaded off v \<Rightarrow> off < length m0 \<and> may_hit siz off \<and> flipped (m0 ! off) v)"

definition rw_inv :: "nat \<Rightarrow> byte list \<Rightarrow> rw_state \<Rightarrow> bool" where
  "rw_inv siz m0 s \<longleftrightarrow> length (rw_mem s) = length m0 \<and>
     (\<forall>i < length m0. flipped (m0 ! i) (rw_mem s ! i) \<and> (\<not> may_hit siz i \<longrightarrow> rw_mem s ! i = m0 ! i)) \<and>
     (\<forall>pc \<in> set (rw_pcs s). pc_ok siz m0 pc)"

lemma flipped_again: "flipped a b \<Longrightarrow> flipped a (b XOR 1)"
  by (auto simp: flipped_def xor.assoc)

lemma pc_ok_simps [simp]:
  "pc_ok siz m0 Idle" "pc_ok siz m0 (Loaded off v) \<longleftrightarrow> off < length m0 \<and> may_hit siz off \<and> flipped (m0 ! off) v"
  by (simp_all add: pc_ok_def)

lemma all_pcs_update: "\<forall>pc \<in> set pcs. P pc \<Longrightarrow> P x \<Longrightarrow> \<forall>pc \<in> set (pcs[t := x]). P pc"
  using set_update_subset_insert [of pcs t x] by auto

lemma rw_step_inv:
  assumes "rw_step siz s s'" and inv: "rw_inv siz m0 s" and "0 < siz" and len: "length m0 = siz"
  shows "rw_inv siz m0 s'"
  using assms(1)
proof cases
  case (load t upper lower)
  let ?off = "random_offset siz upper lower"
  have "?off < length m0" using assms(3) len by (simp add: random_offset_def)
  moreover have "may_hit siz ?off" using load by (auto simp: may_hit_def)
  ultimately have "pc_ok siz m0 (Loaded ?off (rw_mem s ! ?off))" using inv by (auto simp: rw_inv_def)
  then have "\<forall>pc \<in> set ((rw_pcs s)[t := Loaded ?off (rw_mem s ! ?off)]). pc_ok siz m0 pc"
    using inv by (intro all_pcs_update) (auto simp: rw_inv_def)
  then show ?thesis using inv load(1) by (simp add: rw_inv_def rw_load_def Let_def)
next
  case (store t off v)
  have "pc_ok siz m0 (Loaded off v)" using inv store(2,3) nth_mem [of t "rw_pcs s"] by (auto simp: rw_inv_def)
  moreover have "\<forall>pc \<in> set ((rw_pcs s)[t := Idle]). pc_ok siz m0 pc"
    using inv all_pcs_update [of "rw_pcs s" "pc_ok siz m0" Idle] by (simp add: rw_inv_def)
  ultimately show ?thesis using inv store(1) by (simp add: rw_inv_def rw_store_def nth_list_update flipped_again)
qed

lemma rw_reach_inv:
  assumes "rw_reach siz (rw_init m0 nt) s" and "0 < siz" and "length m0 = siz"
  shows "rw_inv siz m0 s"
  using assms(1)
proof induction
  case start
  then show ?case by (auto simp: rw_inv_def rw_init_def flipped_def)
qed (use assms rw_step_inv in blast)

text \<open>\<^verbatim>\<open>rand\<close> yields 31 bits, so bit 31 of the offset is never set.\<close>

lemma rand_bit31: "lower \<le> RAND_MAX \<Longrightarrow> \<not> bit (rand_u64 upper lower) 31"
proof -
  assume "lower \<le> RAND_MAX"
  then have "lower div 2 ^ 31 = 0" by (simp add: RAND_MAX_def)
  then have "\<not> bit lower 31" unfolding bit_iff_odd by simp
  then show ?thesis by (simp add: rand_u64_def bit_or_iff bit_push_bit_iff bit_of_nat_iff)
qed

lemma may_hit_bit31:
  assumes "may_hit (2 ^ k) off" and "31 < k"
  shows "\<not> bit off 31"
proof -
  obtain upper lower where "lower \<le> RAND_MAX" and off: "off = take_bit k (unat (rand_u64 upper lower))"
    using assms(1) by (auto simp: may_hit_def random_offset_def take_bit_eq_mod)
  then show ?thesis using rand_bit31 [of lower upper] by (simp add: off bit_take_bit_iff bit_unsigned_iff)
qed

section \<open>Command lines and pages\<close>

text \<open>The word \<^verbatim>\<open>cxl\<close> of the usage message is read as the number 0 and selects the anonymous mapping.\<close>

lemma cxl_word_maps_normal:
  assumes "argv ! 5 = ''cxl''"
  shows "mem_access_main anon dev_opens dax created pinned argv = mem_access_main anon False (\<lambda>_. None) created pinned argv"
proof -
  have "atoi ''cxl'' = 0" by (simp add: atoi_def cstr_def is_space_def is_digit_def dec_val_def)
  then show ?thesis using assms by (simp add: mem_access_main_def Let_def)
qed

lemma touch_pages_ok:
  assumes "length buffer = siz" and "0 < pagesize"
  shows "\<exists>b. touch_pages pagesize siz i buffer = Inr b \<and> length b = siz \<and> (\<forall>k. i + k * pagesize < siz \<longrightarrow> b ! (i + k * pagesize) = 1) \<and>
    (\<forall>j < i. j < siz \<longrightarrow> b ! j = buffer ! j)"
  using assms
proof (induction pagesize siz i buffer rule: touch_pages.induct)
  case (1 pagesize siz i buffer)
  show ?case
  proof (cases "i < siz")
    case True
    obtain b where b: "touch_pages pagesize siz (i + pagesize) (buffer[i := 1]) = Inr b" "length b = siz"
      "\<forall>k. i + pagesize + k * pagesize < siz \<longrightarrow> b ! (i + pagesize + k * pagesize) = 1" "\<forall>j < i + pagesize. j < siz \<longrightarrow> b ! j = buffer[i := 1] ! j"
      using "1.IH" "1.prems" True by auto
    have "b ! (i + k * pagesize) = 1" if "i + k * pagesize < siz" for k
    proof (cases k)
      case 0
      then show ?thesis using b(4) True "1.prems" by simp
    next
      case (Suc k')
      then show ?thesis using b(3) [rule_format, of k'] that by (simp add: add.assoc)
    qed
    then show ?thesis using b True "1.prems" by (subst touch_pages.simps) auto
  next
    case False
    then show ?thesis using "1.prems" by (subst touch_pages.simps) auto
  qed
qed

section \<open>Properties\<close>

text \<open>
  C34. In every interleaving of the threads, all accesses are inside the mapping, its size does not change, and a byte
  differs from its first value at most in the lowest bit.  When the size is a power of two above 2 GB, no byte
  whose offset has bit 31 set is ever written: the workload reaches half of the memory only.
\<close>

theorem random_write_safe:
  assumes "rw_reach siz (rw_init m0 nt) s" and "0 < siz" and "length m0 = siz"
  shows "length (rw_mem s) = siz \<and> (\<forall>t < length (rw_pcs s). \<forall>off v. rw_pcs s ! t = Loaded off v \<longrightarrow> off < siz) \<and>
    (\<forall>i < siz. rw_mem s ! i = m0 ! i \<or> rw_mem s ! i = m0 ! i XOR 1) \<and>
    (\<forall>k i. siz = 2 ^ k \<and> 31 < k \<and> i < siz \<and> bit i 31 \<longrightarrow> rw_mem s ! i = m0 ! i)"
proof -
  have inv: "rw_inv siz m0 s" using rw_reach_inv [OF assms] .
  have "off < siz" if "t < length (rw_pcs s)" "rw_pcs s ! t = Loaded off v" for t off v
    using inv nth_mem [OF that(1)] that(2) assms(3) by (auto simp: rw_inv_def)
  then show ?thesis using inv may_hit_bit31 assms(3) by (auto simp: rw_inv_def flipped_def)
qed

theorem random_write_safe_witness:
  "rw_mem (rw_store 0 5 0 (rw_load (2 ^ 32) 0 0 5 (rw_init (replicate (2 ^ 32) 0) 2))) ! (2 ^ 31) = 0"
proof -
  define N :: nat where "N = 2 ^ 32"
  let ?m = "replicate N 0 :: byte list"
  let ?s1 = "rw_load N 0 0 5 (rw_init ?m 2)"
  let ?s2 = "rw_store 0 5 0 ?s1"
  have N: "0 < N" "5 < N" "2 ^ 31 < N" and off: "random_offset N 0 5 = 5" by (simp_all add: N_def random_offset_def rand_u64_def)
  have two: "replicate 2 Idle = [Idle, Idle]" by (simp add: numeral_2_eq_2)
  have "rw_step N (rw_init ?m 2) ?s1" by (rule rw_step.load) (simp_all add: rw_init_def RAND_MAX_def)
  moreover have "rw_step N ?s1 ?s2"
    by (rule rw_step.store) (simp_all add: rw_init_def rw_load_def off Let_def two N)
  ultimately have reach: "rw_reach N (rw_init ?m 2) ?s2" by (blast intro: rw_reach.intros)
  have "bit ((2 :: nat) ^ 31) 31" by (simp only: bit_exp_iff possible_bit_nat simp_thms)
  then have "rw_mem ?s2 ! (2 ^ 31) = ?m ! (2 ^ 31)"
    using random_write_safe [OF reach N(1) length_replicate, THEN conjunct2, THEN conjunct2, THEN conjunct2, rule_format, of 32 "2 ^ 31"]
      N(3) N_def by linarith
  also have "\<dots> = 0" by (rule nth_replicate [OF N(3)])
  finally show ?thesis by (simp only: N_def)
qed

end
