(* ===== verification/Redis_Mem.thy ===== *)
theory Redis_Mem
  imports Prelude
begin

text \<open>
  Byte memory as the Redis data structures use it: checked reads, writes and moves in a buffer,
  two's complement wrap-around, and little-endian integers of any width.  The models assume the
  little-endian hosts the repository targets, where the \<^verbatim>\<open>..ifbe\<close> macros of
  \<^verbatim>\<open>endianconv.h\<close> do nothing.
\<close>

section \<open>Buffers\<close>

definition overwrite :: "'a list \<Rightarrow> nat \<Rightarrow> 'a list \<Rightarrow> 'a list" where
  "overwrite m off bs = take off m @ bs @ drop (off + length bs) m"

definition mem_get :: "'a list \<Rightarrow> int \<Rightarrow> nat \<Rightarrow> 'a list c_result" where
  "mem_get m off n = (if 0 \<le> off \<and> off + int n \<le> int (length m) then Inr (take n (drop (nat off) m)) else Inl OutOfBounds)"

definition mem_put :: "'a list \<Rightarrow> int \<Rightarrow> 'a list \<Rightarrow> 'a list c_result" where
  "mem_put m off bs = (if 0 \<le> off \<and> off + int (length bs) \<le> int (length m) then Inr (overwrite m (nat off) bs) else Inl OutOfBounds)"

text \<open>\<^verbatim>\<open>memmove\<close> within a buffer: the source bytes are read before any is written.\<close>

definition mem_move :: "'a list \<Rightarrow> int \<Rightarrow> int \<Rightarrow> nat \<Rightarrow> 'a list c_result" where
  "mem_move m dst src n = c_bind (mem_get m src n) (mem_put m dst)"

text \<open>\<^verbatim>\<open>realloc\<close>: the common prefix is kept, bytes past it hold whatever they hold.\<close>

definition mem_realloc :: "(nat \<Rightarrow> 'a) \<Rightarrow> 'a list \<Rightarrow> nat \<Rightarrow> 'a list" where
  "mem_realloc junk m n = take n m @ map junk [length m..<n]"

lemma length_overwrite [simp]: "off + length bs \<le> length m \<Longrightarrow> length (overwrite m off bs) = length m"
  by (simp add: overwrite_def)

lemma nth_overwrite:
  "off + length bs \<le> length m \<Longrightarrow> k < length m \<Longrightarrow>
     overwrite m off bs ! k = (if off \<le> k \<and> k < off + length bs then bs ! (k - off) else m ! k)"
  by (auto simp: overwrite_def nth_append min_def)

lemma length_mem_realloc [simp]: "length (mem_realloc junk m n) = n"
  by (auto simp: mem_realloc_def)

lemma nth_mem_realloc: "k < n \<Longrightarrow> k < length m \<Longrightarrow> mem_realloc junk m n ! k = m ! k"
  by (simp add: mem_realloc_def nth_append)

section \<open>Two's complement\<close>

text \<open>The value of a signed type of \<open>n\<close> bytes that has the given residue.\<close>

definition signed_wrap :: "nat \<Rightarrow> int \<Rightarrow> int" where
  "signed_wrap n x = (x + 2 ^ (8 * n - 1)) mod 2 ^ (8 * n) - 2 ^ (8 * n - 1)"

definition fits :: "nat \<Rightarrow> int \<Rightarrow> bool" where
  "fits n x \<longleftrightarrow> - (2 ^ (8 * n - 1)) \<le> x \<and> x < 2 ^ (8 * n - 1)"

abbreviation s32 :: "int \<Rightarrow> int" where "s32 \<equiv> signed_wrap 4"
abbreviation wrap32 :: "int \<Rightarrow> int" where "wrap32 x \<equiv> x mod 2 ^ 32"

lemma two_pow_byte: "0 < n \<Longrightarrow> (2::int) ^ (8 * n) = 2 * 2 ^ (8 * n - 1)"
  by (metis Suc_diff_1 nat_0_less_mult_iff power_Suc zero_less_numeral)

lemma signed_wrap_fits: "0 < n \<Longrightarrow> fits n x \<Longrightarrow> signed_wrap n x = x"
  using two_pow_byte [of n] by (simp add: signed_wrap_def fits_def)

lemma fits_signed_wrap: "0 < n \<Longrightarrow> fits n (signed_wrap n x)"
proof -
  assume n: "0 < n"
  have "(x + 2 ^ (8 * n - 1)) mod 2 ^ (8 * n) < (2::int) ^ (8 * n)" by simp
  with two_pow_byte [OF n] show ?thesis by (simp add: fits_def signed_wrap_def)
qed

lemma signed_wrap_mod: "signed_wrap n (x mod 2 ^ (8 * n)) = signed_wrap n x"
  by (simp add: signed_wrap_def mod_add_left_eq)

lemma fits_mono: "fits n x \<Longrightarrow> n \<le> k \<Longrightarrow> fits k x"
proof -
  assume "fits n x" "n \<le> k"
  moreover from this have "(2::int) ^ (8 * n - 1) \<le> 2 ^ (8 * k - 1)" by (intro power_increasing) auto
  ultimately show ?thesis unfolding fits_def by linarith
qed

section \<open>Little-endian integers\<close>

fun le_bytes :: "nat \<Rightarrow> nat \<Rightarrow> byte list" where
  "le_bytes 0 x = []"
| "le_bytes (Suc n) x = of_nat (x mod 256) # le_bytes n (x div 256)"

fun le_nat :: "byte list \<Rightarrow> nat" where
  "le_nat [] = 0"
| "le_nat (b # bs) = unat b + 256 * le_nat bs"

lemma length_le_bytes [simp]: "length (le_bytes n x) = n"
  by (induction n arbitrary: x) auto

lemma unat_byte_less: "unat (b :: byte) < 256"
  using unsigned_less [of b, where 'a = nat] by simp

lemma le_nat_less: "le_nat bs < 256 ^ length bs"
proof (induction bs)
  case (Cons b bs)
  have "unat b < 256" by (rule unat_byte_less)
  with Cons show ?case by simp
qed simp

lemma unat_of_nat_byte: "unat (of_nat (x mod 256) :: byte) = x mod 256"
  by (simp add: unat_of_nat take_bit_eq_mod)

lemma le_nat_le_bytes: "le_nat (le_bytes n x) = x mod 256 ^ n"
proof (induction n arbitrary: x)
  case (Suc n)
  then show ?case
    using unat_of_nat_byte [of x] by (simp add: mod_mult2_eq [of x 256] unat_of_nat take_bit_eq_mod add.commute)
qed simp

lemma le_bytes_le_nat: "le_bytes (length bs) (le_nat bs) = bs"
proof (induction bs)
  case (Cons b bs)
  have b: "unat b < 256" by (rule unat_byte_less)
  then have "(unat b + 256 * le_nat bs) mod 256 = unat b" "(unat b + 256 * le_nat bs) div 256 = le_nat bs" by auto
  with Cons show ?case by simp
qed simp

text \<open>A signed integer of \<open>n\<close> bytes in memory.\<close>

definition put_int :: "nat \<Rightarrow> int \<Rightarrow> byte list" where
  "put_int n v = le_bytes n (nat (v mod 2 ^ (8 * n)))"

definition get_int :: "byte list \<Rightarrow> int" where
  "get_int bs = signed_wrap (length bs) (int (le_nat bs))"

lemma length_put_int [simp]: "length (put_int n v) = n"
  by (simp add: put_int_def)

lemma pow256: "(256::nat) ^ n = 2 ^ (8 * n)"
  by (simp add: power_mult)

lemma get_put_int: "0 < n \<Longrightarrow> get_int (put_int n v) = signed_wrap n v"
proof -
  have "nat (v mod 2 ^ (8 * n)) < 2 ^ (8 * n)" by (simp add: nat_less_iff)
  then have "int (nat (v mod 2 ^ (8 * n)) mod 2 ^ (8 * n)) = v mod 2 ^ (8 * n)" by simp
  then show "get_int (put_int n v) = signed_wrap n v"
    by (simp only: get_int_def put_int_def le_nat_le_bytes pow256 length_le_bytes signed_wrap_mod)
qed

lemma get_put_int_fits: "0 < n \<Longrightarrow> fits n v \<Longrightarrow> get_int (put_int n v) = v"
  by (simp add: get_put_int signed_wrap_fits)

lemma fits_get_int: "bs \<noteq> [] \<Longrightarrow> fits (length bs) (get_int bs)"
  by (simp add: get_int_def fits_signed_wrap)

section \<open>A buffer as an array\<close>

definition elt :: "nat \<Rightarrow> byte list \<Rightarrow> nat \<Rightarrow> int" where
  "elt w m i = get_int (take w (drop (i * w) m))"

definition array_of :: "nat \<Rightarrow> byte list \<Rightarrow> int list" where
  "array_of w m = map (elt w m) [0..<length m div w]"

lemma take_drop_nth: "off + w \<le> length m \<Longrightarrow> take w (drop off m) = map (\<lambda>k. m ! (off + k)) [0..<w]"
  by (rule nth_equalityI) auto

lemma elt_nth: "(i + 1) * w \<le> length m \<Longrightarrow> elt w m i = get_int (map (\<lambda>k. m ! (i * w + k)) [0..<w])"
  by (simp add: elt_def take_drop_nth)

lemma elt_cong:
  "(i + 1) * w \<le> length m \<Longrightarrow> (j + 1) * w \<le> length m' \<Longrightarrow> (\<And>k. k < w \<Longrightarrow> m ! (i * w + k) = m' ! (j * w + k)) \<Longrightarrow>
     elt w m i = elt w m' j"
  by (simp add: elt_nth) (intro arg_cong [where f = get_int] map_cong, auto)

lemma elt_realloc: "(i + 1) * w \<le> length m \<Longrightarrow> (i + 1) * w \<le> n \<Longrightarrow> elt w (mem_realloc junk m n) i = elt w m i"
  by (rule elt_cong) (auto simp: nth_mem_realloc)

lemma elt_put_same:
  assumes "(i + 1) * w \<le> length m" and "0 < w" and "fits w v"
  shows "elt w (overwrite m (i * w) (put_int w v)) i = v"
proof -
  have "map (\<lambda>k. overwrite m (i * w) (put_int w v) ! (i * w + k)) [0..<w] = put_int w v"
    using assms by (intro nth_equalityI) (auto simp: nth_overwrite)
  then show ?thesis using assms by (simp add: elt_nth get_put_int_fits)
qed

text \<open>Reading beside a write, also with different widths.\<close>

lemma elt_put_other:
  assumes "(i + 1) * w \<le> length m" and "off + length bs \<le> length m" and "(i + 1) * w \<le> off \<or> off + length bs \<le> i * w"
  shows "elt w (overwrite m off bs) i = elt w m i"
  using assms by (intro elt_cong) (auto simp: nth_overwrite)

lemma elt_move:
  assumes "(dst + n) * w \<le> length m" and "(src + n) * w \<le> length m" and "(i + 1) * w \<le> length m"
  shows "elt w (overwrite m (dst * w) (take (n * w) (drop (src * w) m))) i =
    (if dst \<le> i \<and> i < dst + n then elt w m (i - dst + src) else elt w m i)"
proof -
  let ?bs = "take (n * w) (drop (src * w) m)"
  have len: "length ?bs = n * w" using assms(2) by (simp add: algebra_simps)
  show ?thesis
  proof (cases "dst \<le> i \<and> i < dst + n")
    case True
    then obtain j where j: "i = dst + j" "j < n" by (metis le_add_diff_inverse nat_add_left_cancel_less)
    then have jw: "(j + 1) * w \<le> n * w" by (metis Suc_eq_plus1 Suc_leI mult_le_mono1)
    have "elt w (overwrite m (dst * w) ?bs) i = elt w m (j + src)"
      using assms len jw j by (intro elt_cong) (auto simp: nth_overwrite algebra_simps)
    with True j show ?thesis by simp
  next
    case False
    then have "(i + 1) * w \<le> dst * w \<or> (dst + n) * w \<le> i * w"
      by (metis Suc_eq_plus1 Suc_leI mult_le_mono1 not_le_imp_less)
    then have "elt w (overwrite m (dst * w) ?bs) i = elt w m i"
      using assms(1,3) len by (intro elt_put_other) (auto simp: algebra_simps)
    then show ?thesis unfolding if_not_P [OF False] .
  qed
qed

end
