(* ===== verification/Redis_Intset.thy ===== *)
theory Redis_Intset
  imports Redis_Mem
begin

text \<open>
  The integer set of Redis, \<^verbatim>\<open>redis-7.2.4/src/intset.c\<close>: a sorted array of 16, 32 or
  64 bit integers in a byte buffer, searched by bisection and re-encoded in place when a wider value
  arrives.  Every access to the buffer is checked, so that memory safety is part of the results.
\<close>

section \<open>The code\<close>

record intset =
  encoding :: nat
  is_length :: nat
  contents :: "byte list"

definition INTSET_ENC_INT16 :: nat where "INTSET_ENC_INT16 = 2"
definition INTSET_ENC_INT32 :: nat where "INTSET_ENC_INT32 = 4"
definition INTSET_ENC_INT64 :: nat where "INTSET_ENC_INT64 = 8"

lemmas intset_encs = INTSET_ENC_INT16_def INTSET_ENC_INT32_def INTSET_ENC_INT64_def

definition intsetValueEncoding :: "int \<Rightarrow> nat" where
  "intsetValueEncoding v =
     (if v < - (2 ^ 31) \<or> v > 2 ^ 31 - 1 then INTSET_ENC_INT64
      else if v < - (2 ^ 15) \<or> v > 2 ^ 15 - 1 then INTSET_ENC_INT32
      else INTSET_ENC_INT16)"

text \<open>The width the three-way tests on an encoding select.\<close>

definition enc_width :: "nat \<Rightarrow> nat" where
  "enc_width enc = (if enc = INTSET_ENC_INT64 then 8 else if enc = INTSET_ENC_INT32 then 4 else 2)"

definition intsetGetEncoded :: "intset \<Rightarrow> int \<Rightarrow> nat \<Rightarrow> int c_result" where
  "intsetGetEncoded is pos enc =
     (let w = enc_width enc in c_bind (mem_get (contents is) (pos * int w) w) (\<lambda>bs. Inr (get_int bs)))"

definition intsetGet_at :: "intset \<Rightarrow> int \<Rightarrow> int c_result" where
  "intsetGet_at is pos = intsetGetEncoded is pos (encoding is)"

definition intsetSet :: "intset \<Rightarrow> int \<Rightarrow> int \<Rightarrow> intset c_result" where
  "intsetSet is pos v =
     (let w = enc_width (encoding is)
      in c_bind (mem_put (contents is) (pos * int w) (put_int w v)) (\<lambda>m. Inr (is\<lparr>contents := m\<rparr>)))"

definition intsetNew :: intset where
  "intsetNew = \<lparr>encoding = INTSET_ENC_INT16, is_length = 0, contents = []\<rparr>"

text \<open>\<^verbatim>\<open>sizeof(intset)\<close> is 8, the two header words.\<close>

definition intsetResize :: "(nat \<Rightarrow> byte) \<Rightarrow> intset \<Rightarrow> nat \<Rightarrow> intset c_result" where
  "intsetResize junk is len =
     (let size = len * encoding is
      in if size \<le> 2 ^ 64 - 1 - 8 then Inr (is\<lparr>contents := mem_realloc junk (contents is) size\<rparr>)
         else Inl AssertFail)"

text \<open>
  The bisection.  \<^verbatim>\<open>min\<close> and \<^verbatim>\<open>max\<close> are nonnegative \<^verbatim>\<open>int\<close>s, so the
  unsigned sum does not wrap and \<^verbatim>\<open>mid\<close> is half of it.
\<close>

function intsetSearch_loop :: "intset \<Rightarrow> int \<Rightarrow> int \<Rightarrow> int \<Rightarrow> int \<Rightarrow> int \<Rightarrow> (int \<times> int \<times> int) c_result" where
  "intsetSearch_loop is v mn mx mid cur =
     (if mn \<le> mx
      then let mid = (mn + mx) div 2
           in case intsetGet_at is mid of
                Inl e \<Rightarrow> Inl e
              | Inr cur \<Rightarrow>
                  if cur < v then intsetSearch_loop is v (mid + 1) mx mid cur
                  else if v < cur then intsetSearch_loop is v mn (mid - 1) mid cur
                  else Inr (mn, mid, cur)
      else Inr (mn, mid, cur))"
  by pat_completeness auto
termination
  by (relation "measure (\<lambda>(is, v, a, b, m, c). nat (b - a + 1))") auto

declare intsetSearch_loop.simps [simp del]

definition intsetSearch :: "intset \<Rightarrow> int \<Rightarrow> (bool \<times> nat) c_result" where
  "intsetSearch is v =
     (let mx = s32 (wrap32 (int (is_length is) - 1))
      in if is_length is = 0 then Inr (False, 0)
         else c_bind (intsetGet_at is mx) (\<lambda>last.
           if last < v then Inr (False, is_length is)
           else c_bind (intsetGet_at is 0) (\<lambda>first.
             if v < first then Inr (False, 0)
             else c_bind (intsetSearch_loop is v 0 mx (- 1) (- 1)) (\<lambda>(mn, mid, cur).
               if v = cur then Inr (True, nat (wrap32 mid)) else Inr (False, nat (wrap32 mn))))))"

text \<open>\<^verbatim>\<open>while (length--)\<close>: back to front, so that no value is overwritten before it is read.\<close>

fun upgrade_loop :: "nat \<Rightarrow> int \<Rightarrow> nat \<Rightarrow> intset \<Rightarrow> intset c_result" where
  "upgrade_loop curenc prepend 0 is = Inr is"
| "upgrade_loop curenc prepend (Suc len) is =
     c_bind (intsetGetEncoded is (int len) curenc) (\<lambda>v.
     c_bind (intsetSet is (int len + prepend) v) (upgrade_loop curenc prepend len))"

text \<open>
  \<^verbatim>\<open>int length\<close> of a set of \<open>2 ^ 31\<close> or more members is negative, and then the first
  access of the loop is out of bounds.
\<close>

definition intsetUpgradeAndAdd :: "(nat \<Rightarrow> byte) \<Rightarrow> intset \<Rightarrow> int \<Rightarrow> intset c_result" where
  "intsetUpgradeAndAdd junk is v =
     (let curenc = encoding is; newenc = intsetValueEncoding v; len = s32 (int (is_length is));
          prepend = (if v < 0 then 1 else 0)
      in c_bind (intsetResize junk (is\<lparr>encoding := newenc\<rparr>) (Suc (is_length is) mod 2 ^ 32)) (\<lambda>is1.
         c_bind (if len < 0 then Inl OutOfBounds else upgrade_loop curenc prepend (nat len) is1) (\<lambda>is2.
         c_bind (if prepend = 1 then intsetSet is2 0 v else intsetSet is2 (s32 (int (is_length is2))) v) (\<lambda>is3.
           Inr (is3\<lparr>is_length := Suc (is_length is3) mod 2 ^ 32\<rparr>)))))"

text \<open>The byte count is a \<^verbatim>\<open>uint32_t\<close>.\<close>

definition intsetMoveTail :: "intset \<Rightarrow> nat \<Rightarrow> nat \<Rightarrow> intset c_result" where
  "intsetMoveTail is from to =
     (let w = enc_width (encoding is);
          bytes = nat (wrap32 (wrap32 (int (is_length is) - int from) * int w))
      in c_bind (mem_move (contents is) (int (to * w)) (int (from * w)) bytes) (\<lambda>m. Inr (is\<lparr>contents := m\<rparr>)))"

definition intsetAdd :: "(nat \<Rightarrow> byte) \<Rightarrow> intset \<Rightarrow> int \<Rightarrow> (intset \<times> bool) c_result" where
  "intsetAdd junk is v =
     (if encoding is < intsetValueEncoding v
      then c_bind (intsetUpgradeAndAdd junk is v) (\<lambda>is1. Inr (is1, True))
      else c_bind (intsetSearch is v) (\<lambda>(found, pos).
        if found then Inr (is, False)
        else c_bind (intsetResize junk is (Suc (is_length is) mod 2 ^ 32)) (\<lambda>is1.
             c_bind (if pos < is_length is1 then intsetMoveTail is1 pos (Suc pos mod 2 ^ 32) else Inr is1) (\<lambda>is2.
             c_bind (intsetSet is2 (s32 (int pos)) v) (\<lambda>is3.
               Inr (is3\<lparr>is_length := Suc (is_length is3) mod 2 ^ 32\<rparr>, True))))))"

definition intsetRemove :: "(nat \<Rightarrow> byte) \<Rightarrow> intset \<Rightarrow> int \<Rightarrow> (intset \<times> bool) c_result" where
  "intsetRemove junk is v =
     (if encoding is < intsetValueEncoding v then Inr (is, False)
      else c_bind (intsetSearch is v) (\<lambda>(found, pos).
        if \<not> found then Inr (is, False)
        else let len = is_length is; len1 = nat (wrap32 (int len - 1))
             in c_bind (if pos < len1 then intsetMoveTail is (Suc pos mod 2 ^ 32) pos else Inr is) (\<lambda>is1.
                c_bind (intsetResize junk is1 len1) (\<lambda>is2.
                  Inr (is2\<lparr>is_length := len1\<rparr>, True)))))"

definition intsetFind :: "intset \<Rightarrow> int \<Rightarrow> bool c_result" where
  "intsetFind is v =
     (if encoding is < intsetValueEncoding v then Inr False
      else c_bind (intsetSearch is v) (\<lambda>(found, _). Inr found))"

definition intsetRandom :: "nat \<Rightarrow> intset \<Rightarrow> int c_result" where
  "intsetRandom rand is =
     (if is_length is = 0 then Inl AssertFail else intsetGet_at is (s32 (int (rand mod is_length is))))"

definition intsetMax :: "intset \<Rightarrow> int c_result" where
  "intsetMax is = intsetGet_at is (s32 (wrap32 (int (is_length is) - 1)))"

definition intsetMin :: "intset \<Rightarrow> int c_result" where
  "intsetMin is = intsetGet_at is 0"

definition intsetGet :: "intset \<Rightarrow> nat \<Rightarrow> int option c_result" where
  "intsetGet is pos =
     (if pos < is_length is then c_bind (intsetGet_at is (s32 (int pos))) (\<lambda>v. Inr (Some v)) else Inr None)"

definition intsetLen :: "intset \<Rightarrow> nat" where
  "intsetLen is = is_length is"

definition intsetBlobLen :: "intset \<Rightarrow> nat" where
  "intsetBlobLen is = 8 + is_length is * encoding is"

text \<open>The integrity check reads the header from raw bytes, then the records.\<close>

function validate_loop :: "intset \<Rightarrow> int \<Rightarrow> nat \<Rightarrow> bool c_result" where
  "validate_loop is prev i =
     (if i < is_length is
      then case intsetGet_at is (s32 (int i)) of
             Inl e \<Rightarrow> Inl e
           | Inr cur \<Rightarrow> if cur \<le> prev then Inr False else validate_loop is cur (Suc i)
      else Inr True)"
  by pat_completeness auto
termination
  by (relation "measure (\<lambda>(is, prev, i). is_length is - i)") auto

declare validate_loop.simps [simp del]

definition intsetValidateIntegrity :: "byte list \<Rightarrow> bool \<Rightarrow> bool c_result" where
  "intsetValidateIntegrity p deep =
     (if length p < 8 then Inr False
      else let is = \<lparr>encoding = le_nat (take 4 p), is_length = le_nat (take 4 (drop 4 p)), contents = drop 8 p\<rparr>
           in if encoding is \<notin> {INTSET_ENC_INT64, INTSET_ENC_INT32, INTSET_ENC_INT16} then Inr False
              else if 8 + is_length is * encoding is \<noteq> length p then Inr False
              else if is_length is = 0 then Inr False
              else if \<not> deep then Inr True
              else c_bind (intsetGet_at is 0) (\<lambda>prev. validate_loop is prev 1))"

section \<open>The invariant, and the elements\<close>

definition elements :: "intset \<Rightarrow> int list" where
  "elements is = array_of (encoding is) (contents is)"

text \<open>
  \<open>INTSET_CAP\<close> is where the byte counts of \<^verbatim>\<open>intsetMoveTail\<close> stop fitting 32 bits.
\<close>

definition INTSET_CAP :: nat where "INTSET_CAP = 2 ^ 29"

definition intset_wf :: "intset \<Rightarrow> bool" where
  "intset_wf is \<longleftrightarrow> encoding is \<in> {2, 4, 8} \<and> is_length is < INTSET_CAP \<and>
     length (contents is) = is_length is * encoding is \<and> sorted_wrt (<) (elements is)"

lemma enc_width_id: "e \<in> {2, 4, 8} \<Longrightarrow> enc_width e = e"
  by (auto simp: enc_width_def intset_encs)

lemma enc_cases: "intsetValueEncoding v \<in> {2, 4, 8}"
  by (simp add: intsetValueEncoding_def intset_encs)

lemma enc_fits: "fits 8 v \<Longrightarrow> fits (intsetValueEncoding v) v"
  by (auto simp: intsetValueEncoding_def intset_encs fits_def)

lemma enc_least: "e \<in> {2, 4, 8} \<Longrightarrow> fits e v \<Longrightarrow> intsetValueEncoding v \<le> e"
  by (auto simp: intsetValueEncoding_def intset_encs fits_def)

lemma length_array: "0 < w \<Longrightarrow> length m = n * w \<Longrightarrow> length (array_of w m) = n"
  by (simp add: array_of_def)

lemma nth_array: "0 < w \<Longrightarrow> length m = n * w \<Longrightarrow> i < n \<Longrightarrow> array_of w m ! i = elt w m i"
  by (simp add: array_of_def)

lemma wf_length: "intset_wf is \<Longrightarrow> length (elements is) = is_length is"
  by (auto simp: intset_wf_def elements_def intro!: length_array)

lemma elt_fits:
  assumes "0 < w" and "(i + 1) * w \<le> length m"
  shows "fits w (elt w m i)"
proof -
  have "length (take w (drop (i * w) m)) = w" using assms by simp
  then show ?thesis unfolding elt_def using fits_get_int assms(1) by (metis length_greater_0_conv)
qed

lemma slot_le: "i < n \<Longrightarrow> (i + 1) * w \<le> n * (w :: nat)"
  by (metis Suc_eq_plus1 Suc_leI mult_le_mono1)

lemma elements_fit: "intset_wf is \<Longrightarrow> x \<in> set (elements is) \<Longrightarrow> fits (encoding is) x"
proof -
  assume wf: "intset_wf is" and "x \<in> set (elements is)"
  then obtain i where "i < is_length is" "x = elt (encoding is) (contents is) i"
    by (auto simp: elements_def array_of_def intset_wf_def)
  with wf show ?thesis using slot_le [of i "is_length is" "encoding is"]
    by (auto simp: intset_wf_def intro!: elt_fits)
qed

lemma getEncoded_ok:
  assumes "e \<in> {2, 4, 8}" and "(i + 1) * e \<le> length (contents is)"
  shows "intsetGetEncoded is (int i) e = Inr (elt e (contents is) i)"
proof -
  have "nat (int i * int e) = i * e" by (simp add: nat_mult_distrib)
  moreover have "int i * int e + int e \<le> int (length (contents is))"
    using assms(2) by (metis add_mult_distrib mult_1 of_nat_add of_nat_le_iff of_nat_mult)
  ultimately show ?thesis using assms
    by (simp add: intsetGetEncoded_def enc_width_id mem_get_def elt_def Let_def)
qed

lemma get_ok: "intset_wf is \<Longrightarrow> i < is_length is \<Longrightarrow> intsetGet_at is (int i) = Inr (elements is ! i)"
proof -
  assume wf: "intset_wf is" and i: "i < is_length is"
  then have "(i + 1) * encoding is \<le> length (contents is)"
    using slot_le [OF i, of "encoding is"] by (simp add: intset_wf_def)
  moreover have "elements is ! i = elt (encoding is) (contents is) i"
    unfolding elements_def using wf i by (intro nth_array) (auto simp: intset_wf_def)
  ultimately show ?thesis using wf getEncoded_ok [of "encoding is" i "is"] by (simp add: intsetGet_at_def intset_wf_def)
qed

lemma s32_small: "0 \<le> x \<Longrightarrow> x < 2 ^ 31 \<Longrightarrow> s32 x = x"
  by (rule signed_wrap_fits) (auto simp: fits_def)

lemma wrap32_small: "0 \<le> x \<Longrightarrow> x < 2 ^ 32 \<Longrightarrow> wrap32 x = x"
  by simp

section \<open>Search\<close>

definition split_at :: "int \<Rightarrow> int list \<Rightarrow> nat \<Rightarrow> bool" where
  "split_at v xs pos \<longleftrightarrow> pos \<le> length xs \<and> (\<forall>i < pos. xs ! i < v) \<and> (\<forall>i. pos \<le> i \<and> i < length xs \<longrightarrow> v < xs ! i)"

lemma sorted_nth_le: "sorted_wrt (<) xs \<Longrightarrow> i \<le> j \<Longrightarrow> j < length xs \<Longrightarrow> xs ! i \<le> (xs ! j :: int)"
  by (cases "i = j") (auto dest: sorted_wrt_nth_less [of _ _ i j])

lemma search_loop_ok:
  assumes wf: "intset_wf is" and "0 \<le> mn" and "mx < int (is_length is)"
    and "\<forall>i. int i < mn \<longrightarrow> elements is ! i < v"
    and "\<forall>i. mx < int i \<and> i < is_length is \<longrightarrow> v < elements is ! i"
    and "mn \<le> mx + 1" and "mn \<le> mx \<or> cur \<noteq> v"
  shows "\<exists>mn' mid' cur'. intsetSearch_loop is v mn mx mid cur = Inr (mn', mid', cur') \<and>
    (if v = cur' then 0 \<le> mid' \<and> mid' < int (is_length is) \<and> elements is ! nat mid' = v
     else 0 \<le> mn' \<and> split_at v (elements is) (nat mn'))"
  using assms
proof (induction "nat (mx - mn + 1)" arbitrary: mn mx mid cur rule: less_induct)
  case less
  note len = wf_length [OF wf]
  show ?case
  proof (cases "mn \<le> mx")
    case False
    with less.prems have "mx = mn - 1" "cur \<noteq> v" by auto
    moreover from this less.prems have "split_at v (elements is) (nat mn)" by (auto simp: split_at_def len)
    ultimately show ?thesis using less.prems by (auto simp: intsetSearch_loop.simps [of "is" v mn])
  next
    case True
    define m where "m = (mn + mx) div 2"
    have m: "mn \<le> m" "m \<le> mx" "0 \<le> m" using True less.prems(2) by (auto simp: m_def)
    have get: "intsetGet_at is m = Inr (elements is ! nat m)"
      using get_ok [OF wf, of "nat m"] m less.prems(3) by simp
    note unf = intsetSearch_loop.simps [of "is" v mn mx mid cur]
    have sorted: "sorted_wrt (<) (elements is)" using wf by (simp add: intset_wf_def)
    consider "elements is ! nat m < v" | "v < elements is ! nat m" | "v = elements is ! nat m" by linarith
    then show ?thesis
    proof cases
      case 1
      have below: "elements is ! i < v" if "int i < m + 1" for i
      proof -
        have "i \<le> nat m" "nat m < length (elements is)" using that m less.prems(3) len by linarith+
        with 1 sorted_nth_le [OF sorted, of i "nat m"] show ?thesis by simp
      qed
      have "intsetSearch_loop is v mn mx mid cur = intsetSearch_loop is v (m + 1) mx m (elements is ! nat m)"
        using True get 1 unf by (simp add: m_def Let_def)
      moreover have "nat (mx - (m + 1) + 1) < nat (mx - mn + 1)" using m True by simp
      ultimately show ?thesis
        using less.hyps [of mx "m + 1" "elements is ! nat m" m] less.prems m 1 below by (simp add: wf)
    next
      case 2
      have above: "v < elements is ! i" if "m - 1 < int i" "i < is_length is" for i
      proof -
        have "nat m \<le> i" using that m by linarith
        with 2 sorted_nth_le [OF sorted, of "nat m" i] that(2) len show ?thesis by simp
      qed
      have "intsetSearch_loop is v mn mx mid cur = intsetSearch_loop is v mn (m - 1) m (elements is ! nat m)"
        using True get 2 unf by (simp add: m_def Let_def)
      moreover have "nat (m - 1 - mn + 1) < nat (mx - mn + 1)" using m True by simp
      ultimately show ?thesis
        using less.hyps [of "m - 1" mn "elements is ! nat m" m] less.prems m 2 above by (simp add: wf)
    next
      case 3
      then show ?thesis using True get m less.prems unf by (auto simp: m_def Let_def)
    qed
  qed
qed

lemma search_ok:
  assumes wf: "intset_wf is"
  shows "\<exists>found pos. intsetSearch is v = Inr (found, pos) \<and> pos \<le> is_length is \<and>
    (if found then pos < is_length is \<and> elements is ! pos = v else split_at v (elements is) pos)"
proof (cases "is_length is = 0")
  case True
  then show ?thesis using wf_length [OF wf] by (auto simp: intsetSearch_def split_at_def)
next
  case False
  let ?n = "is_length is"
  note len = wf_length [OF wf]
  have sorted: "sorted_wrt (<) (elements is)" and cap: "?n < 2 ^ 29" using wf by (auto simp: intset_wf_def INTSET_CAP_def)
  have mx: "s32 (wrap32 (int ?n - 1)) = int (?n - 1)" using False cap by (subst wrap32_small) (auto simp: s32_small of_nat_diff)
  have last: "intsetGet_at is (int (?n - 1)) = Inr (elements is ! (?n - 1))"
    and first: "intsetGet_at is 0 = Inr (elements is ! 0)"
    using get_ok [OF wf, of "?n - 1"] get_ok [OF wf, of 0] False by auto
  consider "elements is ! (?n - 1) < v" | "v \<le> elements is ! (?n - 1)" "v < elements is ! 0"
    | "v \<le> elements is ! (?n - 1)" "elements is ! 0 \<le> v" by linarith
  then show ?thesis
  proof cases
    case 1
    have "elements is ! i < v" if "i < ?n" for i
    proof -
      have "i \<le> ?n - 1" using that by simp
      with 1 sorted_nth_le [OF sorted, of i "?n - 1"] that len show ?thesis by simp
    qed
    with 1 show ?thesis using False last mx len by (auto simp: intsetSearch_def split_at_def Let_def)
  next
    case 2
    have "v < elements is ! i" if "i < ?n" for i
      using 2 sorted_nth_le [OF sorted, of 0 i] that len by simp
    with 2 show ?thesis using False last first mx by (auto simp: intsetSearch_def split_at_def Let_def len)
  next
    case 3
    have "int (?n - 1) < int ?n" using False by simp
    then obtain mn' mid' cur' where
      lp: "intsetSearch_loop is v 0 (int (?n - 1)) (- 1) (- 1) = Inr (mn', mid', cur')" and
      res: "if v = cur' then 0 \<le> mid' \<and> mid' < int ?n \<and> elements is ! nat mid' = v
        else 0 \<le> mn' \<and> split_at v (elements is) (nat mn')"
      using search_loop_ok [OF wf, of 0 "int (?n - 1)" v "- 1" "- 1"] False by fastforce
    show ?thesis
    proof (cases "v = cur'")
      case True
      with res have "mid' mod 2 ^ 32 = mid'" "nat mid' < ?n" using cap by auto
      with True res lp 3 False last first mx show ?thesis by (auto simp: intsetSearch_def Let_def)
    next
      case F: False
      with res have "0 \<le> mn'" "nat mn' \<le> ?n" "split_at v (elements is) (nat mn')" by (auto simp: split_at_def len)
      moreover from this have "mn' mod 2 ^ 32 = mn'" using cap by auto
      ultimately show ?thesis using F lp 3 False last first mx by (auto simp: intsetSearch_def Let_def)
    qed
  qed
qed

section \<open>Memory operations\<close>

lemma resize_ok:
  assumes "encoding is \<in> {2, 4, 8}" and "n < 2 ^ 32"
  shows "intsetResize junk is n = Inr (is\<lparr>contents := mem_realloc junk (contents is) (n * encoding is)\<rparr>)"
proof -
  have "n * encoding is \<le> 2 ^ 32 * 8" using assms by (intro mult_le_mono) auto
  then show ?thesis by (simp add: intsetResize_def)
qed

lemma set_ok:
  assumes "encoding is \<in> {2, 4, 8}" and "(i + 1) * encoding is \<le> length (contents is)"
  shows "intsetSet is (int i) v = Inr (is\<lparr>contents := overwrite (contents is) (i * encoding is) (put_int (encoding is) v)\<rparr>)"
proof -
  let ?e = "encoding is"
  have "nat (int i * int ?e) = i * ?e" by (simp add: nat_mult_distrib)
  moreover have "int i * int ?e + int ?e \<le> int (length (contents is))"
    using assms(2) by (metis add_mult_distrib mult_1 of_nat_add of_nat_le_iff of_nat_mult)
  ultimately show ?thesis using assms by (simp add: intsetSet_def enc_width_id mem_put_def Let_def)
qed

lemma move_ok:
  assumes e: "encoding is \<in> {2, 4, 8}" and f: "from \<le> is_length is" and cap: "is_length is < INTSET_CAP"
    and b: "(to + (is_length is - from)) * encoding is \<le> length (contents is)"
      "is_length is * encoding is \<le> length (contents is)"
  shows "intsetMoveTail is from to = Inr (is\<lparr>contents := overwrite (contents is) (to * encoding is)
    (take ((is_length is - from) * encoding is) (drop (from * encoding is) (contents is)))\<rparr>)"
proof -
  let ?e = "encoding is" and ?k = "is_length is - from"
  have k: "int (is_length is) - int from = int ?k" using f by simp
  have "?k * ?e \<le> ?k * 8" using e by auto
  also have "\<dots> < 2 ^ 32" using cap by (simp add: INTSET_CAP_def)
  finally have "int (?k * ?e) < int (2 ^ 32)" by (simp only: of_nat_less_iff)
  then have small: "int ?k * int ?e < 2 ^ 32" by simp
  have "int ?k < 2 ^ 32" using cap by (simp add: INTSET_CAP_def)
  with small have bytes: "nat (wrap32 (wrap32 (int (is_length is) - int from) * int ?e)) = ?k * ?e"
    unfolding k by (simp add: nat_mult_distrib)
  have src: "from * ?e + ?k * ?e \<le> length (contents is)" using b(2) f by (simp flip: add_mult_distrib)
  have dst: "to * ?e + ?k * ?e \<le> length (contents is)" using b(1) by (simp add: add_mult_distrib)
  have "mem_get (contents is) (int (from * ?e)) (?k * ?e) = Inr (take (?k * ?e) (drop (from * ?e) (contents is)))"
    using src unfolding mem_get_def by (simp only: of_nat_add [symmetric] of_nat_le_iff) (simp add: nat_mult_distrib)
  moreover have "length (take (?k * ?e) (drop (from * ?e) (contents is))) = ?k * ?e" using src by simp
  moreover have "0 \<le> int (to * ?e) \<and> int (to * ?e) + int (?k * ?e) \<le> int (length (contents is))"
    using dst by (simp only: of_nat_add [symmetric] of_nat_le_iff) simp
  ultimately have "mem_move (contents is) (int (to * ?e)) (int (from * ?e)) (?k * ?e) =
      Inr (overwrite (contents is) (to * ?e) (take (?k * ?e) (drop (from * ?e) (contents is))))"
    by (simp only: mem_move_def mem_put_def c_bind_simps if_True nat_int simp_thms)
  then show ?thesis using e by (simp only: intsetMoveTail_def enc_width_id [OF e] bytes Let_def c_bind_simps)
qed

lemma array_eqI:
  "0 < w \<Longrightarrow> length m = length xs * w \<Longrightarrow> (\<And>i. i < length xs \<Longrightarrow> elt w m i = xs ! i) \<Longrightarrow> array_of w m = xs"
  by (rule nth_equalityI) (auto simp: length_array nth_array)

lemma split_insert_sorted:
  assumes "sorted_wrt (<) xs" and "split_at v xs pos"
  shows "sorted_wrt (<) (take pos xs @ v # drop pos xs)"
proof -
  have "\<forall>x \<in> set (take pos xs). x < v" "\<forall>x \<in> set (drop pos xs). v < x"
    using assms(2) by (auto simp: split_at_def in_set_conv_nth)
  moreover have "sorted_wrt (<) (take pos xs @ drop pos xs)" using assms(1) by simp
  ultimately show ?thesis unfolding sorted_wrt_append by fastforce
qed

lemma split_not_mem: "split_at v xs pos \<Longrightarrow> v \<notin> set xs"
  unfolding split_at_def in_set_conv_nth by (metis less_irrefl not_le)

section \<open>Adding\<close>

lemma add_in_place:
  assumes wf: "intset_wf is" and v: "fits (encoding is) v" and pos: "split_at v (elements is) pos"
    and room: "Suc (is_length is) < INTSET_CAP"
  shows "\<exists>is'. c_bind (intsetResize junk is (Suc (is_length is) mod 2 ^ 32)) (\<lambda>is1.
       c_bind (if pos < is_length is1 then intsetMoveTail is1 pos (Suc pos mod 2 ^ 32) else Inr is1) (\<lambda>is2.
       c_bind (intsetSet is2 (s32 (int pos)) v) (\<lambda>is3.
         Inr (is3\<lparr>is_length := Suc (is_length is3) mod 2 ^ 32\<rparr>, True)))) = Inr (is', True) \<and>
     encoding is' = encoding is \<and> is_length is' = Suc (is_length is) \<and>
     length (contents is') = Suc (is_length is) * encoding is \<and>
     elements is' = take pos (elements is) @ v # drop pos (elements is)"
proof -
  let ?e = "encoding is" and ?n = "is_length is" and ?m = "contents is"
  let ?m1 = "mem_realloc junk ?m (Suc ?n * ?e)"
  let ?m2 = "if pos < ?n then overwrite ?m1 (Suc pos * ?e) (take ((?n - pos) * ?e) (drop (pos * ?e) ?m1)) else ?m1"
  let ?m3 = "overwrite ?m2 (pos * ?e) (put_int ?e v)"
  have e: "?e \<in> {2, 4, 8}" and lm: "length ?m = ?n * ?e" and cap: "?n < INTSET_CAP" using wf by (auto simp: intset_wf_def)
  then have e0: "0 < ?e" by auto
  note len = wf_length [OF wf]
  have p: "pos \<le> ?n" using pos len by (simp add: split_at_def)
  have small: "Suc ?n mod 2 ^ 32 = Suc ?n" "Suc pos mod 2 ^ 32 = Suc pos" "s32 (int pos) = int pos"
    using room p by (auto simp: INTSET_CAP_def s32_small)
  have b: "(Suc pos + (?n - pos)) * ?e \<le> length ?m1" using p by simp
  have move: "pos < ?n \<Longrightarrow> intsetMoveTail (is\<lparr>contents := ?m1\<rparr>) pos (Suc pos) = Inr (is\<lparr>contents := ?m2\<rparr>)"
    using e cap p b by (subst move_ok) auto
  have l2: "length ?m2 = Suc ?n * ?e"
    using p by (auto simp: algebra_simps simp flip: add_mult_distrib)
  have slot: "(pos + 1) * ?e \<le> length ?m2" using l2 slot_le [of pos "Suc ?n" ?e] p by simp
  have set: "intsetSet (is\<lparr>contents := ?m2\<rparr>) (int pos) v = Inr (is\<lparr>contents := ?m3\<rparr>)"
    using set_ok [of "is\<lparr>contents := ?m2\<rparr>" pos v] e slot by simp
  have l3: "length ?m3 = Suc ?n * ?e" using slot l2 by simp
  have el: "elt ?e ?m3 i = (take pos (elements is) @ v # drop pos (elements is)) ! i" if i: "i < Suc ?n" for i
  proof -
    have old: "elt ?e ?m1 j = elements is ! j" if "j < ?n" for j
      using that slot_le [OF that, of ?e] lm unfolding elements_def
      by (simp only: nth_array [OF e0 lm that]) (rule elt_realloc, auto)
    have "elt ?e (overwrite ?m1 (Suc pos * ?e) (take ((?n - pos) * ?e) (drop (pos * ?e) ?m1))) i =
        (if Suc pos \<le> i \<and> i < Suc pos + (?n - pos) then elt ?e ?m1 (i - Suc pos + pos) else elt ?e ?m1 i)"
      using p b slot_le [OF i, of ?e] by (intro elt_move) auto
    then have m2: "elt ?e ?m2 i = (if pos < i then elements is ! (i - 1) else elements is ! i)" if "i \<noteq> pos"
      using that i p old [of i] old [of "i - 1"] by (cases "pos < ?n"; cases "pos < i") auto
    show ?thesis
    proof (cases "i = pos")
      case True
      then show ?thesis using elt_put_same [OF slot, of v] e v p len by (auto simp: nth_append)
    next
      case False
      then have "(i + 1) * ?e \<le> pos * ?e \<or> (pos + 1) * ?e \<le> i * ?e"
        using slot_le [of i pos ?e] slot_le [of pos i ?e] by linarith
      then have "elt ?e ?m3 i = elt ?e ?m2 i"
        using slot l2 slot_le [OF i, of ?e] by (intro elt_put_other) (auto simp: add_mult_distrib add.commute)
      with False m2 show ?thesis using p i len by (auto simp: nth_append nth_Cons' min_def)
    qed
  qed
  have "elements (is\<lparr>contents := ?m3, is_length := Suc ?n\<rparr>) = take pos (elements is) @ v # drop pos (elements is)"
    unfolding elements_def intset.simps intset.select_convs intset.update_convs
    by (rule array_eqI) (use e l3 el p len in \<open>auto simp: elements_def\<close>)
  moreover have "c_bind (intsetResize junk is (Suc ?n mod 2 ^ 32)) (\<lambda>is1.
       c_bind (if pos < is_length is1 then intsetMoveTail is1 pos (Suc pos mod 2 ^ 32) else Inr is1) (\<lambda>is2.
       c_bind (intsetSet is2 (s32 (int pos)) v) (\<lambda>is3.
         Inr (is3\<lparr>is_length := Suc (is_length is3) mod 2 ^ 32\<rparr>, True)))) = Inr (is\<lparr>contents := ?m3, is_length := Suc ?n\<rparr>, True)"
    using small move set resize_ok [OF e, of "Suc ?n" junk] room by (cases "pos < ?n") (simp_all add: INTSET_CAP_def)
  ultimately show ?thesis using l3 by auto
qed

lemma upgrade_loop_ok:
  assumes "c \<in> {2, 4, 8}" and "encoding is \<in> {2, 4, 8}" and "c < encoding is" and "p \<in> {0, 1}"
    and "length (contents is) = Suc n * encoding is" and "k \<le> n"
  shows "\<exists>m. upgrade_loop c (int p) k is = Inr (is\<lparr>contents := m\<rparr>) \<and> length m = length (contents is) \<and>
    (\<forall>i < k. elt (encoding is) m (i + p) = elt c (contents is) i) \<and>
    (\<forall>j. k + p \<le> j \<and> j < Suc n \<longrightarrow> elt (encoding is) m j = elt (encoding is) (contents is) j)"
  using assms
proof (induction k arbitrary: "is")
  case 0
  then show ?case by (intro exI [of _ "contents is"]) simp
next
  case (Suc k)
  let ?w = "encoding is" and ?m = "contents is"
  let ?v = "elt c ?m k"
  let ?m1 = "overwrite ?m ((k + p) * ?w) (put_int ?w ?v)"
  have c0: "0 < c" and w0: "0 < ?w" using Suc.prems by auto
  have rd: "(k + 1) * c \<le> length ?m"
    using Suc.prems(3,5,6) mult_le_mono [of "k + 1" "Suc n" c ?w] by simp
  have wr: "(k + p + 1) * ?w \<le> length ?m"
    using Suc.prems(4,5,6) slot_le [of "k + p" "Suc n" ?w] by auto
  have v: "fits ?w ?v" using elt_fits [OF c0 rd] fits_mono Suc.prems(3) by simp
  have get: "intsetGetEncoded is (int k) c = Inr ?v" by (rule getEncoded_ok [OF Suc.prems(1) rd])
  have set: "intsetSet is (int k + int p) ?v = Inr (is\<lparr>contents := ?m1\<rparr>)"
    using set_ok [OF Suc.prems(2) wr, of ?v] by simp
  have l1: "length ?m1 = length ?m" using wr by simp
  from Suc.IH [of "is\<lparr>contents := ?m1\<rparr>"] Suc.prems l1 obtain m where
    m: "upgrade_loop c (int p) k (is\<lparr>contents := ?m1\<rparr>) = Inr (is\<lparr>contents := m\<rparr>)" "length m = length ?m"
      "\<forall>i < k. elt ?w m (i + p) = elt c ?m1 i" "\<forall>j. k + p \<le> j \<and> j < Suc n \<longrightarrow> elt ?w m j = elt ?w ?m1 j"
    by auto
  have low: "elt c ?m1 i = elt c ?m i" if "i < k" for i
  proof -
    have "(i + 1) * c \<le> k * ?w" using that Suc.prems(3) by (intro mult_le_mono) auto
    also have "\<dots> \<le> (k + p) * ?w" by simp
    finally show ?thesis using wr rd slot_le [OF that, of c] by (intro elt_put_other) (auto simp: algebra_simps)
  qed
  have high: "elt ?w ?m1 j = elt ?w ?m j" if "Suc k + p \<le> j" "j < Suc n" for j
    using wr slot_le [OF that(2), of ?w] slot_le [of "k + p" j ?w] that(1) Suc.prems(5)
    by (intro elt_put_other) (auto simp: algebra_simps)
  have here: "elt ?w ?m1 (k + p) = ?v" using elt_put_same [OF wr w0 v] by simp
  have "elt ?w m (i + p) = elt c ?m i" if "i < Suc k" for i
    using that m(3,4) low here Suc.prems(4,6) by (cases "i = k") auto
  moreover have "elt ?w m j = elt ?w ?m j" if "Suc k + p \<le> j" "j < Suc n" for j
    using that m(4) high by simp
  ultimately show ?case using get set m(1,2) by (intro exI [of _ m]) simp
qed

lemma out_of_range:
  assumes "intset_wf is" and "encoding is < intsetValueEncoding v" and "x \<in> set (elements is)"
  shows "if v < 0 then v < x else x < v"
proof -
  have "\<not> fits (encoding is) v" using enc_least [of "encoding is" v] assms(1,2) by (auto simp: intset_wf_def)
  moreover have "fits (encoding is) x" by (rule elements_fit [OF assms(1,3)])
  ultimately show ?thesis unfolding fits_def by (simp split: if_splits) linarith
qed

lemma upgrade_ok:
  assumes wf: "intset_wf is" and v: "fits 8 v" and up: "encoding is < intsetValueEncoding v"
    and room: "Suc (is_length is) < INTSET_CAP"
  shows "\<exists>is'. intsetUpgradeAndAdd junk is v = Inr is' \<and> intset_wf is' \<and>
    elements is' = (if v < 0 then v # elements is else elements is @ [v])"
proof -
  let ?c = "encoding is" and ?w = "intsetValueEncoding v" and ?n = "is_length is"
  define p :: nat where "p = (if v < 0 then 1 else 0)"
  define m1 where "m1 = mem_realloc junk (contents is) (Suc ?n * ?w)"
  define is1 where "is1 = is\<lparr>encoding := ?w, contents := m1\<rparr>"
  have c: "?c \<in> {2, 4, 8}" and lm: "length (contents is) = ?n * ?c" and cap: "?n < INTSET_CAP"
    using wf by (auto simp: intset_wf_def)
  have w: "?w \<in> {2, 4, 8}" "0 < ?w" "0 < ?c" using enc_cases [of v] c by auto
  note len = wf_length [OF wf]
  have res: "intsetResize junk (is\<lparr>encoding := ?w\<rparr>) (Suc ?n) = Inr is1"
    using resize_ok [of "is\<lparr>encoding := ?w\<rparr>" "Suc ?n" junk] w room by (simp add: is1_def m1_def INTSET_CAP_def)
  have small: "Suc ?n mod 2 ^ 32 = Suc ?n" "s32 (int ?n) = int ?n" using room by (auto simp: INTSET_CAP_def s32_small)
  have "\<exists>m. upgrade_loop ?c (int p) ?n is1 = Inr (is1\<lparr>contents := m\<rparr>) \<and> length m = length (contents is1) \<and>
    (\<forall>i < ?n. elt (encoding is1) m (i + p) = elt ?c (contents is1) i) \<and>
    (\<forall>j. ?n + p \<le> j \<and> j < Suc ?n \<longrightarrow> elt (encoding is1) m j = elt (encoding is1) (contents is1) j)"
    using c w up by (intro upgrade_loop_ok) (auto simp: is1_def m1_def p_def)
  then obtain m where m: "upgrade_loop ?c (int p) ?n is1 = Inr (is1\<lparr>contents := m\<rparr>)" "length m = Suc ?n * ?w"
    "\<And>i. i < ?n \<Longrightarrow> elt ?w m (i + p) = elt ?c m1 i"
    by (auto simp: is1_def m1_def)
  have old: "elt ?c m1 i = elements is ! i" if "i < ?n" for i
    using slot_le [OF that, of ?c] lm that up mult_le_mono [of "i + 1" "Suc ?n" ?c ?w] unfolding elements_def m1_def
    by (simp only: nth_array [OF w(3) lm that]) (rule elt_realloc, auto)
  let ?q = "if v < 0 then 0 else ?n"
  have slot: "(?q + 1) * ?w \<le> length m" using m(2) by simp
  define m2 where "m2 = overwrite m (?q * ?w) (put_int ?w v)"
  have set: "intsetSet (is1\<lparr>contents := m\<rparr>) (int ?q) v = Inr (is1\<lparr>contents := m2\<rparr>)"
    using set_ok [of "is1\<lparr>contents := m\<rparr>" ?q v] w slot by (simp add: is1_def m2_def)
  have l2: "length m2 = Suc ?n * ?w" unfolding m2_def using slot m(2) by simp
  have q: "elt ?w m2 ?q = v" unfolding m2_def using elt_put_same [OF slot] w enc_fits [OF v] by simp
  have other: "elt ?w m2 (i + p) = elements is ! i" if "i < ?n" for i
  proof -
    have "elt ?w m2 (i + p) = elt ?w m (i + p)"
      unfolding m2_def using that slot m(2) slot_le [of "i + p" "Suc ?n" ?w] slot_le [of "i + p" ?q ?w]
      by (intro elt_put_other) (auto simp: p_def)
    with m(3) [OF that] old [OF that] show ?thesis by simp
  qed
  define is' where "is' = is1\<lparr>contents := m2, is_length := Suc ?n\<rparr>"
  have run: "intsetUpgradeAndAdd junk is v = Inr is'"
    using res small m(1) set
    by (cases "v < 0") (simp_all add: intsetUpgradeAndAdd_def Let_def p_def is'_def is1_def)
  have els: "elements is' = (if v < 0 then v # elements is else elements is @ [v])"
  proof -
    have "elt ?w m2 i = (if v < 0 then v # elements is else elements is @ [v]) ! i" if "i < Suc ?n" for i
    proof (cases "v < 0")
      case True
      with q other that show ?thesis by (cases i) (auto simp: p_def)
    next
      case False
      with q other that len show ?thesis by (cases "i = ?n") (auto simp: p_def nth_append)
    qed
    then have "array_of ?w m2 = (if v < 0 then v # elements is else elements is @ [v])"
      using w l2 len by (intro array_eqI) auto
    moreover have "elements is' = array_of ?w m2" by (simp add: elements_def is'_def is1_def)
    ultimately show ?thesis by simp
  qed
  moreover have "sorted_wrt (<) (elements is')"
    using wf out_of_range [OF wf up] unfolding els by (auto simp: intset_wf_def sorted_wrt_append)
  ultimately show ?thesis using run w l2 room by (auto simp: intset_wf_def is'_def is1_def)
qed

lemma add_ok:
  assumes wf: "intset_wf is" and v: "fits 8 v" and room: "Suc (is_length is) < INTSET_CAP"
  shows "\<exists>is'. intsetAdd junk is v = Inr (is', v \<notin> set (elements is)) \<and> intset_wf is' \<and>
    set (elements is') = insert v (set (elements is))"
proof (cases "encoding is < intsetValueEncoding v")
  case True
  from upgrade_ok [OF wf v True room, of junk] obtain is' where
    is': "intsetUpgradeAndAdd junk is v = Inr is'" "intset_wf is'"
      "elements is' = (if v < 0 then v # elements is else elements is @ [v])" by blast
  have "v \<notin> set (elements is)" using out_of_range [OF wf True, of v] by (auto split: if_splits)
  with True is' show ?thesis by (auto simp: intsetAdd_def)
next
  case False
  then have fit: "fits (encoding is) v" using enc_fits [OF v] fits_mono by (metis not_less)
  from search_ok [OF wf, of v] obtain found pos where
    s: "intsetSearch is v = Inr (found, pos)" "if found then pos < is_length is \<and> elements is ! pos = v
      else split_at v (elements is) pos" by blast
  show ?thesis
  proof (cases found)
    case True
    with s have "v \<in> set (elements is)" using wf_length [OF wf] by (metis nth_mem)
    with True s False wf show ?thesis by (auto simp: intsetAdd_def)
  next
    case nf: False
    with s have sp: "split_at v (elements is) pos" by simp
    from add_in_place [OF wf fit sp room, of junk] s nf False obtain is' where
      is': "intsetAdd junk is v = Inr (is', True)" "encoding is' = encoding is" "is_length is' = Suc (is_length is)"
        "length (contents is') = Suc (is_length is) * encoding is"
        "elements is' = take pos (elements is) @ v # drop pos (elements is)"
      by (auto simp: intsetAdd_def)
    have "set (elements is') = insert v (set (elements is))"
      unfolding is'(5) by (metis append_take_drop_id list.simps(15) set_append Un_insert_right)
    moreover have "intset_wf is'"
      using split_insert_sorted [OF _ sp] wf room is' by (simp add: intset_wf_def)
    ultimately show ?thesis using is'(1) split_not_mem [OF sp] by simp
  qed
qed

section \<open>Removing and reading\<close>

lemma remove_in_place:
  assumes wf: "intset_wf is" and pos: "pos < is_length is"
  shows "\<exists>is'. c_bind (if pos < is_length is - 1 then intsetMoveTail is (Suc pos mod 2 ^ 32) pos else Inr is) (\<lambda>is1.
       c_bind (intsetResize junk is1 (is_length is - 1)) (\<lambda>is2.
         Inr (is2\<lparr>is_length := is_length is - 1\<rparr>, True))) = Inr (is', True) \<and>
     encoding is' = encoding is \<and> is_length is' = is_length is - 1 \<and>
     length (contents is') = (is_length is - 1) * encoding is \<and>
     elements is' = take pos (elements is) @ drop (Suc pos) (elements is)"
proof -
  let ?e = "encoding is" and ?n = "is_length is" and ?m = "contents is"
  define m1 where "m1 = (if pos < ?n - 1 then overwrite ?m (pos * ?e) (take ((?n - Suc pos) * ?e) (drop (Suc pos * ?e) ?m)) else ?m)"
  define m2 where "m2 = mem_realloc junk m1 ((?n - 1) * ?e)"
  have e: "?e \<in> {2, 4, 8}" and lm: "length ?m = ?n * ?e" and cap: "?n < INTSET_CAP" using wf by (auto simp: intset_wf_def)
  then have e0: "0 < ?e" by auto
  note len = wf_length [OF wf]
  have small: "Suc pos mod 2 ^ 32 = Suc pos" using pos cap by (simp add: INTSET_CAP_def)
  have b: "(pos + (?n - Suc pos)) * ?e \<le> length ?m" using pos lm by simp
  have move: "(if pos < ?n - 1 then intsetMoveTail is (Suc pos) pos else Inr is) = Inr (is\<lparr>contents := m1\<rparr>)"
    using move_ok [OF e _ cap b] pos lm by (auto simp: m1_def)
  have "Suc pos * ?e + (?n - Suc pos) * ?e = ?n * ?e"
    using pos by (simp only: add_mult_distrib [symmetric]) simp
  then have "length (take ((?n - Suc pos) * ?e) (drop (Suc pos * ?e) ?m)) = (?n - Suc pos) * ?e" using lm by simp
  then have l1: "length m1 = ?n * ?e" using b lm unfolding m1_def add_mult_distrib by (simp only: length_overwrite simp_thms split: if_split)
  have res: "intsetResize junk (is\<lparr>contents := m1\<rparr>) (?n - 1) = Inr (is\<lparr>contents := m2\<rparr>)"
    using resize_ok [of "is\<lparr>contents := m1\<rparr>" "?n - 1" junk] e cap by (simp add: m2_def INTSET_CAP_def)
  have el: "elt ?e m2 i = (take pos (elements is) @ drop (Suc pos) (elements is)) ! i" if i: "i < ?n - 1" for i
  proof -
    have i': "i < ?n" "(i + 1) * ?e \<le> length ?m" using i slot_le [of i ?n ?e] lm by auto
    have old: "elt ?e ?m j = elements is ! j" if "j < ?n" for j
      unfolding elements_def by (rule nth_array [OF e0 lm that, symmetric])
    have "elt ?e (overwrite ?m (pos * ?e) (take ((?n - Suc pos) * ?e) (drop (Suc pos * ?e) ?m))) i =
        (if pos \<le> i \<and> i < pos + (?n - Suc pos) then elt ?e ?m (i - pos + Suc pos) else elt ?e ?m i)"
      using b i' pos lm by (intro elt_move) auto
    then have "elt ?e m1 i = (if pos \<le> i then elements is ! Suc i else elements is ! i)"
      using i old [of i] old [of "Suc i"] pos by (auto simp: m1_def)
    moreover have "elt ?e m2 i = elt ?e m1 i"
      unfolding m2_def using slot_le [OF i, of ?e] i' l1 lm by (intro elt_realloc) auto
    ultimately show ?thesis using pos i len by (auto simp: nth_append min_def)
  qed
  have "array_of ?e m2 = take pos (elements is) @ drop (Suc pos) (elements is)"
    using e0 el len pos by (intro array_eqI) (auto simp: m2_def)
  moreover have "elements (is\<lparr>contents := m2, is_length := ?n - 1\<rparr>) = array_of ?e m2" by (simp add: elements_def)
  ultimately show ?thesis using small move res by (auto simp: m2_def)
qed

lemma sorted_distinct: "sorted_wrt (<) (xs :: int list) \<Longrightarrow> distinct xs"
  by (simp add: strict_sorted_iff)

lemma remove_ok:
  assumes wf: "intset_wf is"
  shows "\<exists>is'. intsetRemove junk is v = Inr (is', v \<in> set (elements is)) \<and> intset_wf is' \<and>
    set (elements is') = set (elements is) - {v}"
proof (cases "encoding is < intsetValueEncoding v")
  case True
  then have "v \<notin> set (elements is)" using out_of_range [OF wf True, of v] by (auto split: if_splits)
  with True wf show ?thesis by (auto simp: intsetRemove_def)
next
  case False
  from search_ok [OF wf, of v] obtain found pos where
    s: "intsetSearch is v = Inr (found, pos)" "if found then pos < is_length is \<and> elements is ! pos = v
      else split_at v (elements is) pos" by blast
  show ?thesis
  proof (cases found)
    case nf: False
    with s split_not_mem show ?thesis using False wf by (auto simp: intsetRemove_def)
  next
    case True
    with s have pos: "pos < is_length is" and el: "elements is ! pos = v" by auto
    note len = wf_length [OF wf]
    have wr: "nat (wrap32 (int (is_length is) - 1)) = is_length is - 1"
      using pos wf by (subst wrap32_small) (auto simp: intset_wf_def INTSET_CAP_def)
    have "intsetRemove junk is v =
       c_bind (if pos < is_length is - 1 then intsetMoveTail is (Suc pos mod 2 ^ 32) pos else Inr is) (\<lambda>is1.
       c_bind (intsetResize junk is1 (is_length is - 1)) (\<lambda>is2. Inr (is2\<lparr>is_length := is_length is - 1\<rparr>, True)))"
      using False s(1) True by (simp only: intsetRemove_def c_bind_simps prod.case Let_def wr if_False simp_thms)
    with remove_in_place [OF wf pos, of junk] obtain is' where
      is': "intsetRemove junk is v = Inr (is', True)" "encoding is' = encoding is" "is_length is' = is_length is - 1"
        "length (contents is') = (is_length is - 1) * encoding is"
        "elements is' = take pos (elements is) @ drop (Suc pos) (elements is)"
      by metis
    have xs: "elements is = take pos (elements is) @ v # drop (Suc pos) (elements is)"
      using pos el len by (metis id_take_nth_drop)
    have sorted: "sorted_wrt (<) (elements is)" using wf by (simp add: intset_wf_def)
    from sorted_distinct [OF this] xs have "distinct (take pos (elements is) @ v # drop (Suc pos) (elements is))" by metis
    then have "set (elements is') = set (elements is) - {v}"
      using arg_cong [OF xs, of set] unfolding is'(5) by auto
    moreover have "sorted_wrt (<) (take pos (elements is) @ v # drop (Suc pos) (elements is))" using sorted xs by metis
    then have "intset_wf is'" using wf is' by (auto simp: intset_wf_def sorted_wrt_append)
    moreover have "v \<in> set (elements is)" using el pos len by auto
    ultimately show ?thesis using is'(1) by simp
  qed
qed

lemma find_ok: "intset_wf is \<Longrightarrow> intsetFind is v = Inr (v \<in> set (elements is))"
proof -
  assume wf: "intset_wf is"
  from search_ok [OF wf, of v] obtain found pos where
    s: "intsetSearch is v = Inr (found, pos)" "if found then pos < is_length is \<and> elements is ! pos = v
      else split_at v (elements is) pos" by blast
  have "found \<longleftrightarrow> v \<in> set (elements is)" using s(2) split_not_mem wf_length [OF wf] by (auto split: if_splits)
  moreover have "encoding is < intsetValueEncoding v \<Longrightarrow> v \<notin> set (elements is)"
    using out_of_range [OF wf, of v v] by (auto split: if_splits)
  ultimately show ?thesis using s(1) by (auto simp: intsetFind_def)
qed

section \<open>The contract of a set of integers\<close>

datatype set_op = Add int | Remove int | Find int

text \<open>Commands against an implementation, and against a mathematical set; each answers a truth value.\<close>

fun run_ops ::
  "('s \<Rightarrow> int \<Rightarrow> ('s \<times> bool) c_result) \<Rightarrow> ('s \<Rightarrow> int \<Rightarrow> ('s \<times> bool) c_result) \<Rightarrow> ('s \<Rightarrow> int \<Rightarrow> bool c_result) \<Rightarrow>
     set_op list \<Rightarrow> 's \<Rightarrow> ('s \<times> bool list) c_result" where
  "run_ops add rem has [] s = Inr (s, [])"
| "run_ops add rem has (Add v # ops) s =
     c_bind (add s v) (\<lambda>(s1, b). c_bind (run_ops add rem has ops s1) (\<lambda>(s2, bs). Inr (s2, b # bs)))"
| "run_ops add rem has (Remove v # ops) s =
     c_bind (rem s v) (\<lambda>(s1, b). c_bind (run_ops add rem has ops s1) (\<lambda>(s2, bs). Inr (s2, b # bs)))"
| "run_ops add rem has (Find v # ops) s =
     c_bind (has s v) (\<lambda>b. c_bind (run_ops add rem has ops s) (\<lambda>(s2, bs). Inr (s2, b # bs)))"

fun set_ops :: "set_op list \<Rightarrow> int set \<Rightarrow> int set \<times> bool list" where
  "set_ops [] A = (A, [])"
| "set_ops (Add v # ops) A = (case set_ops ops (insert v A) of (B, bs) \<Rightarrow> (B, (v \<notin> A) # bs))"
| "set_ops (Remove v # ops) A = (case set_ops ops (A - {v}) of (B, bs) \<Rightarrow> (B, (v \<in> A) # bs))"
| "set_ops (Find v # ops) A = (case set_ops ops A of (B, bs) \<Rightarrow> (B, (v \<in> A) # bs))"

fun op_value :: "set_op \<Rightarrow> int" where
  "op_value (Add v) = v"
| "op_value (Remove v) = v"
| "op_value (Find v) = v"

locale int_set =
  fixes add :: "'s \<Rightarrow> int \<Rightarrow> ('s \<times> bool) c_result"
    and rem :: "'s \<Rightarrow> int \<Rightarrow> ('s \<times> bool) c_result"
    and has :: "'s \<Rightarrow> int \<Rightarrow> bool c_result"
    and elems :: "'s \<Rightarrow> int set"
    and invar :: "'s \<Rightarrow> bool"
    and cap :: nat
  assumes finite_elems: "invar s \<Longrightarrow> finite (elems s)"
    and add_law: "invar s \<Longrightarrow> fits 8 v \<Longrightarrow> Suc (card (elems s)) < cap \<Longrightarrow>
      \<exists>s'. add s v = Inr (s', v \<notin> elems s) \<and> invar s' \<and> elems s' = insert v (elems s)"
    and rem_law: "invar s \<Longrightarrow> \<exists>s'. rem s v = Inr (s', v \<in> elems s) \<and> invar s' \<and> elems s' = elems s - {v}"
    and has_law: "invar s \<Longrightarrow> has s v = Inr (v \<in> elems s)"
begin

lemma run_ops_refines:
  "invar s \<Longrightarrow> \<forall>p \<in> set ops. fits 8 (op_value p) \<Longrightarrow> card (elems s) + length ops < cap \<Longrightarrow>
     \<exists>s'. run_ops add rem has ops s = Inr (s', snd (set_ops ops (elems s))) \<and> invar s' \<and> elems s' = fst (set_ops ops (elems s))"
proof (induction ops arbitrary: s)
  case Nil
  then show ?case by simp
next
  case (Cons p ops)
  note fin = finite_elems [OF Cons.prems(1)]
  show ?case
  proof (cases p)
    case (Add v)
    then obtain s1 where s1: "add s v = Inr (s1, v \<notin> elems s)" "invar s1" "elems s1 = insert v (elems s)"
      using add_law [OF Cons.prems(1), of v] Cons.prems by auto
    moreover have "card (elems s1) \<le> Suc (card (elems s))" using s1(3) fin by (simp add: card_insert_if)
    ultimately show ?thesis using Add Cons.IH [of s1] Cons.prems by (auto split: prod.splits)
  next
    case (Remove v)
    then obtain s1 where s1: "rem s v = Inr (s1, v \<in> elems s)" "invar s1" "elems s1 = elems s - {v}"
      using rem_law [OF Cons.prems(1), of v] by auto
    moreover have "card (elems s1) \<le> card (elems s)" using s1(3) fin by (simp add: card_mono)
    ultimately show ?thesis using Remove Cons.IH [of s1] Cons.prems by (auto split: prod.splits)
  next
    case (Find v)
    then show ?thesis using has_law [OF Cons.prems(1), of v] Cons.IH [of s] Cons.prems by (auto split: prod.splits)
  qed
qed

end

lemma wf_card: "intset_wf is \<Longrightarrow> card (set (elements is)) = is_length is"
  using sorted_distinct wf_length by (metis distinct_card intset_wf_def)

interpretation is_set: int_set "intsetAdd junk" "intsetRemove junk" intsetFind "\<lambda>is. set (elements is)" intset_wf INTSET_CAP
  for junk
  by unfold_locales (simp_all add: wf_card add_ok remove_ok find_ok)

lemma new_wf: "intset_wf intsetNew" "elements intsetNew = []"
  by (simp_all add: intset_wf_def intsetNew_def elements_def array_of_def intset_encs INTSET_CAP_def)

section \<open>Integrity of a serialized set\<close>

definition intset_blob :: "intset \<Rightarrow> byte list" where
  "intset_blob is = le_bytes 4 (encoding is) @ le_bytes 4 (is_length is) @ contents is"

lemma validate_loop_ok:
  assumes e: "encoding is \<in> {2, 4, 8}" and l: "length (contents is) = is_length is * encoding is" and cap: "is_length is < INTSET_CAP"
    and "0 < i" and "i \<le> is_length is"
  shows "validate_loop is (elements is ! (i - 1)) i = Inr (sorted_wrt (<) (drop (i - 1) (elements is)))"
  using assms(4,5)
proof (induction "is_length is - i" arbitrary: i)
  case 0
  have "0 < encoding is" using e by auto
  from length_array [OF this l] have len: "length (elements is) = is_length is" by (simp add: elements_def)
  with 0 have "drop (i - 1) (elements is) = [elements is ! (i - 1)]"
    by (metis Cons_nth_drop_Suc Suc_diff_1 diff_is_0_eq drop_all le_antisym lessI order_refl)
  with 0 show ?case by (simp add: validate_loop.simps)
next
  case (Suc k)
  have w0: "0 < encoding is" using e by auto
  from length_array [OF this l] have len: "length (elements is) = is_length is" by (simp add: elements_def)
  have i: "i < is_length is" using Suc.hyps(2) by simp
  have "elements is ! i = elt (encoding is) (contents is) i" unfolding elements_def by (rule nth_array [OF w0 l i])
  then have get: "intsetGet_at is (s32 (int i)) = Inr (elements is ! i)"
    using getEncoded_ok [OF e, of i "is"] slot_le [OF i, of "encoding is"] l i cap
    by (simp add: intsetGet_at_def s32_small INTSET_CAP_def)
  have d: "drop (i - 1) (elements is) = elements is ! (i - 1) # drop i (elements is)"
    "drop i (elements is) = elements is ! i # drop (Suc i) (elements is)"
    using Cons_nth_drop_Suc [of "i - 1" "elements is"] Cons_nth_drop_Suc [of i "elements is"] i len Suc.prems(1) by auto
  have IH: "validate_loop is (elements is ! i) (Suc i) = Inr (sorted_wrt (<) (drop i (elements is)))"
    using Suc.hyps(1) [of "Suc i"] Suc.hyps(2) i by simp
  show ?case
  proof (cases "elements is ! i \<le> elements is ! (i - 1)")
    case True
    then show ?thesis using i get d by (simp add: validate_loop.simps [of "is" _ i])
  next
    case False
    then have "sorted_wrt (<) (drop (i - 1) (elements is)) = sorted_wrt (<) (drop i (elements is))"
      unfolding d by auto
    with False show ?thesis using i get IH by (simp add: validate_loop.simps [of "is" _ i])
  qed
qed

lemma blob_header:
  assumes "encoding is < 2 ^ 32" and "is_length is < 2 ^ 32"
  shows "le_nat (take 4 (intset_blob is)) = encoding is" "le_nat (take 4 (drop 4 (intset_blob is))) = is_length is"
    "drop 8 (intset_blob is) = contents is" "length (intset_blob is) = 8 + length (contents is)"
  using assms by (simp_all add: intset_blob_def le_nat_le_bytes)

lemma blob_of_bytes:
  assumes "8 \<le> length p"
  shows "p = intset_blob \<lparr>encoding = le_nat (take 4 p), is_length = le_nat (take 4 (drop 4 p)), contents = drop 8 p\<rparr>"
proof -
  have "le_bytes 4 (le_nat (take 4 p)) = take 4 p" "le_bytes 4 (le_nat (take 4 (drop 4 p))) = take 4 (drop 4 p)"
    using assms le_bytes_le_nat [of "take 4 p"] le_bytes_le_nat [of "take 4 (drop 4 p)"] by auto
  moreover have "p = take 4 p @ take 4 (drop 4 p) @ drop 8 p"
    by (metis append_take_drop_id drop_drop numeral_Bit0)
  ultimately show ?thesis by (simp add: intset_blob_def)
qed

lemma validate_ok:
  assumes small: "length p < INTSET_CAP"
  shows "intsetValidateIntegrity p True = Inr (\<exists>is. p = intset_blob is \<and> intset_wf is \<and> is_length is \<noteq> 0)"
proof -
  define s where "s = \<lparr>encoding = le_nat (take 4 p), is_length = le_nat (take 4 (drop 4 p)), contents = drop 8 p\<rparr>"
  have uniq: "is = s \<and> 8 \<le> length p" if "p = intset_blob is" "intset_wf is" for "is"
    using that blob_header [of "is"] by (auto simp: s_def intset_wf_def INTSET_CAP_def)
  show ?thesis
  proof (cases "8 \<le> length p \<and> encoding s \<in> {2, 4, 8} \<and> 8 + is_length s * encoding s = length p \<and> is_length s \<noteq> 0")
    case False
    then have "\<not> (\<exists>is. p = intset_blob is \<and> intset_wf is \<and> is_length is \<noteq> 0)"
      using uniq blob_header(4) by (fastforce simp: intset_wf_def INTSET_CAP_def)
    with False show ?thesis unfolding intsetValidateIntegrity_def s_def [symmetric] Let_def by (auto simp: intset_encs)
  next
    case True
    then have e: "encoding s \<in> {2, 4, 8}" and l: "length (contents s) = is_length s * encoding s" and n: "0 < is_length s"
      by (auto simp: s_def)
    have "is_length s * 1 \<le> is_length s * encoding s" using e by (intro mult_le_mono2) auto
    then have cap: "is_length s < INTSET_CAP" using True small by linarith
    have w0: "0 < encoding s" using e by auto
    from length_array [OF this l] have len: "length (elements s) = is_length s" by (simp add: elements_def)
    have "elements s ! 0 = elt (encoding s) (contents s) 0" unfolding elements_def by (rule nth_array [OF w0 l n])
    then have "intsetGet_at s 0 = Inr (elements s ! 0)"
      using getEncoded_ok [OF e, of 0 s] l n by (simp add: intsetGet_at_def)
    then have run: "intsetValidateIntegrity p True = Inr (sorted_wrt (<) (elements s))"
      using True validate_loop_ok [OF e l cap, of 1] n
      unfolding intsetValidateIntegrity_def s_def [symmetric] Let_def by (auto simp: intset_encs)
    have "p = intset_blob s" using True blob_of_bytes by (simp add: s_def)
    then have "(\<exists>is. p = intset_blob is \<and> intset_wf is \<and> is_length is \<noteq> 0) \<longleftrightarrow> sorted_wrt (<) (elements s)"
      using uniq e l cap n by (auto simp: intset_wf_def)
    with run show ?thesis by simp
  qed
qed

section \<open>Properties\<close>

text \<open>
  C16.  The intset is a set of 64-bit integers: any sequence of fewer than \<open>2 ^ 29\<close> insertions, removals and
  lookups from the empty set runs without an access outside the buffer, answers every command as the
  mathematical set does, and leaves exactly its members, sorted.
\<close>

theorem intset_refines_set:
  assumes "\<forall>p \<in> set ops. - (2 ^ 63) \<le> op_value p \<and> op_value p < 2 ^ 63" and "length ops < 2 ^ 29"
  shows "\<exists>is. run_ops (intsetAdd junk) (intsetRemove junk) intsetFind ops intsetNew = Inr (is, snd (set_ops ops {})) \<and>
    elements is = sorted_list_of_set (fst (set_ops ops {})) \<and> intsetLen is = card (fst (set_ops ops {}))"
proof -
  have "\<forall>p \<in> set ops. fits 8 (op_value p)" using assms(1) by (simp add: fits_def)
  moreover have "card (set (elements intsetNew)) + length ops < INTSET_CAP" using assms(2) by (simp add: new_wf INTSET_CAP_def)
  ultimately obtain s where
    s: "run_ops (intsetAdd junk) (intsetRemove junk) intsetFind ops intsetNew = Inr (s, snd (set_ops ops {}))"
      "intset_wf s" "set (elements s) = fst (set_ops ops {})"
    using is_set.run_ops_refines [OF new_wf(1), of ops junk] by (auto simp: new_wf)
  have "sorted_wrt (<) (elements s)" using s(2) by (simp add: intset_wf_def)
  then have "elements s = sorted_list_of_set (set (elements s))"
    by (simp add: strict_sorted_equal sorted_list_of_set_unique)
  with s show ?thesis using wf_card [OF s(2)] by (auto simp: intsetLen_def)
qed

theorem intset_refines_set_witness:
  "\<exists>is. run_ops (intsetAdd (\<lambda>_. 0)) (intsetRemove (\<lambda>_. 0)) intsetFind [Add 5, Add 70000, Add 5, Remove 5, Find (- 1)] intsetNew
       = Inr (is, [True, True, False, True, False]) \<and> elements is = [70000] \<and> intsetLen is = 1"
  using intset_refines_set [of "[Add 5, Add 70000, Add 5, Remove 5, Find (- 1)]" "\<lambda>_. 0"] by (simp add: insert_Diff_if)

text \<open>
  C17.  On a nonempty set, \<^verbatim>\<open>intsetMin\<close> and \<^verbatim>\<open>intsetMax\<close> are its least and
  greatest members, \<^verbatim>\<open>intsetGet\<close> enumerates the members in order and stops at the length, and
  \<^verbatim>\<open>intsetRandom\<close> returns a member for every value of \<^verbatim>\<open>rand()\<close>.
\<close>

theorem intset_readers:
  assumes "intset_wf is" and "is_length is \<noteq> 0"
  shows "intsetMin is = Inr (Min (set (elements is))) \<and> intsetMax is = Inr (Max (set (elements is))) \<and>
    intsetGet is pos = Inr (if pos < intsetLen is then Some (sorted_list_of_set (set (elements is)) ! pos) else None) \<and>
    (\<exists>x \<in> set (elements is). intsetRandom r is = Inr x)"
proof -
  let ?n = "is_length is"
  note len = wf_length [OF assms(1)]
  have n: "0 < ?n" "?n < 2 ^ 29" and sorted: "sorted_wrt (<) (elements is)"
    using assms by (auto simp: intset_wf_def INTSET_CAP_def)
  have small: "s32 (int i) = int i" if "i < ?n" for i using that n by (simp add: s32_small)
  have "wrap32 (int ?n - 1) = int (?n - 1)" using n by (subst wrap32_small) (auto simp: of_nat_diff)
  then have "s32 (wrap32 (int ?n - 1)) = int (?n - 1)" using small [of "?n - 1"] n(1) by simp
  then have mx: "intsetGet_at is (s32 (wrap32 (int ?n - 1))) = Inr (elements is ! (?n - 1))"
    using get_ok [OF assms(1), of "?n - 1"] n(1) by simp
  have "Min (set (elements is)) = elements is ! 0"
    using sorted_nth_le [OF sorted, of 0] len n(1) by (intro Min_eqI) (auto simp: in_set_conv_nth)
  moreover have "Max (set (elements is)) = elements is ! (?n - 1)"
    using sorted_nth_le [OF sorted, of _ "?n - 1"] len n(1)
    by (intro Max_eqI) (auto simp: in_set_conv_nth intro: exI [of _ "?n - 1"])
  moreover have "sorted_list_of_set (set (elements is)) = elements is"
    using sorted by (simp add: strict_sorted_equal sorted_list_of_set_unique)
  moreover have "r mod ?n < ?n" using n(1) by simp
  ultimately show ?thesis
    using get_ok [OF assms(1)] small mx n(1) len
    by (auto simp: intsetMin_def intsetMax_def intsetGet_def intsetRandom_def intsetLen_def
        get_ok [OF assms(1), of 0, simplified])
qed

definition ex_intset :: intset where
  "ex_intset = \<lparr>encoding = 2, is_length = 2, contents = put_int 2 (- 7) @ put_int 2 300\<rparr>"

lemma ex_intset_elements: "elements ex_intset = [- 7, 300]"
proof -
  have "elt 2 (put_int 2 (- 7) @ put_int 2 300) 0 = - 7" "elt 2 (put_int 2 (- 7) @ put_int 2 300) 1 = 300"
    by (simp_all add: elt_def get_put_int_fits fits_def)
  then show ?thesis by (simp add: elements_def ex_intset_def array_of_def upt_rec)
qed

lemma ex_intset_wf: "intset_wf ex_intset"
  unfolding intset_wf_def ex_intset_elements by (simp add: ex_intset_def INTSET_CAP_def)

theorem intset_readers_witness:
  "intsetMin ex_intset = Inr (- 7) \<and> intsetMax ex_intset = Inr 300 \<and> intsetGet ex_intset 1 = Inr (Some 300)"
  using intset_readers [OF ex_intset_wf, of 1] unfolding ex_intset_elements by (simp add: ex_intset_def intsetLen_def)

text \<open>
  C18.  The deep integrity check accepts a payload (of less than 512 MB) exactly if it is the memory
  image of a well-formed nonempty intset, and never reads outside the payload, however corrupt it is.
\<close>

theorem intsetValidateIntegrity_exact:
  assumes "length p < 2 ^ 29"
  shows "intsetValidateIntegrity p True = Inr (\<exists>is. p = intset_blob is \<and> intset_wf is \<and> is_length is \<noteq> 0)"
  using validate_ok [of p] assms by (simp add: INTSET_CAP_def)

theorem intsetValidateIntegrity_exact_witness:
  "intsetValidateIntegrity (intset_blob ex_intset) True = Inr True \<and> intsetValidateIntegrity [2, 0, 0, 0, 255, 0, 0, 0] True \<noteq> Inr True"
proof
  have "\<exists>is. intset_blob ex_intset = intset_blob is \<and> intset_wf is \<and> is_length is \<noteq> 0"
    using ex_intset_wf by (intro exI [of _ ex_intset]) (simp add: ex_intset_def)
  then show "intsetValidateIntegrity (intset_blob ex_intset) True = Inr True"
    using intsetValidateIntegrity_exact [of "intset_blob ex_intset"] by (simp add: ex_intset_def intset_blob_def)
  show "intsetValidateIntegrity [2, 0, 0, 0, 255, 0, 0, 0] True \<noteq> Inr True"
    by (simp add: intsetValidateIntegrity_def intset_encs)
qed

text \<open>
  C19.  The limit of C16 is real: with \<open>2 ^ 29\<close> 64-bit members the byte count of
  \<^verbatim>\<open>intsetMoveTail\<close> wraps to 0 and nothing is moved, so an insertion at the front overwrites a
  member.  \<^verbatim>\<open>t_set.c\<close> allows intsets of up to \<open>2 ^ 30\<close> members.
\<close>

theorem intsetMoveTail_wraps:
  assumes "encoding is = 8" and "is_length is = 2 ^ 29" and "length (contents is) = 8 * (2 ^ 29 + 1)"
  shows "intsetMoveTail is 0 1 = Inr is"
proof -
  have "overwrite (contents is) 8 [] = contents is" by (simp add: overwrite_def)
  then show ?thesis using assms
    by (simp add: intsetMoveTail_def enc_width_def intset_encs mem_move_def mem_get_def mem_put_def)
qed

theorem intsetMoveTail_wraps_witness:
  "intsetMoveTail \<lparr>encoding = 8, is_length = 2 ^ 29, contents = replicate (8 * (2 ^ 29 + 1)) 0\<rparr> 0 1 =
    Inr \<lparr>encoding = 8, is_length = 2 ^ 29, contents = replicate (8 * (2 ^ 29 + 1)) 0\<rparr>"
  by (rule intsetMoveTail_wraps) (simp_all only: intset.select_convs length_replicate)

end
