(* ===== verification/Redis_Glob.thy ===== *)
theory Redis_Glob
  imports Prelude
begin

text \<open>
  Glob-style matching of keys and channels, \<^verbatim>\<open>stringmatchlen\<close> of
  \<^verbatim>\<open>redis-7.2.4/src/util.c\<close>.  Patterns are Redis strings, which a NUL byte follows; every
  read at the end of the pattern sees it.
\<close>

section \<open>The code\<close>

definition at :: "string \<Rightarrow> nat \<Rightarrow> char" where
  "at p k = (if k < length p then p ! k else CHR 0x00)"

text \<open>A \<^verbatim>\<open>char\<close> promoted to \<^verbatim>\<open>int\<close>, and \<^verbatim>\<open>tolower\<close> in the C locale.\<close>

definition char_int :: "char \<Rightarrow> int" where
  "char_int c = (let n = of_char c in if n < 128 then n else n - 256)"

definition tolower :: "int \<Rightarrow> int" where
  "tolower c = (if 65 \<le> c \<and> c \<le> 90 then c + 32 else c)"

definition same_char :: "bool \<Rightarrow> char \<Rightarrow> char \<Rightarrow> bool" where
  "same_char nocase a b = (if \<not> nocase then a = b else tolower (char_int a) = tolower (char_int b))"

definition in_range :: "bool \<Rightarrow> char \<Rightarrow> char \<Rightarrow> char \<Rightarrow> bool" where
  "in_range nocase a b c =
     (let start = min (char_int a) (char_int b); end = max (char_int a) (char_int b); v = char_int c
      in if nocase then tolower start \<le> tolower v \<and> tolower v \<le> tolower end else start \<le> v \<and> v \<le> end)"

text \<open>
  The loop over a bracket expression: whether something matched, and the pattern at the point where the
  loop stops, still to be advanced by one.  At the end of the pattern the code steps back by one, so
  that the advance leads to the end again; the model returns a one-character rest there.
\<close>

function bracket :: "bool \<Rightarrow> string \<Rightarrow> char \<Rightarrow> bool \<Rightarrow> bool \<times> string" where
  "bracket nocase p c match =
     (if at p 0 = CHR 0x5C \<and> 2 \<le> length p then bracket nocase (drop 2 p) c (match \<or> at p 1 = c)
      else if at p 0 = CHR '']'' then (match, p)
      else if length p = 0 then (match, [CHR 0x00])
      else if 3 \<le> length p \<and> at p 1 = CHR ''-'' then bracket nocase (drop 3 p) c (match \<or> in_range nocase (at p 0) (at p 2) c)
      else bracket nocase (drop 1 p) c (match \<or> same_char nocase (at p 0) c))"
  by pat_completeness auto
termination
  by (relation "measure (\<lambda>(nocase, p, c, m). length p)") auto

declare bracket.simps [simp del]

text \<open>
  One turn of the outer switch on a pattern that does not start with a star: whether the character
  matches, and the pattern after the turn.
\<close>

definition token :: "bool \<Rightarrow> string \<Rightarrow> char \<Rightarrow> bool \<times> string" where
  "token nocase p c =
     (if at p 0 = CHR ''?'' then (True, drop 1 p)
      else if at p 0 = CHR ''['' then
        let q = drop 1 p; neg = (at q 0 = CHR 0x5E); q = (if neg then drop 1 q else q);
            (match, r) = bracket nocase q c False
        in (match \<noteq> neg, drop 1 r)
      else let q = (if at p 0 = CHR 0x5C \<and> 2 \<le> length p then drop 1 p else p)
           in (same_char nocase (at q 0) c, drop 1 q))"

fun skip_stars :: "string \<Rightarrow> string" where
  "skip_stars (CHR ''*'' # p) = skip_stars p"
| "skip_stars p = p"

lemma bracket_length: "length (snd (bracket nocase p c m)) \<le> max 1 (length p)"
proof (induction nocase p c m rule: bracket.induct)
  case (1 nocase p c m)
  show ?case
    using 1 by (cases "p = []") (auto simp: bracket.simps [of nocase p c m] bracket.simps [of nocase "[]"])
qed

lemma token_length: "p \<noteq> [] \<Longrightarrow> length (snd (token nocase p c)) < length p"
  using bracket_length [of nocase "drop 1 p" c False] bracket_length [of nocase "drop 2 p" c False]
  by (cases p) (auto simp: token_def Let_def at_def split: prod.splits)

lemma skip_stars_length: "length (skip_stars p) \<le> length p"
  by (induction p rule: skip_stars.induct) auto

text \<open>
  \<^verbatim>\<open>stringmatchlen_impl\<close>: the result and the flag \<^verbatim>\<open>*skipLongerMatches\<close> at
  return.  The flag is always clear at a call.  \<open>star_loop\<close> is the inner loop of the star case.
\<close>

function stringmatchlen_impl :: "bool \<Rightarrow> string \<Rightarrow> string \<Rightarrow> bool \<times> bool"
  and star_loop :: "bool \<Rightarrow> string \<Rightarrow> string \<Rightarrow> bool \<times> bool" where
  "stringmatchlen_impl nocase p s =
     (if p = [] \<or> s = [] then (p = [] \<and> s = [], False)
      else if at p 0 = CHR ''*'' then
        let q = skip_stars (drop 1 p) in if q = [] then (True, False) else star_loop nocase q s
      else let (ok, r) = token nocase p (hd s)
           in if \<not> ok then (False, False)
              else if tl s = [] then (skip_stars r = [], False)
              else stringmatchlen_impl nocase r (tl s))"
| "star_loop nocase q s =
     (if s = [] then (False, True)
      else let (res, skip) = stringmatchlen_impl nocase q s
           in if res then (True, skip) else if skip then (False, True) else star_loop nocase q (tl s))"
  by pat_completeness auto
termination
proof (relation "measures [\<lambda>x. case x of Inl (n, p, s) \<Rightarrow> length p | Inr (n, p, s) \<Rightarrow> length p,
    \<lambda>x. case x of Inl (n, p, s) \<Rightarrow> 2 * length s | Inr (n, p, s) \<Rightarrow> Suc (2 * length s)]", goal_cases)
  case (2 nocase p s q)
  then show ?case using skip_stars_length [of "drop 1 p"] by (cases p) auto
next
  case (3 nocase p s x ok r)
  then have "r = snd (token nocase p (hd s))" by (metis snd_conv)
  with 3 show ?case using token_length [of p nocase "hd s"] by simp
qed auto

declare stringmatchlen_impl.simps [simp del] star_loop.simps [simp del]

definition stringmatchlen :: "string \<Rightarrow> string \<Rightarrow> bool \<Rightarrow> bool" where
  "stringmatchlen pattern str nocase = fst (stringmatchlen_impl nocase pattern str)"

text \<open>\<^verbatim>\<open>stringmatch\<close> takes C strings, which end at the first NUL.\<close>

definition stringmatch :: "string \<Rightarrow> string \<Rightarrow> bool \<Rightarrow> bool" where
  "stringmatch pattern str nocase = stringmatchlen (cstr pattern) (cstr str) nocase"

section \<open>The meaning of a pattern\<close>

text \<open>A star stands for any string; every other token for one character.\<close>

function glob :: "bool \<Rightarrow> string \<Rightarrow> string \<Rightarrow> bool" where
  "glob nocase p s =
     (if p = [] then s = []
      else if at p 0 = CHR ''*'' then glob nocase (drop 1 p) s \<or> (if s = [] then False else glob nocase p (tl s))
      else if s = [] then False
      else fst (token nocase p (hd s)) \<and> glob nocase (snd (token nocase p (hd s))) (tl s))"
  by pat_completeness auto
termination
  by (relation "measures [\<lambda>(n, p, s). length p, \<lambda>(n, p, s). length s]") (auto simp: token_length)

declare glob.simps [simp del]

lemma glob_empty_pattern [simp]: "glob nocase [] s \<longleftrightarrow> s = []"
  by (simp add: glob.simps)

lemma glob_star: "glob nocase (CHR ''*'' # p) s \<longleftrightarrow> (\<exists>k \<le> length s. glob nocase p (drop k s))"
proof (induction s)
  case Nil
  then show ?case by (subst glob.simps) (simp add: at_def)
next
  case (Cons c s)
  have "(\<exists>k \<le> length (c # s). glob nocase p (drop k (c # s))) \<longleftrightarrow>
      glob nocase p (c # s) \<or> (\<exists>k \<le> length s. glob nocase p (drop k s))"
    by (metis (no_types, lifting) drop0 drop_Suc_Cons le0 length_Cons not0_implies_Suc not_less_eq_eq)
  with Cons show ?case by (subst glob.simps) (simp add: at_def)
qed

lemma glob_token:
  "p \<noteq> [] \<Longrightarrow> at p 0 \<noteq> CHR ''*'' \<Longrightarrow>
     glob nocase p s \<longleftrightarrow> s \<noteq> [] \<and> fst (token nocase p (hd s)) \<and> glob nocase (snd (token nocase p (hd s))) (tl s)"
  by (subst glob.simps) simp

lemma glob_empty_string: "glob nocase p [] \<longleftrightarrow> skip_stars p = []"
proof (induction p rule: skip_stars.induct)
  case (1 p)
  then show ?case by (simp add: glob_star)
qed (auto simp: glob_token at_def)

lemma glob_skip_stars: "glob nocase (CHR ''*'' # skip_stars p) s \<longleftrightarrow> glob nocase (CHR ''*'' # p) s"
proof (induction p rule: skip_stars.induct)
  case (1 p)
  have "(\<exists>k \<le> length s. \<exists>j \<le> length (drop k s). glob nocase p (drop j (drop k s))) \<longleftrightarrow> (\<exists>k \<le> length s. glob nocase p (drop k s))"
  proof
    assume "\<exists>k \<le> length s. \<exists>j \<le> length (drop k s). glob nocase p (drop j (drop k s))"
    then obtain k j where "k \<le> length s" "j \<le> length s - k" "glob nocase p (drop (j + k) s)" by auto
    then show "\<exists>k \<le> length s. glob nocase p (drop k s)" by (intro exI [of _ "j + k"]) auto
  next
    assume "\<exists>k \<le> length s. glob nocase p (drop k s)"
    then obtain k where "k \<le> length s" "glob nocase p (drop k s)" by blast
    then show "\<exists>k \<le> length s. \<exists>j \<le> length (drop k s). glob nocase p (drop j (drop k s))"
      by (intro exI [of _ k]) (auto intro: exI [of _ 0])
  qed
  with 1 show ?case by (simp add: glob_star)
qed auto

lemma skip_stars_no_star: "skip_stars p \<noteq> [] \<Longrightarrow> at (skip_stars p) 0 \<noteq> CHR ''*''"
  by (induction p rule: skip_stars.induct) (auto simp: at_def)

section \<open>The early exit is sound\<close>

text \<open>
  The flag is returned only with a failure, and then no suffix of the string matches either; this is why
  the loops of earlier stars may give up.
\<close>

definition no_suffix :: "bool \<Rightarrow> string \<Rightarrow> string \<Rightarrow> bool" where
  "no_suffix nocase p s \<longleftrightarrow> (\<forall>k \<le> length s. \<not> glob nocase p (drop k s))"

lemma no_suffix_Cons: "no_suffix nocase p (c # s) \<longleftrightarrow> \<not> glob nocase p (c # s) \<and> no_suffix nocase p s"
  unfolding no_suffix_def
  by (metis (no_types, lifting) drop0 drop_Suc_Cons le0 length_Cons not0_implies_Suc not_less_eq_eq)

lemma no_suffix_glob: "no_suffix nocase p s \<longleftrightarrow> \<not> glob nocase (CHR ''*'' # p) s"
  by (simp add: no_suffix_def glob_star)

lemma no_suffix_star: "no_suffix nocase (CHR ''*'' # p) s \<longleftrightarrow> no_suffix nocase p s"
  using glob_skip_stars [of nocase p s] glob_skip_stars [of nocase "CHR ''*'' # p" s] by (simp add: no_suffix_glob)

text \<open>What a token leaves of the pattern does not depend on the character.\<close>

lemma bracket_rest: "snd (bracket nocase p c m) = snd (bracket nocase p c' m')"
proof (induction nocase p c m arbitrary: m' rule: bracket.induct)
  case (1 nocase p c m)
  then show ?case by (simp add: bracket.simps [of nocase p c m] bracket.simps [of nocase p c' m'])
qed

lemma token_rest: "snd (token nocase p c) = snd (token nocase p c')"
  using bracket_rest [of nocase _ c False c' False] by (auto simp: token_def Let_def split: prod.splits) (metis snd_conv)+

lemma no_suffix_token:
  assumes "p \<noteq> []" and "at p 0 \<noteq> CHR ''*''" and "no_suffix nocase (snd (token nocase p c)) s"
  shows "no_suffix nocase p s"
  using assms(3)
proof (induction s)
  case Nil
  then show ?case using assms(1,2) by (simp add: no_suffix_def glob_token)
next
  case (Cons d s)
  then have ns: "no_suffix nocase (snd (token nocase p d)) s"
    using token_rest [of nocase p c d] by (simp add: no_suffix_Cons)
  then have "\<not> glob nocase (snd (token nocase p d)) s" by (auto simp: no_suffix_def dest: spec [of _ 0])
  with Cons show ?case using assms(1,2) by (simp add: no_suffix_Cons glob_token)
qed

lemma impl_ok:
  "(s \<noteq> [] \<longrightarrow> fst (stringmatchlen_impl nocase p s) = glob nocase p s) \<and>
     (snd (stringmatchlen_impl nocase p s) \<longrightarrow> \<not> fst (stringmatchlen_impl nocase p s) \<longrightarrow> no_suffix nocase p s)"
  "q \<noteq> [] \<Longrightarrow> at q 0 \<noteq> CHR ''*'' \<Longrightarrow>
     fst (star_loop nocase q s) = glob nocase (CHR ''*'' # q) s \<and>
     (\<not> fst (star_loop nocase q s) \<longrightarrow> no_suffix nocase q s)"
proof (induction nocase p s and nocase q s rule: stringmatchlen_impl_star_loop.induct)
  case (1 nocase p s)
  note unf = stringmatchlen_impl.simps [of nocase p s]
  consider "p = [] \<or> s = []" | "p \<noteq> []" "s \<noteq> []" "at p 0 = CHR ''*''" | "p \<noteq> []" "s \<noteq> []" "at p 0 \<noteq> CHR ''*''" by blast
  then show ?case
  proof cases
    case 1
    then show ?thesis by (auto simp: unf)
  next
    case 2
    then obtain p' where p: "p = CHR ''*'' # p'" by (cases p) (auto simp: at_def)
    let ?q = "skip_stars p'"
    show ?thesis
    proof (cases "?q = []")
      case True
      have "glob nocase p s \<longleftrightarrow> glob nocase [CHR ''*''] s" using glob_skip_stars [of nocase p' s] True p by simp
      then have "glob nocase p s" by (auto simp: glob_star intro: exI [of _ "length s"])
      moreover have "stringmatchlen_impl nocase p s = (True, False)" unfolding unf using 2 True p by simp
      ultimately show ?thesis by simp
    next
      case False
      have "stringmatchlen_impl nocase p s = star_loop nocase ?q s" unfolding unf using 2 False p by simp
      moreover have "glob nocase p s \<longleftrightarrow> glob nocase (CHR ''*'' # ?q) s" using glob_skip_stars [of nocase p' s] p by simp
      moreover have "no_suffix nocase p s \<longleftrightarrow> no_suffix nocase ?q s"
        using glob_skip_stars [of nocase p'] p no_suffix_star [of nocase ?q s] by (simp add: no_suffix_def)
      ultimately show ?thesis using "1.IH"(1) [of ?q] 2 False p skip_stars_no_star [OF False] by simp
    qed
  next
    case 3
    obtain ok r where t: "token nocase p (hd s) = (ok, r)" by fastforce
    have g: "glob nocase p s \<longleftrightarrow> ok \<and> glob nocase r (tl s)" using 3 t by (simp add: glob_token)
    show ?thesis
    proof (cases "ok \<and> tl s \<noteq> []")
      case True
      then have "stringmatchlen_impl nocase p s = stringmatchlen_impl nocase r (tl s)" using 3 t by (simp add: unf)
      moreover have "no_suffix nocase r (tl s) \<Longrightarrow> \<not> glob nocase p s \<Longrightarrow> no_suffix nocase p s"
        using no_suffix_token [of p nocase "hd s" "tl s"] 3 t by (cases s) (auto simp: no_suffix_Cons)
      ultimately show ?thesis using "1.IH"(2) [of "(ok, r)" ok r] 3 t True g by auto
    next
      case False
      then show ?thesis using 3 t g by (auto simp: unf glob_empty_string)
    qed
  qed
next
  case (2 nocase q s)
  note unf = star_loop.simps [of nocase q s]
  show ?case
  proof (cases s)
    case Nil
    then have "star_loop nocase q s = (False, True)" unfolding unf by simp
    with Nil show ?thesis using 2 by (auto simp: glob_star no_suffix_def glob_token)
  next
    case (Cons c s')
    obtain res skip where r: "stringmatchlen_impl nocase q s = (res, skip)" by fastforce
    have IH: "res = glob nocase q s" "skip \<Longrightarrow> \<not> res \<Longrightarrow> no_suffix nocase q s" using "2.IH"(1) 2 Cons r by auto
    have star: "glob nocase (CHR ''*'' # q) s \<longleftrightarrow> glob nocase q s \<or> glob nocase (CHR ''*'' # q) s'"
      using Cons by (subst glob.simps) (simp add: at_def)
    have none: "no_suffix nocase q s \<Longrightarrow> \<not> glob nocase (CHR ''*'' # q) s"
      by (simp add: glob_star no_suffix_def)
    show ?thesis
    proof (cases "\<not> res \<and> \<not> skip")
      case True
      then have "star_loop nocase q s = star_loop nocase q s'" unfolding unf using Cons r by simp
      with True show ?thesis using "2.IH"(2) [of "(res, skip)" res skip] 2 Cons r IH star by (simp add: no_suffix_Cons)
    next
      case False
      then have "star_loop nocase q s = (res, skip)" unfolding unf using Cons r by auto
      with False show ?thesis using IH star none by auto
    qed
  qed
qed

section \<open>Properties\<close>

text \<open>
  C20.  On every nonempty string the matcher decides exactly the meaning of the pattern, a star
  standing for any string and every other token for one character: cutting the search short with
  \<^verbatim>\<open>skipLongerMatches\<close> never loses a match.
\<close>

theorem stringmatchlen_glob:
  assumes "s \<noteq> []"
  shows "stringmatchlen p s nocase \<longleftrightarrow> glob nocase p s"
  using impl_ok(1) [of s nocase p] assms by (simp add: stringmatchlen_def)

theorem stringmatchlen_glob_witness:
  "stringmatchlen ''h*l[a-o]'' ''hello'' False \<and> \<not> stringmatchlen ''h*l[^a-o]'' ''hello'' False \<and> stringmatchlen ''H?LL*'' ''hello'' True"
proof -
  have "glob False ''h*l[a-o]'' ''hello''" by code_simp
  moreover have "\<not> glob False ''h*l[^a-o]'' ''hello''" by code_simp
  moreover have "glob True ''H?LL*'' ''hello''" by code_simp
  ultimately show ?thesis using stringmatchlen_glob [of "''hello''"] by simp
qed


end
