(* ===== verification/Redis_Util.thy ===== *)
theory Redis_Util
  imports Redis_Mem
begin

text \<open>
  Numbers and strings, \<^verbatim>\<open>redis-7.2.4/src/util.c\<close>: the fast conversions between decimal
  strings and 64-bit integers that decide which encoding every Redis value gets, and sizes with units.
\<close>

section \<open>The code\<close>

definition ULLONG_MAX :: nat where "ULLONG_MAX = 2 ^ 64 - 1"
definition LLONG_MAX :: nat where "LLONG_MAX = 2 ^ 63 - 1"
definition LLONG_MIN :: int where "LLONG_MIN = - (2 ^ 63)"
definition LONG_STR_SIZE :: nat where "LONG_STR_SIZE = 21"

function digits10 :: "nat \<Rightarrow> nat" where
  "digits10 v =
     (if v < 10 then 1
      else if v < 100 then 2
      else if v < 1000 then 3
      else if v < 1000000000000 then
        if v < 100000000 then
          if v < 1000000 then if v < 10000 then 4 else 5 + of_bool (v \<ge> 100000)
          else 7 + of_bool (v \<ge> 10000000)
        else if v < 10000000000 then 9 + of_bool (v \<ge> 1000000000)
        else 11 + of_bool (v \<ge> 100000000000)
      else 12 + digits10 (v div 1000000000000))"
  by pat_completeness auto
termination
  by (relation "measure id") auto

declare digits10.simps [simp del]

definition sdigits10 :: "int \<Rightarrow> nat" where
  "sdigits10 v =
     (if v < 0 then let uv = (if v \<noteq> LLONG_MIN then nat (- v) else LLONG_MAX + 1) in digits10 uv + 1
      else digits10 (nat v))"

text \<open>The table of two-digit numbers.\<close>

definition digits_table :: string where
  "digits_table =
     ''0001020304050607080910111213141516171819'' @
     ''2021222324252627282930313233343536373839'' @
     ''4041424344454647484950515253545556575859'' @
     ''6061626364656667686970717273747576777879'' @
     ''8081828384858687888990919293949596979899''"

definition set_char :: "string \<Rightarrow> int \<Rightarrow> char \<Rightarrow> string c_result" where
  "set_char dst i c = (if 0 \<le> i \<and> i < int (length dst) then Inr (dst[nat i := c]) else Inl OutOfBounds)"

text \<open>The loop with the handling of the last digits after it; \<^verbatim>\<open>next\<close> is a \<^verbatim>\<open>uint32_t\<close>.\<close>

function ull2string_loop :: "string \<Rightarrow> int \<Rightarrow> nat \<Rightarrow> string c_result" where
  "ull2string_loop dst nxt v =
     (if 100 \<le> v then
        let i = (v mod 100) * 2
        in c_bind (set_char dst nxt (digits_table ! (i + 1))) (\<lambda>dst1.
           c_bind (set_char dst1 (wrap32 (nxt - 1)) (digits_table ! i)) (\<lambda>dst2.
             ull2string_loop dst2 (wrap32 (nxt - 2)) (v div 100)))
      else if v < 10 then set_char dst nxt (char_of (48 + v))
      else let i = v * 2
           in c_bind (set_char dst nxt (digits_table ! (i + 1))) (\<lambda>dst1.
                set_char dst1 (wrap32 (nxt - 1)) (digits_table ! i)))"
  by pat_completeness auto
termination
  by (relation "measure (\<lambda>(dst, nxt, v). v)") auto

declare ull2string_loop.simps [simp del]

text \<open>On failure the buffer gets a terminating NUL if it has room for one, and the result is 0.\<close>

definition terminate_empty :: "string \<Rightarrow> (string \<times> nat) c_result" where
  "terminate_empty dst = (if 0 < length dst then c_bind (set_char dst 0 CHR 0x00) (\<lambda>d. Inr (d, 0)) else Inr (dst, 0))"

definition ull2string :: "string \<Rightarrow> nat \<Rightarrow> (string \<times> nat) c_result" where
  "ull2string dst v =
     (let len = digits10 v
      in if length dst \<le> len then terminate_empty dst
         else c_bind (set_char dst (int len) CHR 0x00) (\<lambda>dst1.
              c_bind (ull2string_loop dst1 (int len - 1) v) (\<lambda>dst2. Inr (dst2, len))))"

definition ll2string :: "string \<Rightarrow> int \<Rightarrow> (string \<times> nat) c_result" where
  "ll2string dst svalue =
     (if svalue < 0 then
        let v = (if svalue \<noteq> LLONG_MIN then nat (- svalue) else LLONG_MAX + 1)
        in if length dst < 2 then terminate_empty dst
           else c_bind (ull2string (tl dst) v) (\<lambda>(d, len).
                  Inr (CHR ''-'' # d, if len = 0 then 0 else len + 1))
      else c_bind (ull2string dst (nat svalue)) (\<lambda>(d, len). Inr (d, if len = 0 then 0 else len)))"

text \<open>The digit loop: overflow aborts, and any byte left over makes the string invalid.\<close>

fun string2ll_loop :: "nat \<Rightarrow> string \<Rightarrow> nat option" where
  "string2ll_loop v [] = Some v"
| "string2ll_loop v (c # p) =
     (if is_digit c then
        if ULLONG_MAX div 10 < v then None
        else if ULLONG_MAX - digit_val c < v * 10 then None
        else string2ll_loop (v * 10 + digit_val c) p
      else None)"

definition string2ll :: "string \<Rightarrow> int option" where
  "string2ll s =
     (if s = [] \<or> LONG_STR_SIZE \<le> length s then None
      else if s = ''0'' then Some 0
      else let negative = (hd s = CHR ''-''); p = (if negative then tl s else s)
           in if p = [] then None
              else if \<not> (is_digit (hd p) \<and> hd p \<noteq> CHR ''0'') then None
              else case string2ll_loop (digit_val (hd p)) (tl p) of
                     None \<Rightarrow> None
                   | Some v \<Rightarrow>
                       if negative then if LLONG_MAX + 1 < v then None else Some (- int v)
                       else if LLONG_MAX < v then None else Some (int v))"



text \<open>\<^verbatim>\<open>long\<close> has 64 bits on the targets, so the range test never fails.\<close>

definition string2l :: "string \<Rightarrow> int option" where
  "string2l s =
     (case string2ll s of
        None \<Rightarrow> None
      | Some v \<Rightarrow> if v < LLONG_MIN \<or> int LLONG_MAX < v then None else Some v)"

definition lower :: "char \<Rightarrow> char" where
  "lower c = (if 65 \<le> (of_char c :: nat) \<and> (of_char c :: nat) \<le> 90 then char_of (of_char c + 32 :: nat) else c)"




text \<open>Searching and mapping bytes, and file names.\<close>

fun mempbrk :: "string \<Rightarrow> string \<Rightarrow> nat option" where
  "mempbrk [] chars = None"
| "mempbrk (c # s) chars = (if c \<in> set chars then Some 0 else map_option Suc (mempbrk s chars))"

fun map_char :: "char \<Rightarrow> string \<Rightarrow> string \<Rightarrow> char" where
  "map_char c (f # from) (t # to) = (if c = f then t else map_char c from to)"
| "map_char c _ _ = c"

definition memmapchars :: "string \<Rightarrow> string \<Rightarrow> string \<Rightarrow> string" where
  "memmapchars s from to = map (\<lambda>c. map_char c from to) s"

definition pathIsBaseName :: "string \<Rightarrow> bool" where
  "pathIsBaseName path \<longleftrightarrow> CHR ''/'' \<notin> set (cstr path) \<and> CHR 0x5C \<notin> set (cstr path)"

section \<open>Counting digits\<close>

lemma length_dec_small: "n < 10 \<Longrightarrow> length (dec_of_nat n) = 1"
  by (simp add: dec_of_nat.simps [of n])

lemma length_dec_div: "10 \<le> n \<Longrightarrow> length (dec_of_nat n) = Suc (length (dec_of_nat (n div 10)))"
  by (simp add: dec_of_nat.simps [of n])

lemma length_dec_pow: "10 ^ k \<le> n \<Longrightarrow> length (dec_of_nat n) = k + length (dec_of_nat (n div 10 ^ k))"
proof (induction k arbitrary: n)
  case (Suc k)
  have "(10::nat) \<le> 10 * 10 ^ k" by simp
  then have n: "10 \<le> n" using Suc.prems by (simp only: power_Suc)
  have "10 ^ k \<le> n div 10" using Suc.prems by (simp add: less_eq_div_iff_mult_less_eq mult.commute)
  from Suc.IH [OF this] length_dec_div [OF n] show ?case by (simp add: div_mult2_eq mult.commute)
qed simp

lemma length_dec_between: "10 ^ k \<le> n \<Longrightarrow> n < 10 ^ Suc k \<Longrightarrow> length (dec_of_nat n) = Suc k"
proof -
  assume a: "10 ^ k \<le> n" "n < 10 ^ Suc k"
  then have "n div 10 ^ k < 10" by (simp add: div_less_iff_less_mult)
  with length_dec_pow [OF a(1)] length_dec_small show ?thesis by simp
qed

lemma digits10_length: "digits10 v = length (dec_of_nat v)"
proof (induction v rule: digits10.induct)
  case (1 v)
  show ?case
  proof (cases "v < 1000000000000")
    case True
    note unf = digits10.simps [of v]
    consider "v < 10" | "10 \<le> v" "v < 100" | "100 \<le> v" "v < 1000" | "1000 \<le> v" "v < 10000" | "10000 \<le> v" "v < 100000"
      | "100000 \<le> v" "v < 1000000" | "1000000 \<le> v" "v < 10000000" | "10000000 \<le> v" "v < 100000000"
      | "100000000 \<le> v" "v < 1000000000" | "1000000000 \<le> v" "v < 10000000000"
      | "10000000000 \<le> v" "v < 100000000000" | "100000000000 \<le> v" using True by linarith
    then show ?thesis
      using True length_dec_small [of v] length_dec_between [of 1 v] length_dec_between [of 2 v] length_dec_between [of 3 v]
        length_dec_between [of 4 v] length_dec_between [of 5 v] length_dec_between [of 6 v] length_dec_between [of 7 v]
        length_dec_between [of 8 v] length_dec_between [of 9 v] length_dec_between [of 10 v] length_dec_between [of 11 v]
      by cases (simp_all add: unf)
  next
    case False
    then show ?thesis using 1 length_dec_pow [of 12 v] by (simp add: digits10.simps [of v])
  qed
qed

section \<open>Printing\<close>

lemma table_entries: "list_all (\<lambda>k. digits_table ! (k * 2) = digit_char (k div 10) \<and> digits_table ! (k * 2 + 1) = digit_char (k mod 10)) [0..<100]"
  by code_simp

lemma table_entry: "k < 100 \<Longrightarrow> digits_table ! (k * 2) = digit_char (k div 10) \<and> digits_table ! (k * 2 + 1) = digit_char (k mod 10)"
  using table_entries by (simp add: list_all_iff)

lemma dec_two: "100 \<le> v \<Longrightarrow> dec_of_nat v = dec_of_nat (v div 100) @ [digit_char (v mod 100 div 10), digit_char (v mod 10)]"
proof -
  assume v: "100 \<le> v"
  then have "dec_of_nat v = dec_of_nat (v div 10) @ [digit_char (v mod 10)]"
    and "dec_of_nat (v div 10) = dec_of_nat (v div 10 div 10) @ [digit_char (v div 10 mod 10)]"
    by (simp_all add: dec_of_nat.simps [of v] dec_of_nat.simps [of "v div 10"])
  moreover have "v div 10 div 10 = v div 100" "v div 10 mod 10 = v mod 100 div 10"
    by (simp_all add: div_mult2_eq [symmetric] mod_mult2_eq [of v 10 10, simplified])
  ultimately show ?thesis by simp
qed

lemma set_char_ok: "i < length dst \<Longrightarrow> set_char dst (int i) c = Inr (dst[i := c])"
  by (simp add: set_char_def)

lemma update_two: "Suc i < length dst \<Longrightarrow> dst[Suc i := b, i := a] = take i dst @ [a, b] @ drop (Suc (Suc i)) dst"
proof (rule nth_equalityI)
  fix k assume "Suc i < length dst" and "k < length (dst[Suc i := b, i := a])"
  moreover have "k = i \<or> k = Suc i \<or> k < i \<or> (\<exists>j. k = Suc (Suc i) + j)"
    using nat_le_iff_add [of "Suc (Suc i)" k] by (cases "Suc (Suc i) \<le> k") auto
  ultimately show "dst[Suc i := b, i := a] ! k = (take i dst @ [a, b] @ drop (Suc (Suc i)) dst) ! k"
    by (auto simp: nth_append nth_list_update)
qed simp

lemma length_dec_64: "v < 2 ^ 64 \<Longrightarrow> length (dec_of_nat v) \<le> 20"
  by (rule dec_of_nat_length) auto

lemma ull2string_loop_ok:
  "v < 2 ^ 64 \<Longrightarrow> length (dec_of_nat v) \<le> length dst \<Longrightarrow>
     ull2string_loop dst (int (length (dec_of_nat v)) - 1) v = Inr (dec_of_nat v @ drop (length (dec_of_nat v)) dst)"
proof (induction v arbitrary: dst rule: less_induct)
  case (less v)
  consider "v < 10" | "10 \<le> v" "v < 100" | "100 \<le> v" by linarith
  then show ?case
  proof cases
    case 1
    then have "dec_of_nat v = [digit_char v]" by (simp add: dec_of_nat.simps [of v])
    with 1 less.prems(2) show ?thesis
      by (cases dst) (simp_all add: ull2string_loop.simps [of dst] ull2string_loop.simps [of "_ # _"] set_char_def digit_char_def)
  next
    case 2
    then have d: "dec_of_nat v = [digit_char (v div 10), digit_char (v mod 10)]"
      by (simp add: dec_of_nat.simps [of v] dec_of_nat.simps [of "v div 10"])
    with less.prems(2) have "Suc 0 < length dst" by simp
    with 2 d table_entry [of v] update_two [of 0 dst "digit_char (v mod 10)" "digit_char (v div 10)"] show ?thesis
      by (auto simp: ull2string_loop.simps [of dst] set_char_def Let_def)
  next
    case 3
    let ?w = "v div 100" and ?a = "digit_char (v mod 100 div 10)" and ?b = "digit_char (v mod 10)"
    let ?L = "length (dec_of_nat ?w)"
    have d: "dec_of_nat v = dec_of_nat ?w @ [?a, ?b]" by (rule dec_two [OF 3])
    have L: "0 < ?L" "?L + 2 \<le> 20" using length_dec_64 [OF less.prems(1)] d by auto
    have room: "Suc ?L < length dst" using less.prems(2) d by simp
    have w: "wrap32 (int ?L + 1 - 1) = int ?L" "wrap32 (int ?L + 1 - 2) = int ?L - 1" using L by auto
    let ?dst2 = "dst[Suc ?L := ?b, ?L := ?a]"
    have len: "length ?dst2 = length dst" by simp
    have "ull2string_loop dst (int ?L + 1) v = ull2string_loop ?dst2 (int ?L - 1) ?w"
      using 3 table_entry [of "v mod 100"] set_char_ok [of "Suc ?L" dst ?b] set_char_ok [of ?L "dst[Suc ?L := ?b]" ?a] room w
      by (simp add: ull2string_loop.simps [of dst] mod_mod_cancel add.commute)
    also have "\<dots> = Inr (dec_of_nat ?w @ drop ?L ?dst2)"
      using less.IH [of ?w ?dst2] 3 less.prems(1) room by simp
    also have "drop ?L ?dst2 = [?a, ?b] @ drop (Suc (Suc ?L)) dst"
      using room by (subst update_two) auto
    finally show ?thesis using d by (simp add: add.commute)
  qed
qed

lemma ull2string_ok:
  assumes v: "v < 2 ^ 64"
  shows "ull2string dst v =
    (if length (dec_of_nat v) < length dst
     then Inr (dec_of_nat v @ CHR 0x00 # drop (Suc (length (dec_of_nat v))) dst, length (dec_of_nat v))
     else if dst = [] then Inr ([], 0) else Inr (dst[0 := CHR 0x00], 0))"
proof (cases "length (dec_of_nat v) < length dst")
  case True
  let ?L = "length (dec_of_nat v)"
  have "drop ?L (dst[?L := CHR 0x00]) = CHR 0x00 # drop (Suc ?L) dst"
    using True by (metis Cons_nth_drop_Suc drop_update_cancel length_list_update lessI nth_list_update_eq)
  with True ull2string_loop_ok [OF v, of "dst[?L := CHR 0x00]"] show ?thesis
    by (simp add: ull2string_def digits10_length Let_def set_char_ok)
next
  case False
  then show ?thesis by (auto simp: ull2string_def digits10_length Let_def terminate_empty_def set_char_def)
qed

lemma ll2string_ok:
  assumes "- (2 ^ 63) \<le> v" and "v < 2 ^ 63" and "length (dec_of_int v) < length dst"
  shows "ll2string dst v = Inr (dec_of_int v @ CHR 0x00 # drop (Suc (length (dec_of_int v))) dst, length (dec_of_int v))"
proof (cases "v < 0")
  case True
  have mag: "(if v \<noteq> LLONG_MIN then nat (- v) else LLONG_MAX + 1) = nat (- v)"
    by (auto simp: LLONG_MIN_def LLONG_MAX_def)
  obtain c dst' where dst: "dst = c # dst'" using assms(3) by (cases dst) auto
  have lt: "length (dec_of_nat (nat (- v))) < length dst'" using True assms(3) dst by (simp add: dec_of_int_def)
  have "nat (- v) < 2 ^ 64" using assms(1) by simp
  from ull2string_ok [OF this, of dst'] lt True dst mag show ?thesis
    by (auto simp: ll2string_def dec_of_int_def Let_def)
next
  case False
  then have "nat v < 2 ^ 64" using assms(2) by simp
  from ull2string_ok [OF this, of dst] False assms(3) show ?thesis
    by (simp add: ll2string_def dec_of_int_def)
qed

lemma ll2string_small:
  assumes "- (2 ^ 63) \<le> v" and "v < 2 ^ 63" and "length dst \<le> length (dec_of_int v)"
  shows "\<exists>d. ll2string dst v = Inr (d, 0) \<and> length d = length dst"
proof (cases "v < 0 \<and> 2 \<le> length dst")
  case True
  have mag: "(if v \<noteq> LLONG_MIN then nat (- v) else LLONG_MAX + 1) = nat (- v)"
    by (auto simp: LLONG_MIN_def LLONG_MAX_def)
  from True obtain a b dst' where dst: "dst = a # b # dst'" by (cases dst; cases "tl dst") auto
  have "nat (- v) < 2 ^ 64" using assms(1) by simp
  from ull2string_ok [OF this, of "tl dst"] True assms(3) mag dst show ?thesis
    by (auto simp: ll2string_def dec_of_int_def Let_def)
next
  case False
  show ?thesis
  proof (cases "v < 0")
    case True
    with False have "dst = [] \<or> (\<exists>a. dst = [a])" by (cases dst; cases "tl dst") auto
    with True show ?thesis by (auto simp: ll2string_def Let_def terminate_empty_def set_char_def)
  next
    case nn: False
    then show ?thesis using ull2string_ok [of "nat v" dst] assms by (auto simp: ll2string_def dec_of_int_def)
  qed
qed

section \<open>Parsing\<close>

definition acc_val :: "nat \<Rightarrow> string \<Rightarrow> nat" where
  "acc_val v ds = foldl (\<lambda>a c. 10 * a + digit_val c) v ds"

lemma acc_val_mono: "v \<le> acc_val v ds"
proof (induction ds arbitrary: v)
  case (Cons d ds)
  have "v \<le> 10 * v + digit_val d" by simp
  also have "\<dots> \<le> acc_val (10 * v + digit_val d) ds" by (rule Cons)
  finally show ?case by (simp add: acc_val_def)
qed (simp add: acc_val_def)

lemma loop_value: "string2ll_loop v ds = (if list_all is_digit ds \<and> acc_val v ds \<le> ULLONG_MAX \<or> ds = [] then Some (acc_val v ds) else None)"
proof (induction v ds rule: string2ll_loop.induct)
  case (2 v c p)
  show ?case
  proof (cases "is_digit c \<and> v * 10 + digit_val c \<le> ULLONG_MAX")
    case True
    then have "\<not> ULLONG_MAX div 10 < v" "\<not> ULLONG_MAX - digit_val c < v * 10"
      by (auto simp: not_less less_eq_div_iff_mult_less_eq)
    with True 2 show ?thesis by (simp add: acc_val_def mult.commute)
  next
    case False
    have "ULLONG_MAX - digit_val c < v * 10" if "is_digit c"
    proof -
      have "\<not> v * 10 + digit_val c \<le> ULLONG_MAX" "9 < ULLONG_MAX" using False that by (auto simp: ULLONG_MAX_def)
      with digit_val_less [OF that] show ?thesis by linarith
    qed
    then have none: "string2ll_loop v (c # p) = None" by auto
    moreover have "\<not> (list_all is_digit (c # p) \<and> acc_val v (c # p) \<le> ULLONG_MAX)"
      using False acc_val_mono [of "10 * v + digit_val c" p] by (auto simp: acc_val_def mult.commute)
    ultimately show ?thesis by auto
  qed
qed (simp add: acc_val_def)

text \<open>Digits without a leading zero are the decimal representation of their value.\<close>

lemma dec_of_nat_snoc: "0 < n \<Longrightarrow> d < 10 \<Longrightarrow> dec_of_nat (10 * n + d) = dec_of_nat n @ [digit_char d]"
  by (simp add: dec_of_nat.simps [of "10 * n + d"])

lemma digit_zero: "is_digit c \<Longrightarrow> digit_val c = 0 \<longleftrightarrow> c = CHR ''0''"
proof -
  assume "is_digit c"
  moreover have "digit_char 0 = CHR ''0''" by code_simp
  ultimately show ?thesis using digit_char_digit_val [of c] by (auto simp: digit_val_def)
qed

lemma canonical_digits:
  "list_all is_digit (c # ds) \<Longrightarrow> c \<noteq> CHR ''0'' \<Longrightarrow> dec_of_nat (dec_val (c # ds)) = c # ds \<and> 0 < dec_val (c # ds)"
proof (induction ds rule: rev_induct)
  case Nil
  then have "is_digit c" "digit_val c \<noteq> 0" using digit_zero [of c] by auto
  then show ?case by (simp add: dec_val_def dec_of_nat.simps [of "digit_val c"])
next
  case (snoc d ds)
  then have IH: "dec_of_nat (dec_val (c # ds)) = c # ds" "0 < dec_val (c # ds)" and d: "is_digit d" by auto
  have "dec_val (c # ds @ [d]) = 10 * dec_val (c # ds) + digit_val d" using dec_val_snoc [of "c # ds" d] by simp
  with IH d show ?case using dec_of_nat_snoc [of "dec_val (c # ds)" "digit_val d"] by simp
qed

lemma acc_val_dec: "acc_val (digit_val c) ds = dec_val (c # ds)"
  by (simp add: acc_val_def dec_val_def)

lemma dec_of_nat_first: "0 < n \<Longrightarrow> \<exists>c ds. dec_of_nat n = c # ds \<and> c \<noteq> CHR ''0''"
proof (induction n rule: less_induct)
  case (less n)
  show ?case
  proof (cases "n < 10")
    case True
    then have "dec_of_nat n = [digit_char n]" by (simp add: dec_of_nat.simps [of n])
    moreover have "digit_char n \<noteq> CHR ''0''"
      using True less.prems digit_zero [of "digit_char n"] by simp
    ultimately show ?thesis by simp
  next
    case False
    then obtain c ds where "dec_of_nat (n div 10) = c # ds" "c \<noteq> CHR ''0''"
      using less.IH [of "n div 10"] by (auto simp: div_greater_zero_iff)
    with False show ?thesis by (simp add: dec_of_nat.simps [of n])
  qed
qed

lemma string2ll_dec:
  assumes v: "- (2 ^ 63) \<le> v" "v < 2 ^ 63"
  shows "string2ll (dec_of_int v) = Some v"
proof (cases "v = 0")
  case True
  have "dec_of_nat 0 = ''0''" by code_simp
  with True show ?thesis by (simp add: string2ll_def dec_of_int_def LONG_STR_SIZE_def)
next
  case False
  define n where "n = nat \<bar>v\<bar>"
  have n: "0 < n" "n \<le> 2 ^ 63" using False v by (auto simp: n_def)
  obtain c ds where d: "dec_of_nat n = c # ds" "c \<noteq> CHR ''0''" using dec_of_nat_first [OF n(1)] by blast
  have dig: "is_digit c" "list_all is_digit ds" using dec_of_nat_digits [of n] d by auto
  have len: "length (dec_of_nat n) \<le> 19" using n(2) by (intro dec_of_nat_length) auto
  have val: "acc_val (digit_val c) ds = n" using acc_val_dec [of c ds] d dec_val_dec_of_nat [of n] by simp
  have lp: "string2ll_loop (digit_val c) ds = Some n"
    using dig n(2) val by (simp add: loop_value ULLONG_MAX_def)
  show ?thesis
  proof (cases "v < 0")
    case True
    then have "dec_of_int v = CHR ''-'' # c # ds" "int n = - v" using d by (auto simp: dec_of_int_def n_def)
    with True dig d(2) lp len d(1) n show ?thesis
      by (simp add: string2ll_def LONG_STR_SIZE_def LLONG_MAX_def)
  next
    case nn: False
    then have dv: "dec_of_int v = c # ds" and iv: "int n = v" using d by (auto simp: dec_of_int_def n_def)
    have "c \<noteq> CHR ''-''" using dig(1) is_digit_facts by blast
    moreover have "n \<le> LLONG_MAX" using iv v(2) by (simp add: LLONG_MAX_def)
    ultimately show ?thesis unfolding dv using dig d(2) lp len d(1) iv
      by (simp add: string2ll_def LONG_STR_SIZE_def)
  qed
qed

lemma string2ll_canonical:
  assumes "string2ll s = Some v"
  shows "s = dec_of_int v \<and> - (2 ^ 63) \<le> v \<and> v < 2 ^ 63"
proof (cases "s = ''0''")
  case True
  have "dec_of_nat 0 = ''0''" by code_simp
  with True assms show ?thesis by (simp add: string2ll_def dec_of_int_def LONG_STR_SIZE_def)
next
  case False
  define neg where "neg = (hd s = CHR ''-'')"
  define p where "p = (if neg then tl s else s)"
  have s: "s \<noteq> []" and p: "p \<noteq> []" and c: "is_digit (hd p)" "hd p \<noteq> CHR ''0''"
    using assms False by (auto simp: string2ll_def Let_def neg_def [symmetric] p_def [symmetric] split: if_splits option.splits)
  obtain n where lp: "string2ll_loop (digit_val (hd p)) (tl p) = Some n"
    and v: "if neg then n \<le> LLONG_MAX + 1 \<and> v = - int n else n \<le> LLONG_MAX \<and> v = int n"
    using assms False
    by (auto simp: string2ll_def Let_def neg_def [symmetric] p_def [symmetric] split: if_splits option.splits)
  have dig: "list_all is_digit (hd p # tl p)" and n: "n = dec_val (hd p # tl p)"
    using lp c(1) by (auto simp: loop_value acc_val_dec split: if_splits)
  from canonical_digits [OF dig c(2)] n p have dec: "dec_of_nat n = p" "0 < n" by auto
  show ?thesis
  proof (cases neg)
    case True
    then have "s = CHR ''-'' # p" using s by (cases s) (auto simp: neg_def p_def)
    with True v dec show ?thesis by (auto simp: dec_of_int_def LLONG_MAX_def)
  next
    case False
    then have "s = p" by (simp add: p_def)
    with False v dec show ?thesis by (auto simp: dec_of_int_def LLONG_MAX_def)
  qed
qed

section \<open>Properties\<close>

text \<open>
  C22.  \<^verbatim>\<open>string2ll\<close> is exactly the inverse of decimal printing on 64-bit integers: it accepts a
  string with value \<open>v\<close> if and only if the string is the decimal representation of \<open>v\<close>, without
  leading zeros, spaces or plus sign, and \<open>v\<close> fits 64 bits.
\<close>

theorem string2ll_exact:
  "string2ll s = Some v \<longleftrightarrow> s = dec_of_int v \<and> - (2 ^ 63) \<le> v \<and> v < 2 ^ 63"
  using string2ll_canonical string2ll_dec by blast

text \<open>
  C23.  \<^verbatim>\<open>ll2string\<close> with room for the number and a NUL writes its decimal representation and the NUL,
  returns its length as \<^verbatim>\<open>sdigits10\<close> counts it, and leaves the rest of the buffer alone; with
  less room it returns 0; it never writes outside the buffer.  What it writes, \<^verbatim>\<open>string2ll\<close> reads back.
\<close>

theorem ll2string_exact:
  assumes "- (2 ^ 63) \<le> v" and "v < 2 ^ 63"
  shows "if sdigits10 v < length dst
     then ll2string dst v = Inr (dec_of_int v @ CHR 0x00 # drop (Suc (sdigits10 v)) dst, sdigits10 v) \<and>
          string2ll (cstr (dec_of_int v @ CHR 0x00 # drop (Suc (sdigits10 v)) dst)) = Some v
     else \<exists>d. ll2string dst v = Inr (d, 0) \<and> length d = length dst"
proof -
  have len: "sdigits10 v = length (dec_of_int v)"
    by (auto simp: sdigits10_def digits10_length dec_of_int_def LLONG_MIN_def LLONG_MAX_def)
  have "\<forall>c \<in> set (dec_of_int v). c \<noteq> CHR 0x00"
    using dec_of_nat_digits [of "nat v"] dec_of_nat_digits [of "nat (- v)"] is_digit_facts
    by (auto simp: dec_of_int_def list_all_iff)
  then have "cstr (dec_of_int v @ CHR 0x00 # r) = dec_of_int v" for r by (simp add: cstr_def takeWhile_append2)
  then show ?thesis using ll2string_ok [OF assms] ll2string_small [OF assms] string2ll_dec [OF assms] by (simp add: len)
qed

theorem ll2string_exact_witness:
  "ll2string ''........'' (- 42) = Inr (''-42'' @ CHR 0x00 # ''....'', 3) \<and> string2ll (cstr (''-42'' @ CHR 0x00 # ''....'')) = Some (- 42)"
proof -
  have "dec_of_int (- 42) = ''-42''" "sdigits10 (- 42) = 3" by code_simp+
  with ll2string_exact [of "- 42" "''........''"] show ?thesis by simp
qed


lemma lower_units [simp]:
  "lower CHR ''b'' = CHR ''b''" "lower CHR ''k'' = CHR ''k''" "lower CHR ''m'' = CHR ''m''" "lower CHR ''g'' = CHR ''g''"
  by code_simp+





end
