(* ===== verification/Redis_Sds.thy ===== *)
theory Redis_Sds
  imports Redis_Util
begin

text \<open>
  Dynamic strings, \<^verbatim>\<open>redis-7.2.4/src/sds.c\<close> and the inline functions of
  \<^verbatim>\<open>sds.h\<close>: five header types that store length and capacity in fields of 5 to 64 bits, growth
  with preallocation, and the operations in place.  The allocator is a parameter: \<open>us n\<close> is the usable size
  of a block requested with \<open>n\<close> bytes, and \<open>junk\<close> what fresh memory holds.  Running out of memory aborts
  the server and is not modelled, except for \<^verbatim>\<open>sdstrynewlen\<close>.
\<close>

section \<open>Headers\<close>

definition SDS_MAX_PREALLOC :: nat where "SDS_MAX_PREALLOC = 1024 * 1024"

definition SDS_TYPE_5 :: nat where "SDS_TYPE_5 = 0"
definition SDS_TYPE_8 :: nat where "SDS_TYPE_8 = 1"
definition SDS_TYPE_16 :: nat where "SDS_TYPE_16 = 2"
definition SDS_TYPE_32 :: nat where "SDS_TYPE_32 = 3"
definition SDS_TYPE_64 :: nat where "SDS_TYPE_64 = 4"

lemmas sds_types = SDS_TYPE_5_def SDS_TYPE_8_def SDS_TYPE_16_def SDS_TYPE_32_def SDS_TYPE_64_def

text \<open>The sizes of the packed header structures.\<close>

definition sdsHdrSize :: "nat \<Rightarrow> nat" where
  "sdsHdrSize t =
     (if t = SDS_TYPE_5 then 1 else if t = SDS_TYPE_8 then 3 else if t = SDS_TYPE_16 then 5
      else if t = SDS_TYPE_32 then 9 else if t = SDS_TYPE_64 then 17 else 0)"

definition sdsReqType :: "nat \<Rightarrow> nat" where
  "sdsReqType n =
     (if n < 2 ^ 5 then SDS_TYPE_5 else if n < 2 ^ 8 then SDS_TYPE_8 else if n < 2 ^ 16 then SDS_TYPE_16
      else if n < 2 ^ 32 then SDS_TYPE_32 else SDS_TYPE_64)"

definition sdsTypeMaxSize :: "nat \<Rightarrow> nat" where
  "sdsTypeMaxSize t =
     (if t = SDS_TYPE_5 then 2 ^ 5 - 1 else if t = SDS_TYPE_8 then 2 ^ 8 - 1 else if t = SDS_TYPE_16 then 2 ^ 16 - 1
      else if t = SDS_TYPE_32 then 2 ^ 32 - 1 else 2 ^ 64 - 1)"

text \<open>
  A string: header type, length and capacity fields, and the bytes from the string pointer to the end of
  its block.  A type 5 header has no capacity field.
\<close>

record sds =
  s_type :: nat
  s_len :: nat
  s_alloc :: nat
  s_buf :: string

definition sdslen :: "sds \<Rightarrow> nat" where
  "sdslen s = s_len s"

definition sdsalloc :: "sds \<Rightarrow> nat" where
  "sdsalloc s = (if s_type s = SDS_TYPE_5 then s_len s else s_alloc s)"

definition sdsavail :: "sds \<Rightarrow> nat" where
  "sdsavail s =
     (if s_type s = SDS_TYPE_5 then 0
      else nat ((int (s_alloc s) - int (s_len s)) mod (if s_type s = SDS_TYPE_32 then 2 ^ 32 else 2 ^ 64)))"

text \<open>Assignments truncate to the width of the field.\<close>

definition sdssetlen :: "nat \<Rightarrow> sds \<Rightarrow> sds" where
  "sdssetlen n s = s\<lparr>s_len := n mod Suc (sdsTypeMaxSize (s_type s))\<rparr>"

definition sdsinclen :: "nat \<Rightarrow> sds \<Rightarrow> sds" where
  "sdsinclen inc s = s\<lparr>s_len := (s_len s + inc) mod Suc (sdsTypeMaxSize (s_type s))\<rparr>"

definition sdssetalloc :: "nat \<Rightarrow> sds \<Rightarrow> sds" where
  "sdssetalloc n s = (if s_type s = SDS_TYPE_5 then s else s\<lparr>s_alloc := n mod Suc (sdsTypeMaxSize (s_type s))\<rparr>)"

definition put_bytes :: "nat \<Rightarrow> string \<Rightarrow> sds \<Rightarrow> sds c_result" where
  "put_bytes off bs s = c_bind (mem_put (s_buf s) (int off) bs) (\<lambda>m. Inr (s\<lparr>s_buf := m\<rparr>))"

abbreviation put_nul :: "nat \<Rightarrow> sds \<Rightarrow> sds c_result" where
  "put_nul off \<equiv> put_bytes off [CHR 0x00]"

section \<open>Creation\<close>

text \<open>The initializer: bytes, \<^verbatim>\<open>NULL\<close>, or \<^verbatim>\<open>SDS_NOINIT\<close>.\<close>

datatype sds_init = Init string | InitNull | InitNone

definition sdsnewlen_gen :: "(nat \<Rightarrow> nat) \<Rightarrow> (nat \<Rightarrow> char) \<Rightarrow> bool \<Rightarrow> sds_init \<Rightarrow> nat \<Rightarrow> sds option c_result" where
  "sdsnewlen_gen us junk fails init n =
     (let t0 = sdsReqType n; t = (if t0 = SDS_TYPE_5 \<and> n = 0 then SDS_TYPE_8 else t0); hdr = sdsHdrSize t
      in if \<not> n < (n + hdr + 1) mod 2 ^ 64 then Inl AssertFail
         else if fails then Inr None
         else let size = us (hdr + n + 1);
                  fresh = map junk [0..<size - hdr];
                  buf = (case init of InitNull \<Rightarrow> overwrite fresh 0 (replicate (n + 1) CHR 0x00) | _ \<Rightarrow> fresh);
                  usable = min (size - hdr - 1) (sdsTypeMaxSize t);
                  s = sdssetalloc usable (sdssetlen n \<lparr>s_type = t, s_len = 0, s_alloc = 0, s_buf = buf\<rparr>)
              in c_bind (case init of
                           Init bs \<Rightarrow> if length bs < n then Inl OutOfBounds else put_bytes 0 (take n bs) s
                         | _ \<Rightarrow> Inr s) (\<lambda>s1.
                 c_bind (put_nul n s1) (\<lambda>s2. Inr (Some s2))))"

definition sdsnewlen :: "(nat \<Rightarrow> nat) \<Rightarrow> (nat \<Rightarrow> char) \<Rightarrow> sds_init \<Rightarrow> nat \<Rightarrow> sds option c_result" where
  "sdsnewlen us junk init n = sdsnewlen_gen us junk False init n"

definition sdstrynewlen :: "(nat \<Rightarrow> nat) \<Rightarrow> (nat \<Rightarrow> char) \<Rightarrow> bool \<Rightarrow> sds_init \<Rightarrow> nat \<Rightarrow> sds option c_result" where
  "sdstrynewlen us junk fails init n = sdsnewlen_gen us junk fails init n"

definition sdsempty :: "(nat \<Rightarrow> nat) \<Rightarrow> (nat \<Rightarrow> char) \<Rightarrow> sds option c_result" where
  "sdsempty us junk = sdsnewlen us junk (Init []) 0"

definition sdsnew :: "(nat \<Rightarrow> nat) \<Rightarrow> (nat \<Rightarrow> char) \<Rightarrow> string option \<Rightarrow> sds option c_result" where
  "sdsnew us junk init =
     (case init of None \<Rightarrow> sdsnewlen us junk InitNull 0 | Some str \<Rightarrow> sdsnewlen us junk (Init (cstr str)) (length (cstr str)))"

definition sdsdup :: "(nat \<Rightarrow> nat) \<Rightarrow> (nat \<Rightarrow> char) \<Rightarrow> sds \<Rightarrow> sds option c_result" where
  "sdsdup us junk s = sdsnewlen us junk (Init (s_buf s)) (sdslen s)"

section \<open>Growing and shrinking\<close>

definition sdsMakeRoomFor_gen :: "(nat \<Rightarrow> nat) \<Rightarrow> (nat \<Rightarrow> char) \<Rightarrow> sds \<Rightarrow> nat \<Rightarrow> bool \<Rightarrow> sds c_result" where
  "sdsMakeRoomFor_gen us junk s addlen greedy =
     (if addlen \<le> sdsavail s then Inr s
      else let len = sdslen s; reqlen = (len + addlen) mod 2 ^ 64
           in if \<not> len < reqlen then Inl AssertFail
              else let newlen = (if greedy then if reqlen < SDS_MAX_PREALLOC then reqlen * 2
                                                else (reqlen + SDS_MAX_PREALLOC) mod 2 ^ 64
                                 else reqlen);
                       t0 = sdsReqType newlen; t = (if t0 = SDS_TYPE_5 then SDS_TYPE_8 else t0); hdr = sdsHdrSize t
                   in if \<not> reqlen < (hdr + newlen + 1) mod 2 ^ 64 then Inl AssertFail
                      else let size = us (hdr + newlen + 1); usable = min (size - hdr - 1) (sdsTypeMaxSize t)
                           in c_bind (if s_type s = t
                                      then Inr (s\<lparr>s_buf := mem_realloc junk (s_buf s) (size - hdr)\<rparr>)
                                      else c_bind (mem_get (s_buf s) 0 (len + 1)) (\<lambda>bs.
                                           c_bind (mem_put (map junk [0..<size - hdr]) 0 bs) (\<lambda>m.
                                             Inr (sdssetlen len (s\<lparr>s_type := t, s_buf := m\<rparr>))))) (\<lambda>s1.
                              Inr (sdssetalloc usable s1)))"

definition sdsMakeRoomFor :: "(nat \<Rightarrow> nat) \<Rightarrow> (nat \<Rightarrow> char) \<Rightarrow> sds \<Rightarrow> nat \<Rightarrow> sds c_result" where
  "sdsMakeRoomFor us junk s addlen = sdsMakeRoomFor_gen us junk s addlen True"

definition sdsMakeRoomForNonGreedy :: "(nat \<Rightarrow> nat) \<Rightarrow> (nat \<Rightarrow> char) \<Rightarrow> sds \<Rightarrow> nat \<Rightarrow> sds c_result" where
  "sdsMakeRoomForNonGreedy us junk s addlen = sdsMakeRoomFor_gen us junk s addlen False"

text \<open>
  \<open>optimal\<close> is the answer of jemalloc to whether the block already has the size the new length needs;
  then the block is kept as it is.
\<close>

definition sdsResize :: "(nat \<Rightarrow> nat) \<Rightarrow> (nat \<Rightarrow> char) \<Rightarrow> bool \<Rightarrow> sds \<Rightarrow> nat \<Rightarrow> bool \<Rightarrow> sds c_result" where
  "sdsResize us junk optimal s siz would_regrow =
     (if sdsalloc s = siz then Inr s
      else let len = (if siz < sdslen s then siz else sdslen s);
               t0 = sdsReqType siz; t = (if would_regrow \<and> t0 = SDS_TYPE_5 then SDS_TYPE_8 else t0);
               oldt = s_type s; oldhdr = sdsHdrSize oldt; hdr = sdsHdrSize t;
               use_realloc = (oldt = t \<or> (t < oldt \<and> SDS_TYPE_8 < t))
           in c_bind (if use_realloc
                      then if optimal then Inr s
                           else Inr (s\<lparr>s_buf := mem_realloc junk (s_buf s) (us (oldhdr + siz + 1) - oldhdr)\<rparr>)
                      else c_bind (mem_get (s_buf s) 0 len) (\<lambda>bs.
                           c_bind (mem_put (map junk [0..<us (hdr + siz + 1) - hdr]) 0 bs) (\<lambda>m.
                             Inr (s\<lparr>s_type := t, s_buf := m\<rparr>)))) (\<lambda>s1.
              c_bind (put_nul len s1) (\<lambda>s2.
                Inr (sdssetalloc siz (sdssetlen len s2)))))"

definition sdsRemoveFreeSpace :: "(nat \<Rightarrow> nat) \<Rightarrow> (nat \<Rightarrow> char) \<Rightarrow> bool \<Rightarrow> sds \<Rightarrow> bool \<Rightarrow> sds c_result" where
  "sdsRemoveFreeSpace us junk optimal s would_regrow = sdsResize us junk optimal s (sdslen s) would_regrow"

definition sdsAllocSize :: "sds \<Rightarrow> nat" where
  "sdsAllocSize s = sdsHdrSize (s_type s) + sdsalloc s + 1"

text \<open>\<^verbatim>\<open>(unsigned int)(-incr)\<close> keeps 32 bits, for all but the widest header.\<close>

definition sdsIncrLen :: "sds \<Rightarrow> int \<Rightarrow> sds c_result" where
  "sdsIncrLen s incr =
     (let t = s_type s; l = int (s_len s); a = int (s_alloc s); down = (if t = SDS_TYPE_64 then (- incr) mod 2 ^ 64 else (- incr) mod 2 ^ 32);
          ok = (if t = SDS_TYPE_5 then (0 < incr \<and> l + incr < 32) \<or> (incr < 0 \<and> down \<le> l)
                else if t = SDS_TYPE_32 then (0 \<le> incr \<and> incr mod 2 ^ 32 \<le> (a - l) mod 2 ^ 32) \<or> (incr < 0 \<and> down \<le> l)
                else if t = SDS_TYPE_64 then (0 \<le> incr \<and> incr \<le> (a - l) mod 2 ^ 64) \<or> (incr < 0 \<and> down \<le> l)
                else (0 \<le> incr \<and> incr \<le> a - l) \<or> (incr < 0 \<and> down \<le> l));
          field = nat ((l + incr) mod int (Suc (sdsTypeMaxSize t)));
          len = (if t = SDS_TYPE_5 then nat ((l + incr) mod 2 ^ 64) else field)
      in if \<not> ok then Inl AssertFail else put_nul len (s\<lparr>s_len := field\<rparr>))"

section \<open>Content\<close>

definition sdsupdatelen :: "sds \<Rightarrow> sds" where
  "sdsupdatelen s = sdssetlen (length (cstr (s_buf s))) s"

definition sdsclear :: "sds \<Rightarrow> sds c_result" where
  "sdsclear s = put_nul 0 (sdssetlen 0 s)"

definition sdsgrowzero :: "(nat \<Rightarrow> nat) \<Rightarrow> (nat \<Rightarrow> char) \<Rightarrow> sds \<Rightarrow> nat \<Rightarrow> sds c_result" where
  "sdsgrowzero us junk s len =
     (let curlen = sdslen s
      in if len \<le> curlen then Inr s
         else c_bind (sdsMakeRoomFor us junk s (len - curlen)) (\<lambda>s1.
              c_bind (put_bytes curlen (replicate (len - curlen + 1) CHR 0x00) s1) (\<lambda>s2.
                Inr (sdssetlen len s2))))"

definition sdscatlen :: "(nat \<Rightarrow> nat) \<Rightarrow> (nat \<Rightarrow> char) \<Rightarrow> sds \<Rightarrow> string \<Rightarrow> sds c_result" where
  "sdscatlen us junk s t =
     (let curlen = sdslen s
      in c_bind (sdsMakeRoomFor us junk s (length t)) (\<lambda>s1.
         c_bind (put_bytes curlen t s1) (\<lambda>s2.
           put_nul (curlen + length t) (sdssetlen (curlen + length t) s2))))"

definition sdscat :: "(nat \<Rightarrow> nat) \<Rightarrow> (nat \<Rightarrow> char) \<Rightarrow> sds \<Rightarrow> string \<Rightarrow> sds c_result" where
  "sdscat us junk s t = sdscatlen us junk s (cstr t)"

definition sdscatsds :: "(nat \<Rightarrow> nat) \<Rightarrow> (nat \<Rightarrow> char) \<Rightarrow> sds \<Rightarrow> sds \<Rightarrow> sds c_result" where
  "sdscatsds us junk s t = sdscatlen us junk s (take (sdslen t) (s_buf t))"

definition sdscpylen :: "(nat \<Rightarrow> nat) \<Rightarrow> (nat \<Rightarrow> char) \<Rightarrow> sds \<Rightarrow> string \<Rightarrow> sds c_result" where
  "sdscpylen us junk s t =
     c_bind (if sdsalloc s < length t then sdsMakeRoomFor us junk s (length t - sdslen s) else Inr s) (\<lambda>s1.
     c_bind (put_bytes 0 t s1) (\<lambda>s2.
     c_bind (put_nul (length t) s2) (\<lambda>s3.
       Inr (sdssetlen (length t) s3))))"

definition sdscpy :: "(nat \<Rightarrow> nat) \<Rightarrow> (nat \<Rightarrow> char) \<Rightarrow> sds \<Rightarrow> string \<Rightarrow> sds c_result" where
  "sdscpy us junk s t = sdscpylen us junk s (cstr t)"

definition sdsfromlonglong :: "(nat \<Rightarrow> nat) \<Rightarrow> (nat \<Rightarrow> char) \<Rightarrow> string \<Rightarrow> int \<Rightarrow> sds option c_result" where
  "sdsfromlonglong us junk buf v =
     c_bind (ll2string (take LONG_STR_SIZE buf) v) (\<lambda>(b, len). sdsnewlen us junk (Init b) len)"

text \<open>
  \<^verbatim>\<open>strchr(cset, c)\<close> finds the terminator when \<open>c\<close> is NUL.
\<close>

definition in_cset :: "string \<Rightarrow> char \<Rightarrow> bool" where
  "in_cset cset c \<longleftrightarrow> c \<in> set (cstr cset) \<or> c = CHR 0x00"

definition sdstrim :: "sds \<Rightarrow> string \<Rightarrow> sds c_result" where
  "sdstrim s cset =
     c_bind (mem_get (s_buf s) 0 (sdslen s)) (\<lambda>bs.
       let rest = dropWhile (in_cset cset) bs; sp = length bs - length rest;
           kept = (case rest of [] \<Rightarrow> [] | c # cs \<Rightarrow> c # rev (dropWhile (in_cset cset) (rev cs)))
       in c_bind (if sp \<noteq> 0 then put_bytes 0 kept s else Inr s) (\<lambda>s1.
          c_bind (put_nul (length kept) s1) (\<lambda>s2. Inr (sdssetlen (length kept) s2))))"

definition sdssubstr :: "sds \<Rightarrow> nat \<Rightarrow> nat \<Rightarrow> sds c_result" where
  "sdssubstr s start len =
     (let oldlen = sdslen s; (start, len) = (if oldlen \<le> start then (0, 0) else (start, len));
          len = (if oldlen - start < len then oldlen - start else len)
      in c_bind (if len \<noteq> 0
                 then c_bind (mem_get (s_buf s) (int start) len) (\<lambda>bs. put_bytes 0 bs s)
                 else Inr s) (\<lambda>s1.
         c_bind (put_nul len s1) (\<lambda>s2. Inr (sdssetlen len s2))))"

text \<open>The indexes are 64-bit and the call converts a negative start to a huge unsigned one.\<close>

definition sdsrange :: "sds \<Rightarrow> int \<Rightarrow> int \<Rightarrow> sds c_result" where
  "sdsrange s start end =
     (let len = int (sdslen s)
      in if len = 0 then Inr s
         else let start = (if start < 0 then len + start else start); end = (if end < 0 then len + end else end);
                  newlen = (if end < start then 0 else end - start + 1)
              in sdssubstr s (nat (start mod 2 ^ 64)) (nat (newlen mod 2 ^ 64)))"

section \<open>Well-formed strings\<close>

definition sds_ok :: "sds \<Rightarrow> bool" where
  "sds_ok s \<longleftrightarrow> s_type s \<le> 4 \<and> s_len s \<le> sdsalloc s \<and> sdsalloc s \<le> sdsTypeMaxSize (s_type s) \<and>
     sdsalloc s < length (s_buf s) \<and> s_buf s ! s_len s = CHR 0x00"

text \<open>While a formatted text is being written, the terminator is missing.\<close>

definition sds_wf :: "sds \<Rightarrow> bool" where
  "sds_wf s \<longleftrightarrow> s_type s \<le> 4 \<and> s_len s \<le> sdsalloc s \<and> sdsalloc s \<le> sdsTypeMaxSize (s_type s) \<and>
     sdsalloc s < length (s_buf s)"

lemma sds_ok_wf: "sds_ok s \<longleftrightarrow> sds_wf s \<and> s_buf s ! s_len s = CHR 0x00"
  by (auto simp: sds_ok_def sds_wf_def)

definition sds_val :: "sds \<Rightarrow> string" where
  "sds_val s = take (s_len s) (s_buf s)"

lemma sds_ok_len: "sds_ok s \<Longrightarrow> length (sds_val s) = sdslen s"
  by (simp add: sds_ok_def sds_val_def sdslen_def)

lemma req_type_fits: "n < 2 ^ 64 \<Longrightarrow> n \<le> sdsTypeMaxSize (sdsReqType n)"
  by (simp add: sdsReqType_def sdsTypeMaxSize_def sds_types)

lemma req_type_le: "sdsReqType n \<le> 4"
  by (simp add: sdsReqType_def sds_types)

lemma type_max_less: "sdsTypeMaxSize t < 2 ^ 64"
  by (simp add: sdsTypeMaxSize_def)

lemma setlen_fits: "n \<le> sdsTypeMaxSize (s_type s) \<Longrightarrow> sdssetlen n s = s\<lparr>s_len := n\<rparr>"
  by (simp add: sdssetlen_def)

lemma setalloc_fits:
  "n \<le> sdsTypeMaxSize (s_type s) \<Longrightarrow> s_type s \<noteq> SDS_TYPE_5 \<Longrightarrow> sdssetalloc n s = s\<lparr>s_alloc := n\<rparr>"
  by (simp add: sdssetalloc_def)

lemma put_bytes_ok: "off + length bs \<le> length (s_buf s) \<Longrightarrow> put_bytes off bs s = Inr (s\<lparr>s_buf := overwrite (s_buf s) off bs\<rparr>)"
  by (simp add: put_bytes_def mem_put_def)

lemma avail_wf: "sds_wf s \<Longrightarrow> sdsavail s = sdsalloc s - sdslen s"
proof -
  assume ok: "sds_wf s"
  let ?n = "if s_type s = SDS_TYPE_32 then 2 ^ 32 else 2 ^ 64 :: int"
  have "int (s_alloc s) - int (s_len s) < ?n" if "s_type s \<noteq> SDS_TYPE_5"
    using that ok type_max_less [of "s_type s"] by (auto simp: sds_wf_def sdsalloc_def sdsTypeMaxSize_def sds_types)
  with ok show ?thesis by (auto simp: sdsavail_def sdsalloc_def sdslen_def sds_wf_def nat_diff_distrib)
qed

lemma take_overwrite: "off + length bs \<le> length m \<Longrightarrow> take (off + length bs) (overwrite m off bs) = take off m @ bs"
  by (simp add: overwrite_def)

lemma take_overwrite_before: "off + length bs \<le> length m \<Longrightarrow> n \<le> off \<Longrightarrow> take n (overwrite m off bs) = take n m"
  by (simp add: overwrite_def min_def)

lemma overwrite_same_end: "off < length m \<Longrightarrow> overwrite m off [c] ! off = c"
  by (simp add: nth_overwrite)

text \<open>The allocator: a block is at least as large as requested.\<close>

definition allocator :: "(nat \<Rightarrow> nat) \<Rightarrow> bool" where
  "allocator us \<longleftrightarrow> (\<forall>n. n \<le> us n)"

lemma allocatorD: "allocator us \<Longrightarrow> n \<le> us n"
  by (simp add: allocator_def)

text \<open>
  Setting new contents: written from the start, terminated, with a length the capacity admits.  All
  operations in place end like this.
\<close>

lemma set_contents:
  assumes "s_type s \<le> 4" and "length v \<le> sdsalloc (s\<lparr>s_len := length v\<rparr>)"
    and "sdsalloc (s\<lparr>s_len := length v\<rparr>) \<le> sdsTypeMaxSize (s_type s)"
    and "sdsalloc (s\<lparr>s_len := length v\<rparr>) < length m" and "take (length v) m = v" and "m ! length v = CHR 0x00"
  shows "sds_ok (s\<lparr>s_buf := m, s_len := length v\<rparr>) \<and> sds_val (s\<lparr>s_buf := m, s_len := length v\<rparr>) = v"
  using assms by (auto simp: sds_ok_def sds_val_def sdsalloc_def split: if_splits)

text \<open>The length the growth policy asks for, and the header it gets.\<close>

definition grow_len :: "nat \<Rightarrow> bool \<Rightarrow> nat" where
  "grow_len reqlen greedy = (if greedy then if reqlen < SDS_MAX_PREALLOC then reqlen * 2 else reqlen + SDS_MAX_PREALLOC else reqlen)"

definition grow_type :: "nat \<Rightarrow> nat" where
  "grow_type n = (if sdsReqType n = SDS_TYPE_5 then SDS_TYPE_8 else sdsReqType n)"

lemma grow_len_bounds: "reqlen < 2 ^ 62 \<Longrightarrow> reqlen \<le> grow_len reqlen greedy \<and> grow_len reqlen greedy < 2 ^ 63"
  by (simp add: grow_len_def SDS_MAX_PREALLOC_def)

lemma grow_type_props: "n < 2 ^ 63 \<Longrightarrow> n \<le> sdsTypeMaxSize (grow_type n) \<and> grow_type n \<le> 4 \<and> grow_type n \<noteq> SDS_TYPE_5"
  by (simp add: grow_type_def sdsReqType_def sdsTypeMaxSize_def sds_types)

lemma hdr_bounds: "t \<le> 4 \<Longrightarrow> 1 \<le> sdsHdrSize t \<and> sdsHdrSize t \<le> 17"
  by (auto simp: sdsHdrSize_def sds_types)

text \<open>The block after growing: the old string and its terminator are kept at the front.\<close>

lemma make_room_block:
  assumes "sds_wf s" and "sdslen s < k"
  shows "\<exists>m. (if s_type s = t then Inr (s\<lparr>s_buf := mem_realloc junk (s_buf s) k\<rparr>)
      else c_bind (mem_get (s_buf s) 0 (sdslen s + 1)) (\<lambda>bs.
           c_bind (mem_put (map junk [0..<k]) 0 bs) (\<lambda>m. Inr (sdssetlen (sdslen s) (s\<lparr>s_type := t, s_buf := m\<rparr>))))) =
      Inr (sdssetlen (sdslen s) (s\<lparr>s_type := t, s_buf := m\<rparr>)) \<and>
    length m = k \<and> take (Suc (sdslen s)) m = take (Suc (sdslen s)) (s_buf s)"
proof (cases "s_type s = t")
  case True
  let ?m = "mem_realloc junk (s_buf s) k"
  have "sdslen s < length (s_buf s)" "s_len s \<le> sdsTypeMaxSize (s_type s)" using assms(1) by (auto simp: sds_wf_def sdslen_def)
  with True assms(2) show ?thesis by (intro exI [of _ ?m]) (simp add: mem_realloc_def setlen_fits sdslen_def)
next
  case False
  let ?bs = "take (Suc (sdslen s)) (s_buf s)"
  have len: "Suc (sdslen s) \<le> length (s_buf s)" using assms(1) by (auto simp: sds_wf_def sdslen_def)
  then have get: "mem_get (s_buf s) 0 (sdslen s + 1) = Inr ?bs" by (simp add: mem_get_def)
  have lbs: "length ?bs = Suc (sdslen s)" using len by simp
  have put: "mem_put (map junk [0..<k]) 0 ?bs = Inr (overwrite (map junk [0..<k]) 0 ?bs)"
    using lbs assms(2) by (simp add: mem_put_def)
  have "take (Suc (sdslen s)) (overwrite (map junk [0..<k]) 0 ?bs) = ?bs"
    using take_overwrite [of 0 ?bs "map junk [0..<k]"] lbs assms(2) by simp
  moreover have "length (overwrite (map junk [0..<k]) 0 ?bs) = k" using lbs assms(2) by simp
  ultimately show ?thesis using False get put by auto
qed

lemma take_Suc_eqD:
  assumes "take (Suc n) xs = take (Suc n) ys"
  shows "take n xs = take n ys" "n < length xs \<Longrightarrow> n < length ys \<Longrightarrow> xs ! n = ys ! n"
proof -
  show "take n xs = take n ys" using arg_cong [OF assms, of "take n"] by (simp add: min_def)
  show "xs ! n = ys ! n" if "n < length xs" "n < length ys"
    using arg_cong [OF assms, of "\<lambda>zs. zs ! n"] that by simp
qed

lemma make_room_wf:
  assumes us: "allocator us" and ok: "sds_wf s" and small: "sdslen s + addlen < 2 ^ 62"
  shows "\<exists>s'. sdsMakeRoomFor_gen us junk s addlen greedy = Inr s' \<and> sds_wf s' \<and> sds_val s' = sds_val s \<and>
    s_buf s' ! s_len s = s_buf s ! s_len s \<and> s_len s' = s_len s \<and> s_len s + addlen \<le> sdsalloc s' \<and> (addlen \<noteq> 0 \<longrightarrow> s_type s' \<noteq> SDS_TYPE_5)"
proof (cases "addlen \<le> sdsavail s")
  case True
  then show ?thesis using ok avail_wf [OF ok]
    by (auto simp: sdsMakeRoomFor_gen_def sdslen_def sds_wf_def sdsavail_def split: if_splits)
next
  case False
  let ?len = "sdslen s" and ?req = "sdslen s + addlen"
  define n where "n = grow_len ?req greedy"
  define t where "t = grow_type n"
  define siz where "siz = us (sdsHdrSize t + n + 1)"
  define k where "k = siz - sdsHdrSize t"
  have n: "?req \<le> n" "n < 2 ^ 63" using grow_len_bounds [OF small] by (auto simp: n_def)
  have t: "n \<le> sdsTypeMaxSize t" "t \<le> 4" "t \<noteq> SDS_TYPE_5" using grow_type_props [OF n(2)] by (auto simp: t_def)
  have hdr: "1 \<le> sdsHdrSize t" "sdsHdrSize t \<le> 17" using hdr_bounds [OF t(2)] by auto
  have k: "n < k" using allocatorD [OF us, of "sdsHdrSize t + n + 1"] by (simp add: k_def siz_def)
  have "?len < k" using k n(1) by simp
  from make_room_block [OF ok this, of t junk] obtain m where
    m: "(if s_type s = t then Inr (s\<lparr>s_buf := mem_realloc junk (s_buf s) k\<rparr>)
      else c_bind (mem_get (s_buf s) 0 (?len + 1)) (\<lambda>bs.
           c_bind (mem_put (map junk [0..<k]) 0 bs) (\<lambda>m. Inr (sdssetlen ?len (s\<lparr>s_type := t, s_buf := m\<rparr>))))) =
      Inr (sdssetlen ?len (s\<lparr>s_type := t, s_buf := m\<rparr>))" "length m = k"
      "take (Suc ?len) m = take (Suc ?len) (s_buf s)" by blast
  let ?a = "min (k - 1) (sdsTypeMaxSize t)"
  let ?s = "s\<lparr>s_type := t, s_buf := m, s_len := ?len, s_alloc := ?a\<rparr>"
  have req: "?req mod 2 ^ 64 = ?req" "sdsHdrSize t + n + 1 < 2 ^ 64" using small n hdr by auto
  have grow: "(if greedy then if ?req < SDS_MAX_PREALLOC then ?req * 2 else (?req + SDS_MAX_PREALLOC) mod 2 ^ 64 else ?req) = n"
    using small by (simp add: n_def grow_len_def SDS_MAX_PREALLOC_def)
  have ty: "(if sdsReqType n = SDS_TYPE_5 then SDS_TYPE_8 else sdsReqType n) = t" by (simp add: t_def grow_type_def)
  have "addlen \<noteq> 0" using False by auto
  have fit: "?len \<le> sdsTypeMaxSize t" using t(1) n(1) by simp
  have run: "sdsMakeRoomFor_gen us junk s addlen greedy = Inr ?s"
    unfolding sdsMakeRoomFor_gen_def Let_def req(1) grow ty siz_def [symmetric] k_def [symmetric] m(1)
    using False \<open>addlen \<noteq> 0\<close> req(2) n(1) t(3) fit by (simp add: setlen_fits setalloc_fits k_def)
  have a: "?req \<le> ?a" using k n(1) t(1) by simp
  have eq: "take ?len m = take ?len (s_buf s)" "m ! ?len = s_buf s ! ?len"
    using take_Suc_eqD [OF m(3)] m(2) \<open>?len < k\<close> ok by (auto simp: sds_wf_def sdslen_def)
  have "sds_wf ?s" using ok a t k m(2) eq by (auto simp: sds_wf_def sdsalloc_def sdslen_def)
  moreover have "sds_val ?s = sds_val s" using eq by (simp add: sds_val_def sdslen_def)
  ultimately show ?thesis using run a t(3) eq(2) by (auto simp: sdsalloc_def sdslen_def)
qed

lemma make_room_ok:
  assumes "allocator us" and "sds_ok s" and "sdslen s + addlen < 2 ^ 62"
  shows "\<exists>s'. sdsMakeRoomFor_gen us junk s addlen greedy = Inr s' \<and> sds_ok s' \<and> sds_val s' = sds_val s \<and>
    s_len s' = s_len s \<and> s_len s + addlen \<le> sdsalloc s'"
  using make_room_wf [of us s addlen junk greedy] assms by (auto simp: sds_ok_wf)

lemma in_place:
  assumes "sds_ok s" and "length v \<le> sdsalloc s" and "length m = length (s_buf s)" and "take (length v) m = v"
  shows "\<exists>s'. c_bind (put_nul (length v) (s\<lparr>s_buf := m\<rparr>)) (\<lambda>s2. Inr (sdssetlen (length v) s2)) = Inr s' \<and>
    put_nul (length v) (sdssetlen (length v) (s\<lparr>s_buf := m\<rparr>)) = Inr s' \<and> sds_ok s' \<and> sds_val s' = v"
proof -
  let ?m = "overwrite m (length v) [CHR 0x00]"
  let ?s = "s\<lparr>s_buf := ?m, s_len := length v\<rparr>"
  have fits: "length v \<le> sdsTypeMaxSize (s_type s)" "length v < length m"
    using assms(1-3) by (auto simp: sds_ok_def)
  have "length v \<le> sdsalloc (s\<lparr>s_len := length v\<rparr>)" "sdsalloc (s\<lparr>s_len := length v\<rparr>) \<le> sdsalloc s"
    using assms(2) by (auto simp: sdsalloc_def)
  moreover have "take (length v) ?m = v" "?m ! length v = CHR 0x00"
    using take_overwrite_before [of "length v" "[CHR 0x00]" m "length v"] overwrite_same_end [OF fits(2)] fits assms(4) by auto
  moreover have "length ?m = length m" using fits by simp
  ultimately have "sds_ok ?s \<and> sds_val ?s = v"
    using set_contents [of s v ?m] assms(1,3) by (simp add: sds_ok_def)
  then show ?thesis using fits by (auto simp: put_bytes_ok setlen_fits)
qed

lemma catlen_ok:
  assumes "allocator us" and ok: "sds_ok s" and small: "sdslen s + length t < 2 ^ 62"
  shows "\<exists>s'. sdscatlen us junk s t = Inr s' \<and> sds_ok s' \<and> sds_val s' = sds_val s @ t"
proof -
  from make_room_ok [OF assms(1,2,3), of junk True] obtain s1 where
    s1: "sdsMakeRoomFor us junk s (length t) = Inr s1" "sds_ok s1" "sds_val s1 = sds_val s" "s_len s1 = s_len s"
      "s_len s + length t \<le> sdsalloc s1" by (auto simp: sdsMakeRoomFor_def)
  let ?m = "overwrite (s_buf s1) (s_len s) t" and ?v = "sds_val s @ t"
  have room: "s_len s + length t < length (s_buf s1)" using s1(2,5) by (auto simp: sds_ok_def)
  have len: "length ?v = s_len s + length t" using sds_ok_len [OF ok] by (simp add: sdslen_def)
  have "take (length ?v) ?m = ?v"
    using take_overwrite [of "s_len s" t "s_buf s1"] room s1(3,4) len by (simp add: sds_val_def)
  then show ?thesis using in_place [OF s1(2), of ?v ?m, unfolded len] s1(1,5) room len
    by (auto simp: sdscatlen_def sdslen_def put_bytes_ok Let_def)
qed

lemma cpylen_ok:
  assumes "allocator us" and ok: "sds_ok s" and small: "length t < 2 ^ 62"
  shows "\<exists>s'. sdscpylen us junk s t = Inr s' \<and> sds_ok s' \<and> sds_val s' = t"
proof -
  have "\<exists>s1. (if sdsalloc s < length t then sdsMakeRoomFor us junk s (length t - sdslen s) else Inr s) = Inr s1 \<and>
    sds_ok s1 \<and> length t \<le> sdsalloc s1"
    using make_room_ok [OF assms(1,2), of "length t - sdslen s" junk True] small ok
    by (cases "sdsalloc s < length t") (auto simp: sdsMakeRoomFor_def sdslen_def sds_ok_def)
  then obtain s1 where s1: "(if sdsalloc s < length t then sdsMakeRoomFor us junk s (length t - sdslen s) else Inr s) = Inr s1"
    "sds_ok s1" "length t \<le> sdsalloc s1" by blast
  have room: "length t < length (s_buf s1)" using s1(2,3) by (auto simp: sds_ok_def)
  then have "take (length t) (overwrite (s_buf s1) 0 t) = t" using take_overwrite [of 0 t "s_buf s1"] by simp
  then show ?thesis using in_place [OF s1(2,3), of "overwrite (s_buf s1) 0 t"] s1(1) room
    unfolding sdscpylen_def by (auto simp: put_bytes_ok)
qed

lemma growzero_ok:
  assumes "allocator us" and ok: "sds_ok s" and small: "n < 2 ^ 62"
  shows "\<exists>s'. sdsgrowzero us junk s n = Inr s' \<and> sds_ok s' \<and>
    sds_val s' = sds_val s @ replicate (n - sdslen s) CHR 0x00"
proof (cases "n \<le> sdslen s")
  case False
  define d where "d = n - sdslen s"
  have n: "n = s_len s + d" using False by (simp add: d_def sdslen_def)
  from make_room_ok [OF assms(1,2), of d junk True] obtain s1 where
    s1: "sdsMakeRoomFor us junk s d = Inr s1" "sds_ok s1" "sds_val s1 = sds_val s" "s_len s1 = s_len s"
      "n \<le> sdsalloc s1" using small n by (auto simp: sdsMakeRoomFor_def sdslen_def)
  let ?z = "replicate (d + 1) CHR 0x00" and ?v = "sds_val s @ replicate d CHR 0x00"
  let ?m = "overwrite (s_buf s1) (s_len s) ?z"
  have room: "n < length (s_buf s1)" using s1(2,5) by (auto simp: sds_ok_def)
  have len: "length ?v = n" using sds_ok_len [OF ok] n by (simp add: sdslen_def)
  have t: "take (Suc n) ?m = ?v @ [CHR 0x00]"
    using take_overwrite [of "s_len s" ?z "s_buf s1"] room s1(3,4) n by (simp add: sds_val_def replicate_append_same)
  have "take n ?m = ?v" "?m ! n = CHR 0x00"
    using arg_cong [OF t, of "take n"] arg_cong [OF t, of "\<lambda>x. x ! n"] len by (auto simp: min_def nth_append)
  moreover have "n \<le> sdsalloc (s1\<lparr>s_len := n\<rparr>)" "sdsalloc (s1\<lparr>s_len := n\<rparr>) \<le> sdsalloc s1"
    using s1(5) by (auto simp: sdsalloc_def)
  ultimately have "sds_ok (s1\<lparr>s_buf := ?m, s_len := n\<rparr>) \<and> sds_val (s1\<lparr>s_buf := ?m, s_len := n\<rparr>) = ?v"
    using set_contents [of s1 ?v ?m] s1(2) room n len by (simp add: sds_ok_def)
  moreover have "n \<le> sdsTypeMaxSize (s_type s1)" using s1(2,5) by (auto simp: sds_ok_def)
  ultimately show ?thesis using False s1(1) room n
    by (simp add: sdsgrowzero_def sdslen_def put_bytes_ok setlen_fits Let_def)
qed (auto simp: sdsgrowzero_def ok)

text \<open>Substrings, ranges and trimming only move the front of the buffer.\<close>

lemma substr_ok:
  assumes ok: "sds_ok s"
  shows "\<exists>s'. sdssubstr s start n = Inr s' \<and> sds_ok s' \<and> sds_val s' = take n (drop start (sds_val s))"
proof -
  define st where "st = (if sdslen s \<le> start then 0 else start)"
  define k where "k = (if sdslen s \<le> start then 0 else min n (sdslen s - start))"
  let ?bs = "take k (drop st (s_buf s))"
  have len: "length (sds_val s) = s_len s" using sds_ok_len [OF ok] by (simp add: sdslen_def)
  have room: "s_len s < length (s_buf s)" using ok by (auto simp: sds_ok_def)
  have bounds: "st + k \<le> s_len s" "k \<le> sdsalloc s" using ok by (auto simp: st_def k_def sdslen_def sds_ok_def)
  then have lbs: "length ?bs = k" using room by simp
  have v: "take n (drop start (sds_val s)) = ?bs"
    using len by (auto simp: st_def k_def sds_val_def sdslen_def drop_take min_def)
  have "take k (overwrite (s_buf s) 0 ?bs) = ?bs"
    using take_overwrite [of 0 ?bs "s_buf s"] lbs bounds room by simp
  moreover have "length (overwrite (s_buf s) 0 ?bs) = length (s_buf s)" using lbs bounds room by simp
  ultimately have A: "\<exists>s'. c_bind (put_nul k (s\<lparr>s_buf := overwrite (s_buf s) 0 ?bs\<rparr>)) (\<lambda>s2. Inr (sdssetlen k s2)) = Inr s' \<and>
      sds_ok s' \<and> sds_val s' = ?bs"
    using in_place [OF ok, of ?bs "overwrite (s_buf s) 0 ?bs", unfolded lbs] bounds by blast
  have B: "(if k \<noteq> 0 then c_bind (mem_get (s_buf s) (int st) k) (\<lambda>bs. put_bytes 0 bs s) else Inr s) =
      Inr (s\<lparr>s_buf := overwrite (s_buf s) 0 ?bs\<rparr>)"
    using bounds room lbs by (auto simp: mem_get_def put_bytes_ok overwrite_def)
  have "sdssubstr s start n = c_bind (Inr (s\<lparr>s_buf := overwrite (s_buf s) 0 ?bs\<rparr>)) (\<lambda>s1. c_bind (put_nul k s1) (\<lambda>s2. Inr (sdssetlen k s2)))"
    unfolding B [symmetric] by (auto simp: sdssubstr_def st_def k_def Let_def min_def)
  then show ?thesis using A v by simp
qed

lemma trim_end_case:
  "(r = [] \<or> \<not> P (hd r)) \<Longrightarrow> (case r of [] \<Rightarrow> [] | c # cs \<Rightarrow> c # rev (dropWhile P (rev cs))) = rev (dropWhile P (rev r))"
  by (cases r) (auto simp: dropWhile_append)

lemma rev_dropWhile_take: "rev (dropWhile P (rev xs)) = take (length (dropWhile P (rev xs))) xs"
  by (simp add: dropWhile_eq_drop rev_drop)

lemma trim_ok:
  assumes ok: "sds_ok s"
  shows "\<exists>s'. sdstrim s cset = Inr s' \<and> sds_ok s' \<and>
    sds_val s' = rev (dropWhile (in_cset cset) (rev (dropWhile (in_cset cset) (sds_val s))))"
proof -
  define rest where "rest = dropWhile (in_cset cset) (sds_val s)"
  define kept where "kept = rev (dropWhile (in_cset cset) (rev rest))"
  define m where "m = (if length (sds_val s) - length rest \<noteq> 0 then overwrite (s_buf s) 0 kept else s_buf s)"
  have len: "length (sds_val s) = s_len s" using sds_ok_len [OF ok] by (simp add: sdslen_def)
  have room: "s_len s < length (s_buf s)" "s_len s \<le> sdsalloc s" using ok by (auto simp: sds_ok_def)
  have get: "mem_get (s_buf s) 0 (sdslen s) = Inr (sds_val s)" using room by (simp add: mem_get_def sds_val_def sdslen_def)
  have kept: "(case rest of [] \<Rightarrow> [] | c # cs \<Rightarrow> c # rev (dropWhile (in_cset cset) (rev cs))) = kept"
    unfolding kept_def using hd_dropWhile [of "in_cset cset" "sds_val s"] by (intro trim_end_case) (auto simp: rest_def)
  have lr: "length kept \<le> length rest" "length rest \<le> s_len s"
    using length_dropWhile_le [of "in_cset cset" "rev rest"] length_dropWhile_le [of "in_cset cset" "sds_val s"] len
    by (auto simp: kept_def rest_def)
  have suf: "rest = sds_val s" if "length (sds_val s) - length rest = 0"
  proof -
    have "length (takeWhile (in_cset cset) (sds_val s)) + length rest = s_len s"
      using len by (simp add: rest_def flip: length_append)
    then have "length (takeWhile (in_cset cset) (sds_val s)) = 0" using that len by linarith
    then show ?thesis using takeWhile_dropWhile_id [of "in_cset cset" "sds_val s"] by (simp add: rest_def)
  qed
  have "take (length kept) m = kept"
  proof (cases "length (sds_val s) - length rest = 0")
    case True
    then have "kept = take (length kept) (sds_val s)" using suf rev_dropWhile_take [of "in_cset cset" rest]
      unfolding kept_def length_rev by simp
    then show ?thesis using True lr by (simp add: m_def sds_val_def min_def)
  next
    case False
    then show ?thesis using take_overwrite [of 0 kept "s_buf s"] lr room by (simp add: m_def)
  qed
  moreover have "length m = length (s_buf s)" using lr room by (simp add: m_def)
  ultimately obtain s' where "c_bind (put_nul (length kept) (s\<lparr>s_buf := m\<rparr>)) (\<lambda>s2. Inr (sdssetlen (length kept) s2)) = Inr s'"
    "sds_ok s'" "sds_val s' = kept" using in_place [OF ok, of kept m] lr room by auto
  moreover have "(if length (sds_val s) - length rest \<noteq> 0 then put_bytes 0 kept s else Inr s) = Inr (s\<lparr>s_buf := m\<rparr>)"
    using lr room by (simp add: m_def put_bytes_ok)
  ultimately show ?thesis unfolding sdstrim_def get c_bind_simps Let_def rest_def [symmetric] kept
    by (simp add: kept_def rest_def)
qed

text \<open>The part of a string \<^verbatim>\<open>sdsrange\<close> keeps.  A start further left than the string is long gives the empty string.\<close>

definition range_val :: "string \<Rightarrow> int \<Rightarrow> int \<Rightarrow> string" where
  "range_val v start end =
     (let l = int (length v); a = (if start < 0 then l + start else start); b = (if end < 0 then l + end else end)
      in if a < 0 then [] else take (nat (b - a + 1)) (drop (nat a) v))"

lemma range_ok:
  assumes ok: "sds_ok s" and fits: "fits 8 start" "fits 8 end" and small: "sdslen s < 2 ^ 62"
  shows "\<exists>s'. sdsrange s start end = Inr s' \<and> sds_ok s' \<and> sds_val s' = range_val (sds_val s) start end"
proof (cases "sdslen s = 0")
  case True
  then show ?thesis using ok by (auto simp: sdsrange_def range_val_def sds_val_def sdslen_def)
next
  case False
  define l where "l = int (sdslen s)"
  define a where "a = (if start < 0 then l + start else start)"
  define b where "b = (if end < 0 then l + end else end)"
  have len: "int (length (sds_val s)) = l" using sds_ok_len [OF ok] by (simp add: l_def)
  have bounds: "0 < l" "l < 2 ^ 62" "- (2 ^ 63) \<le> start" "start < 2 ^ 63" "end < 2 ^ 63"
    using False small fits by (auto simp: l_def fits_def)
  obtain s' where s': "sdssubstr s (nat (a mod 2 ^ 64)) (nat ((if b < a then 0 else b - a + 1) mod 2 ^ 64)) = Inr s'"
    "sds_ok s'" "sds_val s' = take (nat ((if b < a then 0 else b - a + 1) mod 2 ^ 64)) (drop (nat (a mod 2 ^ 64)) (sds_val s))"
    using substr_ok [OF ok] by blast
  have run: "sdsrange s start end = Inr s'"
    using False unfolding sdsrange_def Let_def l_def [symmetric] a_def [symmetric] b_def [symmetric] s'(1) by (simp add: l_def)
  have "sds_val s' = range_val (sds_val s) start end"
  proof (cases "a < 0")
    case True
    then have "- (2 ^ 63) \<le> a" using bounds by (auto simp: a_def)
    then have neg: "a mod 2 ^ 64 = a + 2 ^ 64"
      using True mod_add_self2 [of a "2 ^ 64"] mod_pos_pos_trivial [of "a + 2 ^ 64" "2 ^ 64"] by simp
    have "length (sds_val s) \<le> nat (a mod 2 ^ 64)" using len bounds \<open>- (2 ^ 63) \<le> a\<close> unfolding neg by simp
    then show ?thesis using True s'(3) by (simp add: range_val_def Let_def len flip: a_def b_def)
  next
    case pos: False
    have "a < 2 ^ 63" "b < 2 ^ 63" using bounds by (auto simp: a_def b_def)
    then have "a mod 2 ^ 64 = a" "(if b < a then 0 else b - a + 1) mod 2 ^ 64 = (if b < a then 0 else b - a + 1)"
      using pos by (auto intro!: mod_pos_pos_trivial)
    then have "sds_val s' = take (nat (if b < a then 0 else b - a + 1)) (drop (nat a) (sds_val s))" using s'(3) by simp
    then show ?thesis using pos by (simp add: range_val_def Let_def len flip: a_def b_def)
  qed
  then show ?thesis using run s'(2) by blast
qed

text \<open>Resizing: the block is reallocated or replaced, the string truncated to the new capacity.\<close>

definition resize_type :: "sds \<Rightarrow> nat \<Rightarrow> bool \<Rightarrow> nat" where
  "resize_type s siz would_regrow =
     (let t0 = sdsReqType siz; t = (if would_regrow \<and> t0 = SDS_TYPE_5 then SDS_TYPE_8 else t0)
      in if t < s_type s \<and> SDS_TYPE_8 < t then s_type s else t)"

lemma type_max_mono: "t \<le> t' \<Longrightarrow> sdsTypeMaxSize t \<le> sdsTypeMaxSize t'"
  by (auto simp: sdsTypeMaxSize_def sds_types)

lemma resize_type_props:
  assumes "siz < 2 ^ 62" and "s_type s \<le> 4"
  shows "siz \<le> sdsTypeMaxSize (resize_type s siz w)" "resize_type s siz w \<le> 4"
proof -
  let ?t = "if w \<and> sdsReqType siz = SDS_TYPE_5 then SDS_TYPE_8 else sdsReqType siz"
  have *: "siz \<le> sdsTypeMaxSize ?t" using req_type_fits [of siz] type_max_mono [of SDS_TYPE_5 SDS_TYPE_8] assms(1)
    by (auto simp: sds_types)
  show "siz \<le> sdsTypeMaxSize (resize_type s siz w)"
    using * type_max_mono [of ?t "s_type s"] by (auto simp: resize_type_def Let_def)
  show "resize_type s siz w \<le> 4" using req_type_le [of siz] assms(2) by (auto simp: resize_type_def Let_def sds_types)
qed

lemma resize_block:
  assumes us: "allocator us" and ok: "sds_ok s" and small: "siz < 2 ^ 62" and opt: "optimal \<longrightarrow> siz < length (s_buf s)"
    and ne: "sdsalloc s \<noteq> siz" and t: "t = resize_type s siz w" and len: "len = min siz (s_len s)"
  shows "\<exists>m. siz < length m \<and> take len m = take len (s_buf s) \<and>
    sdsResize us junk optimal s siz w = c_bind (Inr (s\<lparr>s_type := t, s_buf := m\<rparr>)) (\<lambda>s1. c_bind (put_nul len s1) (\<lambda>s2.
                Inr (sdssetalloc siz (sdssetlen len s2))))"
proof -
  let ?t = "if w \<and> sdsReqType siz = SDS_TYPE_5 then SDS_TYPE_8 else sdsReqType siz"
  let ?realloc = "s_type s = ?t \<or> (?t < s_type s \<and> SDS_TYPE_8 < ?t)"
  have room: "s_len s < length (s_buf s)" using ok by (auto simp: sds_ok_def)
  have len2: "(if siz < sdslen s then siz else sdslen s) = len" by (auto simp: len sdslen_def)
  have bl: "siz < us (h + siz + 1) - h" for h using allocatorD [OF us, of "h + siz + 1"] by simp
  show ?thesis
  proof (cases ?realloc)
    case True
    then have "t = s_type s" by (auto simp: t resize_type_def Let_def)
    then have st: "s\<lparr>s_type := t, s_buf := m\<rparr> = s\<lparr>s_buf := m\<rparr>" for m by simp
    let ?m = "if optimal then s_buf s else mem_realloc junk (s_buf s) (us (sdsHdrSize (s_type s) + siz + 1) - sdsHdrSize (s_type s))"
    have "take len ?m = take len (s_buf s)" using bl [of "sdsHdrSize (s_type s)"] room
      by (auto simp: list_eq_iff_nth_eq len nth_mem_realloc)
    moreover have "siz < length ?m" using bl [of "sdsHdrSize (s_type s)"] opt by simp
    moreover have "(if optimal then Inr s else Inr (s\<lparr>s_buf := mem_realloc junk (s_buf s) (us (sdsHdrSize (s_type s) + siz + 1) - sdsHdrSize (s_type s))\<rparr>)) =
      (Inr (s\<lparr>s_buf := ?m\<rparr>) :: sds c_result)" by simp
    ultimately show ?thesis using ne unfolding sdsResize_def Let_def len2 st by (intro exI [of _ ?m]) (simp only: True if_True if_False simp_thms)
  next
    case False
    then have "t = ?t" by (auto simp: t resize_type_def Let_def split: if_splits)
    let ?bs = "take len (s_buf s)"
    have lb: "length ?bs = len" using room by (simp add: len)
    let ?f = "map junk [0..<us (sdsHdrSize ?t + siz + 1) - sdsHdrSize ?t]"
    let ?m = "overwrite ?f 0 ?bs"
    have fl: "siz < length ?f" "len \<le> siz" using bl [of "sdsHdrSize ?t"] by (auto simp: len)
    have "take len ?m = ?bs" using take_overwrite [of 0 ?bs ?f] lb fl by simp
    moreover have "siz < length ?m" using fl lb by simp
    moreover have "mem_get (s_buf s) 0 len = Inr ?bs" using room by (simp add: mem_get_def len)
    moreover have "mem_put ?f 0 ?bs = Inr ?m" using lb fl by (simp add: mem_put_def)
    ultimately show ?thesis using ne unfolding sdsResize_def Let_def len2 \<open>t = ?t\<close>
      by (intro exI [of _ ?m]) (simp only: False if_True if_False simp_thms c_bind_simps)
  qed
qed

lemma sds_resize_ok:
  assumes us: "allocator us" and ok: "sds_ok s" and small: "siz < 2 ^ 62" and opt: "optimal \<longrightarrow> siz < length (s_buf s)"
  shows "\<exists>s'. sdsResize us junk optimal s siz w = Inr s' \<and> sds_ok s' \<and> sds_val s' = take siz (sds_val s)"
proof (cases "sdsalloc s = siz")
  case True
  then show ?thesis using ok by (auto simp: sdsResize_def sds_ok_def sds_val_def)
next
  case False
  define t where "t = resize_type s siz w"
  define len where "len = min siz (s_len s)"
  have t: "siz \<le> sdsTypeMaxSize t" "t \<le> 4" using resize_type_props [OF small] ok by (auto simp: t_def sds_ok_def)
  have room: "s_len s < length (s_buf s)" using ok by (auto simp: sds_ok_def)
  have val: "take siz (sds_val s) = take len (s_buf s)" by (simp add: sds_val_def len_def min.commute)
  from resize_block [OF us ok small opt False t_def len_def]
  obtain m where m: "siz < length m" "take len m = take len (s_buf s)"
    "sdsResize us junk optimal s siz w = c_bind (Inr (s\<lparr>s_type := t, s_buf := m\<rparr>)) (\<lambda>s1. c_bind (put_nul len s1) (\<lambda>s2.
                Inr (sdssetalloc siz (sdssetlen len s2))))" by blast
  define s2 where "s2 = (if t = SDS_TYPE_5 then s\<lparr>s_type := t\<rparr> else s\<lparr>s_type := t, s_alloc := siz\<rparr>)"
  let ?v = "take siz (sds_val s)" and ?m = "overwrite m len [CHR 0x00]"
  have len: "length ?v = len" "len \<le> siz" using room val by (auto simp: len_def)
  have "take len ?m = ?v" "?m ! len = CHR 0x00" "length ?m = length m"
    using take_overwrite_before [of len "[CHR 0x00]" m len] overwrite_same_end [of len m] m(1,2) len val by auto
  moreover have "s_type s2 = t" "len \<le> sdsalloc (s2\<lparr>s_len := len\<rparr>)" "sdsalloc (s2\<lparr>s_len := len\<rparr>) \<le> siz"
    using len by (auto simp: s2_def sdsalloc_def)
  ultimately have "sds_ok (s2\<lparr>s_buf := ?m, s_len := len\<rparr>) \<and> sds_val (s2\<lparr>s_buf := ?m, s_len := len\<rparr>) = ?v"
    using set_contents [of s2 ?v ?m, unfolded len(1)] t m(1) by simp
  moreover have "c_bind (put_nul len (s\<lparr>s_type := t, s_buf := m\<rparr>)) (\<lambda>s2. Inr (sdssetalloc siz (sdssetlen len s2))) =
      Inr (s2\<lparr>s_buf := ?m, s_len := len\<rparr>)"
    using m(1) len(2) t(1) by (cases "t = SDS_TYPE_5") (auto simp: put_bytes_ok setlen_fits sdssetalloc_def s2_def)
  ultimately show ?thesis using m(3) by simp
qed

text \<open>A new string.\<close>

lemma newlen_ok:
  assumes us: "allocator us" and small: "n < 2 ^ 62" and len: "n \<le> length bs"
  shows "\<exists>s. sdsnewlen us junk (Init bs) n = Inr (Some s) \<and> sds_ok s \<and> sds_val s = take n bs"
proof -
  define t where "t = (if sdsReqType n = SDS_TYPE_5 \<and> n = 0 then SDS_TYPE_8 else sdsReqType n)"
  define siz where "siz = us (sdsHdrSize t + n + 1)"
  define fresh where "fresh = map junk [0..<siz - sdsHdrSize t]"
  define a where "a = min (siz - sdsHdrSize t - 1) (sdsTypeMaxSize t)"
  have t: "n \<le> sdsTypeMaxSize t" "t \<le> 4" using small req_type_fits [of n] req_type_le [of n]
    by (auto simp: t_def sds_types sdsTypeMaxSize_def)
  have hdr: "sdsHdrSize t \<le> 17" "1 \<le> sdsHdrSize t" using hdr_bounds [OF t(2)] by auto
  have room: "n < length fresh" "n \<le> a" "a < length fresh" "a \<le> sdsTypeMaxSize t"
    using allocatorD [OF us, of "sdsHdrSize t + n + 1"] t(1) by (auto simp: fresh_def a_def siz_def)
  define s0 where "s0 = (if t = SDS_TYPE_5 then \<lparr>s_type = t, s_len = n, s_alloc = 0, s_buf = fresh\<rparr>
    else \<lparr>s_type = t, s_len = n, s_alloc = a, s_buf = fresh\<rparr>)"
  have s0: "sdssetalloc a (sdssetlen n \<lparr>s_type = t, s_len = 0, s_alloc = 0, s_buf = fresh\<rparr>) = s0"
    using t(1) setlen_fits [of n "\<lparr>s_type = t, s_len = 0, s_alloc = 0, s_buf = fresh\<rparr>"]
    by (auto simp: s0_def sdssetalloc_def a_def)
  let ?m = "overwrite (overwrite fresh 0 (take n bs)) n [CHR 0x00]"
  have lt: "length (take n bs) = n" using len by simp
  have "take n ?m = take n bs" "?m ! n = CHR 0x00" "length ?m = length fresh"
    using take_overwrite [of 0 "take n bs" fresh] take_overwrite_before [of n "[CHR 0x00]" "overwrite fresh 0 (take n bs)" n]
      overwrite_same_end [of n "overwrite fresh 0 (take n bs)"] lt room by auto
  moreover have "s_type s0 = t" "s_buf s0 = fresh" "n \<le> sdsalloc (s0\<lparr>s_len := n\<rparr>)" "sdsalloc (s0\<lparr>s_len := n\<rparr>) \<le> a" "s_len s0 = n"
    using room by (auto simp: s0_def sdsalloc_def)
  ultimately have "sds_ok (s0\<lparr>s_buf := ?m, s_len := n\<rparr>) \<and> sds_val (s0\<lparr>s_buf := ?m, s_len := n\<rparr>) = take n bs"
    using set_contents [of s0 "take n bs" ?m, unfolded lt] t room by simp
  moreover have "s0\<lparr>s_buf := ?m, s_len := n\<rparr> = s0\<lparr>s_buf := ?m\<rparr>" using \<open>s_len s0 = n\<close> by simp
  moreover have "sdsnewlen us junk (Init bs) n = Inr (Some (s0\<lparr>s_buf := ?m\<rparr>))"
    unfolding sdsnewlen_def sdsnewlen_gen_def Let_def t_def [symmetric] siz_def [symmetric] fresh_def [symmetric] a_def [symmetric]
    using s0 small hdr len room lt \<open>s_buf s0 = fresh\<close> by (simp add: put_bytes_ok)
  ultimately show ?thesis by auto
qed

section \<open>Properties\<close>

text \<open>
  C27. Creating, appending, copying and growing with zeros return a well-formed string, with a header type that
  can hold its length and capacity, its bytes inside the block and a terminator after them, and with the contents the
  operation promises, whatever the header type before and whatever slack the allocator gives.
\<close>

theorem sds_edits_typed:
  assumes "allocator us" and "sds_ok s" and "sdslen s + length t < 2 ^ 62" and "n < 2 ^ 62"
  shows "(\<exists>s'. sdsnewlen us junk (Init t) (length t) = Inr (Some s') \<and> sds_ok s' \<and> sds_val s' = t) \<and>
    (\<exists>s'. sdscatlen us junk s t = Inr s' \<and> sds_ok s' \<and> sds_val s' = sds_val s @ t) \<and>
    (\<exists>s'. sdscpylen us junk s t = Inr s' \<and> sds_ok s' \<and> sds_val s' = t) \<and>
    (\<exists>s'. sdsgrowzero us junk s n = Inr s' \<and> sds_ok s' \<and> sds_val s' = sds_val s @ replicate (n - sdslen s) CHR 0x00)"
  using newlen_ok [OF assms(1), of "length t" t junk] catlen_ok [OF assms(1-3), of junk] cpylen_ok [OF assms(1,2), of t junk]
    growzero_ok [OF assms(1,2,4), of junk] assms(3) by auto

definition ex_sds :: sds where
  "ex_sds = \<lparr>s_type = SDS_TYPE_5, s_len = 3, s_alloc = 0, s_buf = ''abc'' @ [CHR 0x00]\<rparr>"

lemma ex_sds_ok: "sds_ok ex_sds" "sdslen ex_sds = 3" "sds_val ex_sds = ''abc''" "allocator (\<lambda>n. n)"
  by (auto simp: ex_sds_def sds_ok_def sdsalloc_def sds_types sdsTypeMaxSize_def sdslen_def sds_val_def allocator_def)

theorem sds_edits_typed_witness:
  "\<exists>s'. sdscatlen (\<lambda>n. n) (\<lambda>_. CHR ''?'') ex_sds ''def'' = Inr s' \<and> sds_ok s' \<and> sds_val s' = ''abcdef''"
  using sds_edits_typed [of "\<lambda>n. n" ex_sds "''def''" 5 "\<lambda>_. CHR ''?''"] ex_sds_ok by simp

text \<open>
  C28. Resizing keeps the string up to the new capacity and truncates it there, also when the header changes
  to a smaller or a larger type or the block is kept because the allocator would give the same size again.
\<close>

theorem sdsResize_truncates:
  assumes "allocator us" and "sds_ok s" and "siz < 2 ^ 62" and "optimal \<longrightarrow> siz < length (s_buf s)"
  shows "\<exists>s'. sdsResize us junk optimal s siz would_regrow = Inr s' \<and> sds_ok s' \<and> sds_val s' = take siz (sds_val s)"
  using assms by (rule sds_resize_ok)

theorem sdsResize_truncates_witness:
  "\<exists>s'. sdsResize (\<lambda>n. n) (\<lambda>_. CHR ''?'') False ex_sds 2 True = Inr s' \<and> sds_ok s' \<and> sds_val s' = ''ab''"
  using sdsResize_truncates [of "\<lambda>n. n" ex_sds 2 False "\<lambda>_. CHR ''?''" True] ex_sds_ok by simp

text \<open>
  C29. The operations in place: a substring is the given number of bytes from the start, clipped to the string; a range counts
  negative indexes from the end; trimming drops the bytes of the set, and also NUL bytes, at both ends.  All stay inside
  the block and leave a well-formed string.
\<close>

theorem sds_in_place:
  assumes "sds_ok s" and "sdslen s < 2 ^ 62" and "fits 8 a" and "fits 8 b"
  shows "(\<exists>s'. sdssubstr s start n = Inr s' \<and> sds_ok s' \<and> sds_val s' = take n (drop start (sds_val s))) \<and>
    (\<exists>s'. sdsrange s a b = Inr s' \<and> sds_ok s' \<and> sds_val s' = range_val (sds_val s) a b) \<and>
    (\<exists>s'. sdstrim s cset = Inr s' \<and> sds_ok s' \<and>
      sds_val s' = rev (dropWhile (in_cset cset) (rev (dropWhile (in_cset cset) (sds_val s)))))"
  using substr_ok [OF assms(1)] range_ok [OF assms(1,3,4,2)] trim_ok [OF assms(1)] by auto

theorem sds_in_place_witness:
  "\<exists>s'. sdsrange ex_sds 1 (- 1) = Inr s' \<and> sds_ok s' \<and> sds_val s' = ''bc''"
  using sds_in_place [of ex_sds 1 "- 1"] ex_sds_ok by (simp add: fits_def range_val_def)

end
