(* ===== verification/Redis_Sds_Text.thy ===== *)
theory Redis_Sds_Text
  imports Redis_Sds
begin

text \<open>
  The operations of \<^verbatim>\<open>redis-7.2.4/src/sds.c\<close> on text: formatting, quoting, splitting and joining.  Those
  that append to a dynamic string call the operations of \<open>Redis_Sds\<close>, with the allocator as a
  parameter; the arrays of tokens the splitters return are lists of the tokens' contents.
\<close>

section \<open>Characters and comparison\<close>

text \<open>\<^verbatim>\<open>isprint\<close> and \<^verbatim>\<open>toupper\<close> in the C locale.\<close>

definition is_print :: "char \<Rightarrow> bool" where
  "is_print c \<longleftrightarrow> 32 \<le> (of_char c :: nat) \<and> (of_char c :: nat) \<le> 126"

definition upper :: "char \<Rightarrow> char" where
  "upper c = (if 97 \<le> (of_char c :: nat) \<and> (of_char c :: nat) \<le> 122 then char_of (of_char c - 32 :: nat) else c)"

definition sdstolower :: "sds \<Rightarrow> sds c_result" where
  "sdstolower s = c_bind (mem_get (s_buf s) 0 (sdslen s)) (\<lambda>bs. put_bytes 0 (map lower bs) s)"

definition sdstoupper :: "sds \<Rightarrow> sds c_result" where
  "sdstoupper s = c_bind (mem_get (s_buf s) 0 (sdslen s)) (\<lambda>bs. put_bytes 0 (map upper bs) s)"

text \<open>\<^verbatim>\<open>memcmp\<close>, of which only the sign counts.\<close>

fun memcmp :: "string \<Rightarrow> string \<Rightarrow> int" where
  "memcmp (a # as) (b # bs) = (if a = b then memcmp as bs else if (of_char a :: nat) < of_char b then - 1 else 1)"
| "memcmp _ _ = 0"

definition sdscmp :: "sds \<Rightarrow> sds \<Rightarrow> int c_result" where
  "sdscmp s1 s2 =
     (let l1 = sdslen s1; l2 = sdslen s2; minlen = (if l1 < l2 then l1 else l2)
      in c_bind (mem_get (s_buf s1) 0 minlen) (\<lambda>a.
         c_bind (mem_get (s_buf s2) 0 minlen) (\<lambda>b.
           let cmp = memcmp a b
           in Inr (if cmp = 0 then if l2 < l1 then 1 else if l1 < l2 then - 1 else 0 else cmp))))"

text \<open>The first position of \<open>from\<close> that matches decides.\<close>

fun map_one :: "string \<Rightarrow> string \<Rightarrow> char \<Rightarrow> char" where
  "map_one (f # from) (t # to) c = (if c = f then t else map_one from to c)"
| "map_one _ _ c = c"

definition sdsmapchars :: "sds \<Rightarrow> string \<Rightarrow> string \<Rightarrow> nat \<Rightarrow> sds c_result" where
  "sdsmapchars s from to setlen =
     (if length from < setlen \<or> length to < setlen then Inl OutOfBounds
      else c_bind (mem_get (s_buf s) 0 (sdslen s)) (\<lambda>bs.
             put_bytes 0 (map (map_one (take setlen from) (take setlen to)) bs) s))"

section \<open>Formatting\<close>

text \<open>The variable arguments.  Fetching one of another type, or one too many, is undefined.\<close>

datatype fmt_arg = AStr string | ASds sds | AInt int | ALongLong int | AUInt nat | AULongLong nat

definition fmt_string :: "char \<Rightarrow> fmt_arg list \<Rightarrow> (string \<times> fmt_arg list) c_result" where
  "fmt_string next args =
     (case args of
        AStr t # rest \<Rightarrow> if next = CHR ''s'' then Inr (cstr t, rest) else Inl OutOfBounds
      | ASds t # rest \<Rightarrow>
          if next = CHR ''S'' then c_bind (mem_get (s_buf t) 0 (sdslen t)) (\<lambda>bs. Inr (bs, rest)) else Inl OutOfBounds
      | _ \<Rightarrow> Inl OutOfBounds)"

definition fmt_number :: "string \<Rightarrow> char \<Rightarrow> fmt_arg list \<Rightarrow> (string \<times> fmt_arg list) c_result" where
  "fmt_number buf next args =
     (let out = (\<lambda>rest (b, l). Inr (take l b, rest))
      in case args of
        AInt n # rest \<Rightarrow> if next = CHR ''i'' then c_bind (ll2string buf n) (out rest) else Inl OutOfBounds
      | ALongLong n # rest \<Rightarrow> if next = CHR ''I'' then c_bind (ll2string buf n) (out rest) else Inl OutOfBounds
      | AUInt n # rest \<Rightarrow> if next = CHR ''u'' then c_bind (ull2string buf n) (out rest) else Inl OutOfBounds
      | AULongLong n # rest \<Rightarrow> if next = CHR ''U'' then c_bind (ull2string buf n) (out rest) else Inl OutOfBounds
      | _ \<Rightarrow> Inl OutOfBounds)"

definition put_inc :: "nat \<Rightarrow> string \<Rightarrow> sds \<Rightarrow> sds c_result" where
  "put_inc i t s = c_bind (put_bytes i t s) (\<lambda>s1. Inr (sdsinclen (length t) s1))"

definition fmt_item :: "(nat \<Rightarrow> nat) \<Rightarrow> (nat \<Rightarrow> char) \<Rightarrow> string \<Rightarrow> sds \<Rightarrow> nat \<Rightarrow> char \<Rightarrow> fmt_arg list
    \<Rightarrow> (sds \<times> nat \<times> fmt_arg list) c_result" where
  "fmt_item us junk buf s i next args =
     (let add = (\<lambda>(t, rest).
        c_bind (if sdsavail s < length t then sdsMakeRoomFor us junk s (length t) else Inr s) (\<lambda>s1.
        c_bind (put_inc i t s1) (\<lambda>s2. Inr (s2, i + length t, rest))))
      in if next = CHR ''s'' \<or> next = CHR ''S'' then c_bind (fmt_string next args) add
         else if next = CHR ''i'' \<or> next = CHR ''I'' \<or> next = CHR ''u'' \<or> next = CHR ''U''
         then c_bind (fmt_number buf next args) add
         else c_bind (put_inc i [next] s) (\<lambda>s1. Inr (s1, i + 1, args)))"

fun catfmt_loop :: "(nat \<Rightarrow> nat) \<Rightarrow> (nat \<Rightarrow> char) \<Rightarrow> string \<Rightarrow> sds \<Rightarrow> nat \<Rightarrow> string \<Rightarrow> fmt_arg list \<Rightarrow> (sds \<times> nat) c_result" where
  "catfmt_loop us junk buf s i [] args = Inr (s, i)"
| "catfmt_loop us junk buf s i (c # f) args =
     c_bind (if sdsavail s = 0 then sdsMakeRoomFor us junk s 1 else Inr s) (\<lambda>s.
       if c = CHR ''%'' then
         (case f of
            [] \<Rightarrow> Inr (s, i)
          | next # f' \<Rightarrow> c_bind (fmt_item us junk buf s i next args) (\<lambda>(s, i, args). catfmt_loop us junk buf s i f' args))
       else c_bind (put_inc i [c] s) (\<lambda>s. catfmt_loop us junk buf s (i + 1) f args))"

definition sdscatfmt :: "(nat \<Rightarrow> nat) \<Rightarrow> (nat \<Rightarrow> char) \<Rightarrow> string \<Rightarrow> sds \<Rightarrow> string \<Rightarrow> fmt_arg list \<Rightarrow> sds c_result" where
  "sdscatfmt us junk buf s fmt args =
     (let initlen = sdslen s
      in c_bind (sdsMakeRoomFor us junk s (length (cstr fmt) * 2)) (\<lambda>s.
         c_bind (catfmt_loop us junk (take LONG_STR_SIZE buf) s initlen (cstr fmt) args) (\<lambda>(s, i). put_nul i s)))"

section \<open>Quoting\<close>

text \<open>The format \<^verbatim>\<open>%02x\<close>.\<close>

definition hex_char :: "nat \<Rightarrow> char" where
  "hex_char d = (if d < 10 then char_of (48 + d) else char_of (87 + d))"

definition hex02 :: "char \<Rightarrow> string" where
  "hex02 c = [hex_char (of_char c div 16), hex_char (of_char c mod 16)]"

text \<open>What \<^verbatim>\<open>sdscatrepr\<close> appends for one byte.\<close>

definition repr_char :: "char \<Rightarrow> string" where
  "repr_char c =
     (if c = CHR 0x5C \<or> c = CHR 0x22 then [CHR 0x5C, c]
      else if c = CHR 0x0A then [CHR 0x5C, CHR ''n'']
      else if c = CHR 0x0D then [CHR 0x5C, CHR ''r'']
      else if c = CHR 0x09 then [CHR 0x5C, CHR ''t'']
      else if c = CHR 0x07 then [CHR 0x5C, CHR ''a'']
      else if c = CHR 0x08 then [CHR 0x5C, CHR ''b'']
      else if is_print c then [c]
      else [CHR 0x5C, CHR ''x''] @ hex02 c)"

fun catrepr_loop :: "(nat \<Rightarrow> nat) \<Rightarrow> (nat \<Rightarrow> char) \<Rightarrow> sds \<Rightarrow> string \<Rightarrow> sds c_result" where
  "catrepr_loop us junk s [] = Inr s"
| "catrepr_loop us junk s (c # p) = c_bind (sdscatlen us junk s (repr_char c)) (\<lambda>s. catrepr_loop us junk s p)"

definition sdscatrepr :: "(nat \<Rightarrow> nat) \<Rightarrow> (nat \<Rightarrow> char) \<Rightarrow> sds \<Rightarrow> string \<Rightarrow> sds c_result" where
  "sdscatrepr us junk s p =
     c_bind (sdsMakeRoomFor us junk s (length p + 2)) (\<lambda>s.
     c_bind (sdscatlen us junk s [CHR 0x22]) (\<lambda>s.
     c_bind (catrepr_loop us junk s p) (\<lambda>s. sdscatlen us junk s [CHR 0x22])))"

definition needs_repr_char :: "char \<Rightarrow> bool" where
  "needs_repr_char c \<longleftrightarrow> c = CHR 0x5C \<or> c = CHR 0x22 \<or> c = CHR 0x0A \<or> c = CHR 0x0D \<or> c = CHR 0x09 \<or> c = CHR 0x07 \<or>
     c = CHR 0x08 \<or> \<not> is_print c \<or> is_space c"

definition sdsneedsrepr :: "sds \<Rightarrow> bool c_result" where
  "sdsneedsrepr s = c_bind (mem_get (s_buf s) 0 (sdslen s)) (\<lambda>bs. Inr (list_ex needs_repr_char bs))"

section \<open>Reading arguments\<close>

definition is_hex_digit :: "char \<Rightarrow> bool" where
  "is_hex_digit c \<longleftrightarrow>
     (48 \<le> (of_char c :: nat) \<and> (of_char c :: nat) \<le> 57) \<or>
     (97 \<le> (of_char c :: nat) \<and> (of_char c :: nat) \<le> 102) \<or> (65 \<le> (of_char c :: nat) \<and> (of_char c :: nat) \<le> 70)"

definition hex_digit_to_int :: "char \<Rightarrow> nat" where
  "hex_digit_to_int c =
     (if 48 \<le> (of_char c :: nat) \<and> (of_char c :: nat) \<le> 57 then of_char c - 48
      else if c \<in> set ''aA'' then 10 else if c \<in> set ''bB'' then 11 else if c \<in> set ''cC'' then 12
      else if c \<in> set ''dD'' then 13 else if c \<in> set ''eE'' then 14 else if c \<in> set ''fF'' then 15 else 0)"

definition unescape :: "char \<Rightarrow> char" where
  "unescape c =
     (if c = CHR ''n'' then CHR 0x0A else if c = CHR ''r'' then CHR 0x0D else if c = CHR ''t'' then CHR 0x09
      else if c = CHR ''b'' then CHR 0x08 else if c = CHR ''a'' then CHR 0x07 else c)"

text \<open>The byte at an offset of the line, which ends with NUL.\<close>

definition at :: "string \<Rightarrow> nat \<Rightarrow> char" where
  "at p i = (if i < length p then p ! i else CHR 0x00)"

text \<open>Where the reader of a token is: outside quotes, in double or in single quotes.\<close>

datatype quoting = Plain | InQ | InSQ

function arg_token :: "quoting \<Rightarrow> string \<Rightarrow> string \<Rightarrow> (string \<times> string) option" where
  "arg_token InQ cur p =
     (if at p 0 = CHR 0x5C \<and> at p 1 = CHR ''x'' \<and> is_hex_digit (at p 2) \<and> is_hex_digit (at p 3)
      then arg_token InQ (cur @ [char_of (hex_digit_to_int (at p 2) * 16 + hex_digit_to_int (at p 3))]) (drop 4 p)
      else if at p 0 = CHR 0x5C \<and> at p 1 \<noteq> CHR 0x00 then arg_token InQ (cur @ [unescape (at p 1)]) (drop 2 p)
      else if at p 0 = CHR 0x22 then if at p 1 \<noteq> CHR 0x00 \<and> \<not> is_space (at p 1) then None else Some (cur, drop 1 p)
      else if at p 0 = CHR 0x00 then None
      else arg_token InQ (cur @ [at p 0]) (drop 1 p))"
| "arg_token InSQ cur p =
     (if at p 0 = CHR 0x5C \<and> at p 1 = CHR 0x27 then arg_token InSQ (cur @ [CHR 0x27]) (drop 2 p)
      else if at p 0 = CHR 0x27 then if at p 1 \<noteq> CHR 0x00 \<and> \<not> is_space (at p 1) then None else Some (cur, drop 1 p)
      else if at p 0 = CHR 0x00 then None
      else arg_token InSQ (cur @ [at p 0]) (drop 1 p))"
| "arg_token Plain cur p =
     (if at p 0 \<in> {CHR '' '', CHR 0x0A, CHR 0x0D, CHR 0x09, CHR 0x00} then Some (cur, drop 1 p)
      else if at p 0 = CHR 0x22 then arg_token InQ cur (drop 1 p)
      else if at p 0 = CHR 0x27 then arg_token InSQ cur (drop 1 p)
      else arg_token Plain (cur @ [at p 0]) (drop 1 p))"
  by pat_completeness auto
termination
  by (relation "measure (\<lambda>(q, cur, p). length p)") (auto simp: at_def split: if_splits)

definition shorter :: "string \<Rightarrow> (string \<times> string) option \<Rightarrow> bool" where
  "shorter p x \<longleftrightarrow> (\<forall>t r. x = Some (t, r) \<longrightarrow> length r \<le> length p - 1)"

lemma shorter_simps: "shorter p None" "shorter p (Some (t, drop 1 p))" "shorter (drop k p) x \<Longrightarrow> shorter p x"
  by (auto simp: shorter_def)

lemma shorter_if: "(b \<Longrightarrow> shorter p x) \<Longrightarrow> (\<not> b \<Longrightarrow> shorter p y) \<Longrightarrow> shorter p (if b then x else y)"
  by simp

lemma arg_token_shorter: "shorter p (arg_token q cur p)"
proof (induction q cur p rule: arg_token.induct)
  case (1 cur p)
  show ?case by (subst arg_token.simps, intro shorter_if; (rule shorter_simps(1,2) | rule shorter_simps(3), rule "1.IH"; assumption))
next
  case (2 cur p)
  show ?case by (subst arg_token.simps, intro shorter_if; (rule shorter_simps(1,2) | rule shorter_simps(3), rule "2.IH"; assumption))
next
  case (3 cur p)
  show ?case by (subst arg_token.simps, intro shorter_if; (rule shorter_simps(1,2) | rule shorter_simps(3), rule "3.IH"; assumption))
qed

lemma arg_token_consumes: "arg_token q cur p = Some (t, r) \<Longrightarrow> length r \<le> length p - 1"
  using arg_token_shorter [of p q cur] by (simp add: shorter_def)

declare arg_token.simps [simp del]

function split_args :: "string \<Rightarrow> string list option" where
  "split_args p =
     (let p = dropWhile is_space p
      in if p = [] then Some []
         else case arg_token Plain [] p of None \<Rightarrow> None | Some (t, r) \<Rightarrow> map_option ((#) t) (split_args r))"
  by pat_completeness auto
termination
proof (relation "measure length", simp, goal_cases)
  case (1 p p' a t r)
  then have "length r \<le> length p' - 1" "length p' \<le> length p" "p' \<noteq> []"
    using arg_token_consumes [of Plain "[]" p' t r] length_dropWhile_le [of is_space p] by auto
  then show ?case by (cases p') auto
qed

declare split_args.simps [simp del]

definition sdssplitargs :: "string \<Rightarrow> string list option" where
  "sdssplitargs line = split_args (cstr line)"

section \<open>Splitting and joining\<close>




fun join_loop :: "(nat \<Rightarrow> nat) \<Rightarrow> (nat \<Rightarrow> char) \<Rightarrow> sds \<Rightarrow> string list \<Rightarrow> string \<Rightarrow> sds c_result" where
  "join_loop us junk join [] sep = Inr join"
| "join_loop us junk join (a # argv) sep =
     c_bind (sdscat us junk join a) (\<lambda>join.
     c_bind (if argv \<noteq> [] then sdscat us junk join sep else Inr join) (\<lambda>join. join_loop us junk join argv sep))"

definition sdsjoin :: "(nat \<Rightarrow> nat) \<Rightarrow> (nat \<Rightarrow> char) \<Rightarrow> string list \<Rightarrow> string \<Rightarrow> sds c_result" where
  "sdsjoin us junk argv sep =
     c_bind (sdsempty us junk) (\<lambda>e. case e of None \<Rightarrow> Inl NullDeref | Some join \<Rightarrow> join_loop us junk join argv sep)"



section \<open>Templates\<close>

text \<open>
  The callback maps a variable name to its value, or fails; \<open>None\<close> is the error result of
  \<^verbatim>\<open>sdstemplate\<close>.
\<close>

lemma tl_dropWhile_shorter: "tl (dropWhile P p) = c # r \<Longrightarrow> length (c # r) < length p"
  using length_dropWhile_le [of P p] length_tl [of "dropWhile P p"] by simp

function template_loop :: "(nat \<Rightarrow> nat) \<Rightarrow> (nat \<Rightarrow> char) \<Rightarrow> (string \<Rightarrow> string option) \<Rightarrow> sds \<Rightarrow> string \<Rightarrow> sds option c_result" where
  "template_loop us junk cb res p =
     (if p = [] then Inr (Some res)
      else let lit = takeWhile (\<lambda>c. c \<noteq> CHR 0x7B) p; sv = dropWhile (\<lambda>c. c \<noteq> CHR 0x7B) p
           in if sv = [] then c_bind (sdscat us junk res p) (\<lambda>res. Inr (Some res))
              else c_bind (if lit \<noteq> [] then sdscatlen us junk res lit else Inr res) (\<lambda>res.
                   case tl sv of
                     [] \<Rightarrow> Inr None
                   | c # r \<Rightarrow>
                       if c = CHR 0x7B then c_bind (sdscat us junk res [CHR 0x7B]) (\<lambda>res. template_loop us junk cb res r)
                       else let ev = dropWhile (\<lambda>c. c \<noteq> CHR 0x7D) (c # r)
                            in if ev = [] then Inr None
                               else case cb (takeWhile (\<lambda>c. c \<noteq> CHR 0x7D) (c # r)) of
                                      None \<Rightarrow> Inr None
                                    | Some v \<Rightarrow> c_bind (sdscat us junk res v) (\<lambda>res. template_loop us junk cb res (tl ev))))"
  by pat_completeness auto
termination
proof (relation "measure (\<lambda>(us, junk, cb, res, p). length p)", simp, goal_cases)
  case (1 us junk cb res p lit sv res' c r)
  then show ?case using tl_dropWhile_shorter [of "\<lambda>c. c \<noteq> CHR 0x7B" p c r] by simp
next
  case (2 us junk cb res p lit sv res' c r ev v)
  then have "length (c # r) < length p" using tl_dropWhile_shorter [of "\<lambda>c. c \<noteq> CHR 0x7B" p c r] by simp
  moreover have "length ev \<le> length (c # r)" unfolding 2(7) by (rule length_dropWhile_le)
  ultimately show ?case by simp
qed

declare template_loop.simps [simp del]

definition sdstemplate :: "(nat \<Rightarrow> nat) \<Rightarrow> (nat \<Rightarrow> char) \<Rightarrow> (string \<Rightarrow> string option) \<Rightarrow> string \<Rightarrow> sds option c_result" where
  "sdstemplate us junk cb template =
     c_bind (sdsempty us junk) (\<lambda>e. case e of None \<Rightarrow> Inl NullDeref | Some res \<Rightarrow> template_loop us junk cb res (cstr template))"

section \<open>Appending as an interface\<close>

text \<open>
  What the builders of text rely on: appending to a good string gives a good string with the text at its end, as
  long as the total stays below a bound.
\<close>

locale string_builder =
  fixes cat :: "'s \<Rightarrow> string \<Rightarrow> 's c_result" and ok :: "'s \<Rightarrow> bool" and val :: "'s \<Rightarrow> string" and cap :: nat
  assumes cat_law: "ok s \<Longrightarrow> length (val s) + length t < cap \<Longrightarrow> \<exists>s'. cat s t = Inr s' \<and> ok s' \<and> val s' = val s @ t"
begin

lemma cat_then:
  assumes "ok s" and "length (val s) + length t < cap"
    and "\<And>s'. ok s' \<Longrightarrow> val s' = val s @ t \<Longrightarrow> \<exists>r. f s' = Inr r \<and> Q r"
  shows "\<exists>r. c_bind (cat s t) f = Inr r \<and> Q r"
  using cat_law [OF assms(1,2)] assms(3) by auto

lemma cat_each:
  assumes "\<And>s. g s [] = Inr s" and "\<And>s x xs. g s (x # xs) = c_bind (cat s (piece x)) (\<lambda>s. g s xs)"
    and "ok s" and "length (val s) + length (concat (map piece xs)) < cap"
  shows "\<exists>s'. g s xs = Inr s' \<and> ok s' \<and> val s' = val s @ concat (map piece xs)"
  using assms(3,4)
proof (induction xs arbitrary: s)
  case (Cons x xs)
  show ?case unfolding assms(2)
  proof (rule cat_then [OF Cons.prems(1)])
    fix s' assume "ok s'" and "val s' = val s @ piece x"
    then show "\<exists>r. g s' xs = Inr r \<and> ok r \<and> val r = val s @ concat (map piece (x # xs))"
      using Cons.IH [of s'] Cons.prems(2) by auto
  qed (use Cons.prems(2) in simp)
qed (simp add: assms(1))

end

interpretation sds_builder: string_builder "sdscatlen us junk" "\<lambda>s. allocator us \<and> sds_ok s" sds_val "2 ^ 62" for us junk
  by unfold_locales (use catlen_ok sds_ok_len in fastforce)

text \<open>The quoted form of a string.\<close>

definition repr :: "string \<Rightarrow> string" where
  "repr p = [CHR 0x22] @ concat (map repr_char p) @ [CHR 0x22]"

lemma length_repr_char: "length (repr_char c) \<le> 4"
  by (simp add: repr_char_def hex02_def)

lemma length_reprs: "length (concat (map repr_char p)) \<le> 4 * length p"
proof (induction p)
  case (Cons c p)
  then show ?case using length_repr_char [of c] by simp
qed simp

lemma catrepr_ok:
  assumes us: "allocator us" and ok: "sds_ok s" and small: "sdslen s + 4 * length p + 2 < 2 ^ 62"
  shows "\<exists>s'. sdscatrepr us junk s p = Inr s' \<and> sds_ok s' \<and> sds_val s' = sds_val s @ repr p"
proof -
  obtain s1 where s1: "sdsMakeRoomFor us junk s (length p + 2) = Inr s1" "sds_ok s1" "sds_val s1 = sds_val s"
    using make_room_ok [OF us ok, of "length p + 2" junk True] small by (auto simp: sdsMakeRoomFor_def)
  have len: "length (sds_val s) = sdslen s" using sds_ok_len [OF ok] .
  note lr = length_reprs [of p]
  have "\<exists>r. c_bind (sdscatlen us junk s1 [CHR 0x22]) (\<lambda>s. c_bind (catrepr_loop us junk s p) (\<lambda>s. sdscatlen us junk s [CHR 0x22])) = Inr r \<and>
      (sds_ok r \<and> sds_val r = sds_val s @ repr p)"
  proof (rule sds_builder.cat_then, goal_cases)
    case (3 s2)
    have "\<exists>s3. catrepr_loop us junk s2 p = Inr s3 \<and> (allocator us \<and> sds_ok s3) \<and> sds_val s3 = sds_val s2 @ concat (map repr_char p)"
      by (rule sds_builder.cat_each) (use 3 s1 small lr len in auto)
    then obtain s3 where s3: "catrepr_loop us junk s2 p = Inr s3" "sds_ok s3" "sds_val s3 = sds_val s2 @ concat (map repr_char p)"
      by blast
    have "\<exists>s4. sdscatlen us junk s3 [CHR 0x22] = Inr s4 \<and> (allocator us \<and> sds_ok s4) \<and> sds_val s4 = sds_val s3 @ [CHR 0x22]"
      by (rule sds_builder.cat_law) (use us s3 3 s1 small lr len in auto)
    then show ?case using s3 3 s1 by (auto simp: repr_def)
  qed (use us s1 small len in auto)
  then show ?thesis unfolding sdscatrepr_def using s1(1) by simp
qed

section \<open>Quoted text read back\<close>

lemma at_simps [simp]:
  "at (c # p) 0 = c" "at (c # p) (Suc i) = at p i" "at (c # p) 1 = at p 0" "at (c # p) (numeral k) = at p (pred_numeral k)" "at [] i = CHR 0x00"
  by (auto simp: at_def nth_Cons')

lemma hex_char_props:
  assumes "d < 16"
  shows "is_hex_digit (hex_char d)" "hex_digit_to_int (hex_char d) = d"
proof -
  from assms consider "d < 10" | "d = 10" | "d = 11" | "d = 12" | "d = 13" | "d = 14" | "d = 15" by linarith
  then have "is_hex_digit (hex_char d) \<and> hex_digit_to_int (hex_char d) = d"
    by cases (simp_all add: hex_char_def is_hex_digit_def hex_digit_to_int_def, simp_all add: char_of_def bit_0)
  then show "is_hex_digit (hex_char d)" "hex_digit_to_int (hex_char d) = d" by auto
qed

lemma read_plain:
  "c \<noteq> CHR 0x5C \<Longrightarrow> c \<noteq> CHR 0x22 \<Longrightarrow> c \<noteq> CHR 0x00 \<Longrightarrow> arg_token InQ cur (c # r) = arg_token InQ (cur @ [c]) r"
  by (subst arg_token.simps(1)) simp

lemma read_escape:
  "c \<noteq> CHR ''x'' \<Longrightarrow> c \<noteq> CHR 0x00 \<Longrightarrow> arg_token InQ cur (CHR 0x5C # c # r) = arg_token InQ (cur @ [unescape c]) r"
  by (subst arg_token.simps(1)) simp

lemma read_hex:
  "is_hex_digit a \<Longrightarrow> is_hex_digit b \<Longrightarrow>
   arg_token InQ cur (CHR 0x5C # CHR ''x'' # a # b # r) = arg_token InQ (cur @ [char_of (hex_digit_to_int a * 16 + hex_digit_to_int b)]) r"
  by (subst arg_token.simps(1)) simp

lemma read_hex02: "arg_token InQ cur (CHR 0x5C # CHR ''x'' # hex02 c @ r) = arg_token InQ (cur @ [c]) r"
proof -
  let ?n = "of_char c :: nat"
  have d: "?n div 16 < 16" "?n mod 16 < 16" using less_mult_imp_div_less [of ?n 16 16] nat_of_char_less_256 [of c] by auto
  have "?n div 16 * 16 + ?n mod 16 = ?n" by simp
  then show ?thesis using d by (simp add: hex02_def read_hex hex_char_props)
qed

lemma print_not_nul: "is_print c \<Longrightarrow> c \<noteq> CHR 0x00"
  by (auto simp: is_print_def)

lemma read_repr_char: "arg_token InQ cur (repr_char c @ r) = arg_token InQ (cur @ [c]) r"
  unfolding repr_char_def
  by (auto simp: read_escape read_plain read_hex02 unescape_def print_not_nul)

lemma read_quoted:
  assumes "r = [] \<or> is_space (hd r)"
  shows "arg_token InQ cur (concat (map repr_char p) @ [CHR 0x22] @ r) = Some (cur @ p, r)"
proof (induction p arbitrary: cur)
  case Nil
  have "at r 0 = CHR 0x00 \<or> is_space (at r 0)" using assms by (cases r) auto
  then show ?case by (subst arg_token.simps(1)) simp
next
  case (Cons c p)
  then show ?case by (simp add: read_repr_char)
qed

lemma hex_char_no_nul: "d < 16 \<Longrightarrow> hex_char d \<noteq> CHR 0x00"
  using hex_char_props(1) [of d] by (auto simp: is_hex_digit_def)

lemma repr_char_no_nul: "CHR 0x00 \<notin> set (repr_char c)"
proof -
  have "(of_char c :: nat) div 16 < 16" "(of_char c :: nat) mod 16 < 16"
    using less_mult_imp_div_less [of "of_char c :: nat" 16 16] nat_of_char_less_256 [of c] by auto
  then have "CHR 0x00 \<notin> set (hex02 c)" by (simp add: hex02_def hex_char_no_nul [symmetric])
  moreover have "is_print c \<Longrightarrow> CHR 0x00 \<noteq> c" using print_not_nul by blast
  ultimately show ?thesis by (simp add: repr_char_def)
qed

lemma repr_no_nul: "CHR 0x00 \<notin> set (repr p)"
  using repr_char_no_nul by (auto simp: repr_def)

lemma split_args_space: "is_space c \<Longrightarrow> split_args (c # p) = split_args p"
  by (subst (1 2) split_args.simps) simp

lemma split_args_reprs: "split_args (concat (map (\<lambda>a. repr a @ '' '') args)) = Some args"
proof (induction args)
  case Nil
  then show ?case by (subst split_args.simps) simp
next
  case (Cons a args)
  let ?r = "CHR '' '' # concat (map (\<lambda>a. repr a @ '' '') args)"
  have "arg_token Plain [] (repr a @ ?r) = arg_token InQ [] (concat (map repr_char a) @ [CHR 0x22] @ ?r)"
    by (subst arg_token.simps(3)) (simp add: repr_def)
  also have "\<dots> = Some (a, ?r)" using read_quoted [of ?r "[]" a] by (simp add: is_space_def)
  finally have tok: "arg_token Plain [] (repr a @ ?r) = Some (a, ?r)" .
  have "repr a @ ?r \<noteq> []" "dropWhile is_space (repr a @ ?r) = repr a @ ?r" by (simp_all add: repr_def is_space_def)
  then have "split_args (repr a @ ?r) = map_option ((#) a) (split_args ?r)"
    using tok by (subst split_args.simps) simp
  then show ?case using Cons by (simp add: split_args_space is_space_def)
qed

lemma cstr_id: "CHR 0x00 \<notin> set s \<Longrightarrow> cstr s = s"
  by (auto simp: cstr_def takeWhile_eq_all_conv)

lemma read_unquoted:
  assumes "\<not> list_ex needs_repr_char v" and "CHR 0x27 \<notin> set v"
  shows "arg_token Plain cur v = Some (cur @ v, [])"
  using assms
proof (induction v arbitrary: cur)
  case Nil
  then show ?case by (subst arg_token.simps(3)) simp
next
  case (Cons c v)
  then have "c \<notin> {CHR '' '', CHR 0x0A, CHR 0x0D, CHR 0x09, CHR 0x00, CHR 0x22, CHR 0x27}"
    using print_not_nul [of c] by (auto simp: needs_repr_char_def is_space_def)
  then show ?case using Cons by (subst arg_token.simps(3)) simp
qed

section \<open>Split and join\<close>









section \<open>The formatter\<close>

text \<open>What a format and its arguments mean; \<open>None\<close> if an argument is missing, of another type or out of range.\<close>

fun arg_text :: "char \<Rightarrow> fmt_arg \<Rightarrow> string option" where
  "arg_text c (AStr t) = (if c = CHR ''s'' then Some (cstr t) else None)"
| "arg_text c (ASds t) = (if c = CHR ''S'' \<and> sds_ok t then Some (sds_val t) else None)"
| "arg_text c (AInt n) = (if c = CHR ''i'' \<and> fits 4 n then Some (dec_of_int n) else None)"
| "arg_text c (ALongLong n) = (if c = CHR ''I'' \<and> fits 8 n then Some (dec_of_int n) else None)"
| "arg_text c (AUInt n) = (if c = CHR ''u'' \<and> n < 2 ^ 32 then Some (dec_of_nat n) else None)"
| "arg_text c (AULongLong n) = (if c = CHR ''U'' \<and> n < 2 ^ 64 then Some (dec_of_nat n) else None)"

definition is_directive :: "char \<Rightarrow> bool" where
  "is_directive c \<longleftrightarrow> c \<in> set ''sSiIuU''"

fun fmt_text :: "string \<Rightarrow> fmt_arg list \<Rightarrow> string option" where
  "fmt_text [] args = Some []"
| "fmt_text [c] args = Some (if c = CHR ''%'' then [] else [c])"
| "fmt_text (c # d # f) args =
     (if c \<noteq> CHR ''%'' then map_option ((#) c) (fmt_text (d # f) args)
      else if \<not> is_directive d then map_option ((#) d) (fmt_text f args)
      else case args of [] \<Rightarrow> None
           | a # args \<Rightarrow> (case arg_text d a of None \<Rightarrow> None | Some t \<Rightarrow> map_option ((@) t) (fmt_text f args)))"

lemma put_inc_ok:
  assumes "sds_wf s" and "s_len s + length t \<le> sdsalloc s" and "i = s_len s"
  shows "\<exists>s'. put_inc i t s = Inr s' \<and> sds_wf s' \<and> sds_val s' = sds_val s @ t \<and> s_len s' = s_len s + length t"
proof -
  let ?m = "overwrite (s_buf s) (s_len s) t"
  let ?s = "s\<lparr>s_buf := ?m, s_len := s_len s + length t\<rparr>"
  have room: "s_len s + length t < length (s_buf s)" "s_len s + length t \<le> sdsTypeMaxSize (s_type s)"
    using assms(1,2) by (auto simp: sds_wf_def)
  then have "put_inc i t s = Inr ?s" using assms(3) by (simp add: put_inc_def put_bytes_ok sdsinclen_def)
  moreover have "sds_val ?s = sds_val s @ t"
    using take_overwrite [of "s_len s" t "s_buf s"] room by (simp add: sds_val_def)
  moreover have "sds_wf ?s" using assms(1,2) room by (auto simp: sds_wf_def sdsalloc_def)
  ultimately show ?thesis by simp
qed

lemma terminate_ok:
  assumes "sds_wf s"
  shows "\<exists>s'. put_nul (s_len s) s = Inr s' \<and> sds_ok s' \<and> sds_val s' = sds_val s"
proof -
  have room: "s_len s < length (s_buf s)" using assms by (auto simp: sds_wf_def)
  let ?s = "s\<lparr>s_buf := overwrite (s_buf s) (s_len s) [CHR 0x00]\<rparr>"
  have "sds_val ?s = sds_val s" using take_overwrite_before [of "s_len s" "[CHR 0x00]" "s_buf s" "s_len s"] room
    by (simp add: sds_val_def)
  moreover have "sds_ok ?s" using assms room overwrite_same_end [OF room, of "CHR 0x00"]
    by (auto simp: sds_ok_wf sds_wf_def sdsalloc_def split: if_splits)
  ultimately show ?thesis using room by (simp add: put_bytes_ok)
qed

lemma one_free:
  assumes "allocator us" and "sds_wf s" and "sdslen s + 1 < 2 ^ 62"
  shows "\<exists>s'. (if sdsavail s = 0 then sdsMakeRoomFor us junk s 1 else Inr s) = Inr s' \<and> sds_wf s' \<and> sds_val s' = sds_val s \<and>
    s_len s' = s_len s \<and> s_len s + 1 \<le> sdsalloc s'"
  using make_room_wf [OF assms, of junk True] avail_wf [OF assms(2)] assms(2)
  by (auto simp: sdsMakeRoomFor_def sdslen_def sds_wf_def)

lemma number_lengths:
  shows "n < 2 ^ 64 \<Longrightarrow> length (dec_of_nat n) < LONG_STR_SIZE" and "fits 8 v \<Longrightarrow> length (dec_of_int v) < LONG_STR_SIZE"
    and "fits 4 v \<Longrightarrow> fits 8 v"
proof -
  have *: "length (dec_of_nat n) \<le> 19" if "n \<le> 2 ^ 63" for n using that by (intro dec_of_nat_length) auto
  show "n < 2 ^ 64 \<Longrightarrow> length (dec_of_nat n) < LONG_STR_SIZE" using length_dec_64 [of n] by (simp add: LONG_STR_SIZE_def)
  show "fits 8 v \<Longrightarrow> length (dec_of_int v) < LONG_STR_SIZE"
    using * [of "nat v"] * [of "nat (- v)"] by (auto simp: fits_def dec_of_int_def LONG_STR_SIZE_def nat_le_iff less_Suc_eq_le)
  show "fits 4 v \<Longrightarrow> fits 8 v" by (auto simp: fits_def)
qed

lemma fmt_ll:
  assumes "fits 8 v" and "length buf = LONG_STR_SIZE"
  shows "c_bind (ll2string buf v) (\<lambda>(b, l). Inr (take l b, rest)) = Inr (dec_of_int v, rest)"
  using ll2string_ok [of v buf] number_lengths(2) [of v] assms by (simp add: fits_def)

lemma fmt_ull:
  assumes "v < 2 ^ 64" and "length buf = LONG_STR_SIZE"
  shows "c_bind (ull2string buf v) (\<lambda>(b, l). Inr (take l b, rest)) = Inr (dec_of_nat v, rest)"
  using ull2string_ok [of v buf] number_lengths(1) [of v] assms by simp

lemma fetch_ok:
  assumes "arg_text d a = Some t" and "length buf = LONG_STR_SIZE"
  shows "is_directive d" "(if d = CHR ''s'' \<or> d = CHR ''S'' then fmt_string d (a # rest) else fmt_number buf d (a # rest)) = Inr (t, rest)"
proof -
  show "is_directive d" using assms(1) by (cases a) (simp_all add: is_directive_def split: if_splits)
  show "(if d = CHR ''s'' \<or> d = CHR ''S'' then fmt_string d (a # rest) else fmt_number buf d (a # rest)) = Inr (t, rest)"
  proof (cases a)
    case (AStr v)
    then have "d = CHR ''s''" "t = cstr v" using assms(1) by (auto split: if_splits)
    then show ?thesis using AStr by (simp add: fmt_string_def)
  next
    case (ASds v)
    then have "d = CHR ''S''" "t = sds_val v" "sds_ok v" using assms(1) by (auto split: if_splits)
    then show ?thesis using ASds by (simp add: fmt_string_def sds_ok_def mem_get_def sds_val_def sdslen_def)
  next
    case (AInt v)
    then have "d = CHR ''i''" "t = dec_of_int v" "fits 8 v" using assms(1) number_lengths(3) by (auto split: if_splits)
    then show ?thesis using AInt fmt_ll [OF _ assms(2)] by (simp add: fmt_number_def Let_def)
  next
    case (ALongLong v)
    then have "d = CHR ''I''" "t = dec_of_int v" "fits 8 v" using assms(1) by (auto split: if_splits)
    then show ?thesis using ALongLong fmt_ll [OF _ assms(2)] by (simp add: fmt_number_def Let_def)
  next
    case (AUInt v)
    then have "d = CHR ''u''" "t = dec_of_nat v" "v < 2 ^ 64" using assms(1) by (auto split: if_splits)
    then show ?thesis using AUInt fmt_ull [OF _ assms(2)] by (simp add: fmt_number_def Let_def)
  next
    case (AULongLong v)
    then have "d = CHR ''U''" "t = dec_of_nat v" "v < 2 ^ 64" using assms(1) by (auto split: if_splits)
    then show ?thesis using AULongLong fmt_ull [OF _ assms(2)] by (simp add: fmt_number_def Let_def)
  qed
qed

lemma fmt_item_directive:
  assumes "is_directive d"
  shows "fmt_item us junk buf s i d args =
     c_bind (if d = CHR ''s'' \<or> d = CHR ''S'' then fmt_string d args else fmt_number buf d args) (\<lambda>(t, rest).
       c_bind (if sdsavail s < length t then sdsMakeRoomFor us junk s (length t) else Inr s) (\<lambda>s1.
       c_bind (put_inc i t s1) (\<lambda>s2. Inr (s2, i + length t, rest))))"
proof (cases "d = CHR ''s'' \<or> d = CHR ''S''")
  case True
  then show ?thesis unfolding fmt_item_def Let_def by (simp only: True if_True)
next
  case False
  then have num: "d = CHR ''i'' \<or> d = CHR ''I'' \<or> d = CHR ''u'' \<or> d = CHR ''U''" using assms unfolding is_directive_def by auto
  show ?thesis unfolding fmt_item_def Let_def by (simp only: False num if_True if_False)
qed

lemma fmt_item_other:
  assumes "\<not> is_directive d"
  shows "fmt_item us junk buf s i d args = c_bind (put_inc i [d] s) (\<lambda>s1. Inr (s1, i + 1, args))"
proof -
  have "\<not> (d = CHR ''s'' \<or> d = CHR ''S'')" "\<not> (d = CHR ''i'' \<or> d = CHR ''I'' \<or> d = CHR ''u'' \<or> d = CHR ''U'')"
    using assms unfolding is_directive_def by auto
  then show ?thesis unfolding fmt_item_def Let_def by (simp only: if_False)
qed

lemma fmt_item_ok:
  assumes us: "allocator us" and wf: "sds_wf s" and t: "arg_text d a = Some t" and small: "s_len s + length t < 2 ^ 62"
    and "length buf = LONG_STR_SIZE"
  shows "\<exists>s'. fmt_item us junk buf s (s_len s) d (a # rest) = Inr (s', s_len s', rest) \<and> sds_wf s' \<and> sds_val s' = sds_val s @ t \<and>
    s_len s' = s_len s + length t"
proof -
  have room: "\<exists>s1. (if sdsavail s < length t then sdsMakeRoomFor us junk s (length t) else Inr s) = Inr s1 \<and> sds_wf s1 \<and>
      sds_val s1 = sds_val s \<and> s_len s1 = s_len s \<and> s_len s + length t \<le> sdsalloc s1"
    using make_room_wf [OF us wf, of "length t" junk True] avail_wf [OF wf] wf small
    by (auto simp: sdsMakeRoomFor_def sdslen_def sds_wf_def)
  then obtain s1 where s1: "(if sdsavail s < length t then sdsMakeRoomFor us junk s (length t) else Inr s) = Inr s1" "sds_wf s1"
    "sds_val s1 = sds_val s" "s_len s1 = s_len s" "s_len s + length t \<le> sdsalloc s1" by blast
  obtain s2 where s2: "put_inc (s_len s) t s1 = Inr s2" "sds_wf s2" "sds_val s2 = sds_val s @ t" "s_len s2 = s_len s + length t"
    using put_inc_ok [OF s1(2), of t "s_len s1"] s1(3-5) by auto
  have "fmt_item us junk buf s (s_len s) d (a # rest) = Inr (s2, s_len s2, rest)"
    unfolding fmt_item_directive [OF fetch_ok(1) [OF t assms(5)]] fetch_ok(2) [OF t assms(5)] using s1(1) s2(1,4) by simp
  then show ?thesis using s2 by blast
qed

lemma catfmt_loop_ok:
  assumes us: "allocator us" and buf: "length buf = LONG_STR_SIZE"
  shows "fmt_text f args = Some t \<Longrightarrow> sds_wf s \<Longrightarrow> s_len s + length t + 1 < 2 ^ 62 \<Longrightarrow>
    \<exists>s'. catfmt_loop us junk buf s (s_len s) f args = Inr (s', s_len s') \<and> sds_wf s' \<and> sds_val s' = sds_val s @ t"
proof (induction f args arbitrary: s t rule: fmt_text.induct)
  case (1 args)
  then show ?case by auto
next
  case (2 c args)
  obtain s1 where s1: "(if sdsavail s = 0 then sdsMakeRoomFor us junk s 1 else Inr s) = Inr s1" "sds_wf s1"
    "sds_val s1 = sds_val s" "s_len s1 = s_len s" "s_len s + 1 \<le> sdsalloc s1"
    using one_free [OF us "2.prems"(2), of junk] "2.prems"(3) by (auto simp: sdslen_def)
  show ?case
  proof (cases "c = CHR ''%''")
    case True
    then show ?thesis using "2.prems"(1) s1 by auto
  next
    case False
    then show ?thesis using "2.prems"(1) s1 put_inc_ok [OF s1(2), of "[c]" "s_len s1"] by auto
  qed
next
  case (3 c d f args)
  obtain s1 where s1: "(if sdsavail s = 0 then sdsMakeRoomFor us junk s 1 else Inr s) = Inr s1" "sds_wf s1"
    "sds_val s1 = sds_val s" "s_len s1 = s_len s" "s_len s + 1 \<le> sdsalloc s1"
    using one_free [OF us "3.prems"(2), of junk] "3.prems"(3) by (auto simp: sdslen_def)
  have one: "\<exists>s2. put_inc (s_len s) [x] s1 = Inr s2 \<and> sds_wf s2 \<and> sds_val s2 = sds_val s @ [x] \<and> s_len s2 = s_len s + 1" for x
    using put_inc_ok [OF s1(2), of "[x]" "s_len s1"] s1(3-5) by simp
  consider (lit) "c \<noteq> CHR ''%''" | (other) "c = CHR ''%''" "\<not> is_directive d" | (dir) "c = CHR ''%''" "is_directive d" by blast
  then show ?case
  proof cases
    case lit
    then obtain t' where t': "fmt_text (d # f) args = Some t'" "t = c # t'" using "3.prems"(1) by auto
    obtain s2 where s2: "put_inc (s_len s) [c] s1 = Inr s2" "sds_wf s2" "sds_val s2 = sds_val s @ [c]" "s_len s2 = s_len s + 1"
      using one by blast
    have "\<exists>s'. catfmt_loop us junk buf s2 (s_len s2) (d # f) args = Inr (s', s_len s') \<and> sds_wf s' \<and> sds_val s' = sds_val s2 @ t'"
      by (rule "3.IH"(1)) (use lit t' s2 "3.prems"(3) in auto)
    then show ?thesis using lit s1(1) s2 t' by (auto simp del: catfmt_loop.simps simp: catfmt_loop.simps(2) [of us junk buf s _ c])
  next
    case other
    then obtain t' where t': "fmt_text f args = Some t'" "t = d # t'" using "3.prems"(1) by auto
    obtain s2 where s2: "put_inc (s_len s) [d] s1 = Inr s2" "sds_wf s2" "sds_val s2 = sds_val s @ [d]" "s_len s2 = s_len s + 1"
      using one by blast
    have "\<exists>s'. catfmt_loop us junk buf s2 (s_len s2) f args = Inr (s', s_len s') \<and> sds_wf s' \<and> sds_val s' = sds_val s2 @ t'"
      by (rule "3.IH"(2)) (use other t' s2 "3.prems"(3) in auto)
    then show ?thesis using other s1(1) s2 t' fmt_item_other [OF other(2), of us junk buf s1 "s_len s" args] by auto
  next
    case dir
    then obtain a rest u t' where t': "args = a # rest" "arg_text d a = Some u" "fmt_text f rest = Some t'" "t = u @ t'"
      using "3.prems"(1) by (auto split: list.splits option.splits)
    obtain s2 where s2: "fmt_item us junk buf s1 (s_len s1) d (a # rest) = Inr (s2, s_len s2, rest)" "sds_wf s2"
      "sds_val s2 = sds_val s1 @ u" "s_len s2 = s_len s1 + length u"
      using fmt_item_ok [OF us s1(2) t'(2) _ buf, of junk rest] "3.prems"(3) s1(4) t'(4) by auto
    have "\<exists>s'. catfmt_loop us junk buf s2 (s_len s2) f rest = Inr (s', s_len s') \<and> sds_wf s' \<and> sds_val s' = sds_val s2 @ t'"
      by (rule "3.IH"(3)) (use dir t' s2 s1 "3.prems"(3) in auto)
    then show ?thesis using dir s1 s2 t' by auto
  qed
qed

section \<open>Properties\<close>

text \<open>
  C30. The formatter appends exactly the text its format and arguments denote, whatever room the string has at the
  start and however often it has to grow on the way; a lone percent sign at the end is dropped.
\<close>

theorem sdscatfmt_appends:
  assumes "allocator us" and "sds_ok s" and "fmt_text (cstr fmt) args = Some t" and "LONG_STR_SIZE \<le> length buf"
    and "sdslen s + 2 * length (cstr fmt) + length t + 1 < 2 ^ 62"
  shows "\<exists>s'. sdscatfmt us junk buf s fmt args = Inr s' \<and> sds_ok s' \<and> sds_val s' = sds_val s @ t"
proof -
  obtain s1 where s1: "sdsMakeRoomFor us junk s (length (cstr fmt) * 2) = Inr s1" "sds_ok s1" "sds_val s1 = sds_val s" "s_len s1 = s_len s"
    using make_room_ok [OF assms(1,2), of "length (cstr fmt) * 2" junk True] assms(5) by (auto simp: sdsMakeRoomFor_def)
  have "\<exists>s'. catfmt_loop us junk (take LONG_STR_SIZE buf) s1 (s_len s1) (cstr fmt) args = Inr (s', s_len s') \<and> sds_wf s' \<and>
      sds_val s' = sds_val s1 @ t"
    using s1(2,4) assms(4,5) by (intro catfmt_loop_ok [OF assms(1) _ assms(3)]) (auto simp: sds_ok_wf sdslen_def)
  then obtain s2 where s2: "catfmt_loop us junk (take LONG_STR_SIZE buf) s1 (s_len s) (cstr fmt) args = Inr (s2, s_len s2)" "sds_wf s2"
    "sds_val s2 = sds_val s @ t" using s1(3,4) by auto
  then show ?thesis using terminate_ok [OF s2(2)] s1(1) by (simp add: sdscatfmt_def sdslen_def Let_def)
qed

theorem sdscatfmt_appends_witness:
  "\<exists>s'. sdscatfmt (\<lambda>n. n) (\<lambda>_. CHR ''?'') (replicate 21 CHR ''?'') ex_sds ''=%S/%%%'' [ASds ex_sds] = Inr s' \<and> sds_ok s' \<and>
     sds_val s' = ''abc=abc/%''"
  using sdscatfmt_appends [of "\<lambda>n. n" ex_sds "''=%S/%%%''" "[ASds ex_sds]" "''=abc/%''" "replicate 21 CHR ''?''" "\<lambda>_. CHR ''?''"] ex_sds_ok
  by (simp add: is_directive_def LONG_STR_SIZE_def cstr_def)

text \<open>
  C31. Quoting and reading back: what \<^verbatim>\<open>sdscatrepr\<close> appends is the quoted form, and a line of quoted arguments is
  split by \<^verbatim>\<open>sdssplitargs\<close> into exactly the arguments, for every byte value, NUL, quotes and backslashes included.
\<close>

theorem splitargs_reads_catrepr:
  assumes "allocator us" and "sds_ok s" and "sdslen s + 4 * length p + 2 < 2 ^ 62"
  shows "(\<exists>s'. sdscatrepr us junk s p = Inr s' \<and> sds_ok s' \<and> sds_val s' = sds_val s @ repr p) \<and>
    sdssplitargs (concat (map (\<lambda>a. repr a @ '' '') args)) = Some args"
proof
  show "\<exists>s'. sdscatrepr us junk s p = Inr s' \<and> sds_ok s' \<and> sds_val s' = sds_val s @ repr p" using assms by (rule catrepr_ok)
  have "CHR 0x00 \<notin> set (concat (map (\<lambda>a. repr a @ '' '') args))" using repr_no_nul by auto
  then show "sdssplitargs (concat (map (\<lambda>a. repr a @ '' '') args)) = Some args"
    by (simp add: sdssplitargs_def cstr_id split_args_reprs)
qed

theorem splitargs_reads_catrepr_witness:
  "sdssplitargs (repr [CHR 0x00, CHR 0x22] @ '' '' @ repr [] @ '' '') = Some [[CHR 0x00, CHR 0x22], []]"
  using splitargs_reads_catrepr [of "\<lambda>n. n" ex_sds "[]" "\<lambda>_. CHR ''?''" "[[CHR 0x00, CHR 0x22], []]"] ex_sds_ok by simp

text \<open>
  C32. When a nonempty string without single quotes is said to need no quoting, \<^verbatim>\<open>sdssplitargs\<close> reads it as one
  argument.  The two exceptions are real: there is a string with a single quote that is said to need none and cannot be read.
\<close>

theorem needsrepr_single_quotes:
  assumes "sds_ok s" and "sdsneedsrepr s = Inr False" and "sds_val s \<noteq> []" and "CHR 0x27 \<notin> set (sds_val s)"
  shows "sdssplitargs (sds_val s) = Some [sds_val s] \<and>
    (\<exists>s'. sds_ok s' \<and> sdsneedsrepr s' = Inr False \<and> sdssplitargs (sds_val s') = None)"
proof
  have no: "\<not> list_ex needs_repr_char (sds_val s)"
    using assms(1,2) by (simp add: sdsneedsrepr_def mem_get_def sds_val_def sdslen_def sds_ok_def)
  then have "CHR 0x00 \<notin> set (sds_val s)" using print_not_nul by (auto simp: list_ex_iff needs_repr_char_def)
  moreover have "dropWhile is_space (sds_val s) = sds_val s"
    using no assms(3) by (cases "sds_val s") (auto simp: needs_repr_char_def)
  moreover have "split_args [] = Some []" by (subst split_args.simps) simp
  ultimately show "sdssplitargs (sds_val s) = Some [sds_val s]"
    using read_unquoted [OF no assms(4), of "[]"] assms(3) unfolding sdssplitargs_def
    by (subst split_args.simps) (simp add: cstr_id)
  let ?s = "\<lparr>s_type = SDS_TYPE_5, s_len = 2, s_alloc = 0, s_buf = [CHR 0x27, CHR ''a'', CHR 0x00]\<rparr>"
  have "arg_token InSQ [] ''a'' = None" by (simp add: arg_token.simps(2))
  then have "arg_token Plain [] [CHR 0x27, CHR ''a''] = None" by (subst arg_token.simps(3)) simp
  then have "split_args [CHR 0x27, CHR ''a''] = None" by (subst split_args.simps) (simp add: is_space_def)
  then have "sdssplitargs (sds_val ?s) = None" by (simp add: sds_val_def sdssplitargs_def cstr_def)
  moreover have "sds_ok ?s" by (simp add: sds_ok_def sdsalloc_def sds_types sdsTypeMaxSize_def)
  moreover have "sdsneedsrepr ?s = Inr False"
    by (simp add: sdsneedsrepr_def mem_get_def sdslen_def needs_repr_char_def is_print_def is_space_def)
  ultimately show "\<exists>s'. sds_ok s' \<and> sdsneedsrepr s' = Inr False \<and> sdssplitargs (sds_val s') = None" by blast
qed

theorem needsrepr_single_quotes_witness: "sdssplitargs ''abc'' = Some [''abc'']"
  using needsrepr_single_quotes [of ex_sds] ex_sds_ok
  by (simp add: sdsneedsrepr_def mem_get_def sdslen_def ex_sds_def needs_repr_char_def is_print_def is_space_def sds_val_def)



end
