(* ===== verification/Redis_Siphash.thy ===== *)
theory Redis_Siphash
  imports Redis_Mem
begin

text \<open>
  SipHash 1-2, the hash function of every Redis dictionary, \<^verbatim>\<open>redis-7.2.4/src/siphash.c\<close>, in
  its case sensitive and its case insensitive variant.
\<close>

section \<open>The code\<close>

definition siptlw :: "byte \<Rightarrow> byte" where
  "siptlw c = (if 65 \<le> c \<and> c \<le> 90 then c + 32 else c)"

definition ROTL :: "u64 \<Rightarrow> nat \<Rightarrow> u64" where
  "ROTL x b = push_bit b x OR drop_bit (64 - b) x"

text \<open>
  \<^verbatim>\<open>U8TO64_LE\<close> is a load on the little-endian targets; the case insensitive macro composes the
  bytes.
\<close>

definition U8TO64_LE :: "byte list \<Rightarrow> u64" where
  "U8TO64_LE p = of_nat (le_nat (take 8 p))"

definition U8TO64_LE_NOCASE :: "byte list \<Rightarrow> u64" where
  "U8TO64_LE_NOCASE p =
     (ucast (siptlw (p ! 0)) OR
      (push_bit 8 (ucast (siptlw (p ! 1))) OR
      (push_bit 16 (ucast (siptlw (p ! 2))) OR
      (push_bit 24 (ucast (siptlw (p ! 3))) OR
      (push_bit 32 (ucast (siptlw (p ! 4))) OR
      (push_bit 40 (ucast (siptlw (p ! 5))) OR
      (push_bit 48 (ucast (siptlw (p ! 6))) OR
       push_bit 56 (ucast (siptlw (p ! 7))))))))))"

record sip =
  v0 :: u64
  v1 :: u64
  v2 :: u64
  v3 :: u64

definition SIPROUND :: "sip \<Rightarrow> sip" where
  "SIPROUND s =
     (let v0 = v0 s; v1 = v1 s; v2 = v2 s; v3 = v3 s;
          v0 = v0 + v1;
          v1 = ROTL v1 13;
          v1 = v1 XOR v0;
          v0 = ROTL v0 32;
          v2 = v2 + v3;
          v3 = ROTL v3 16;
          v3 = v3 XOR v2;
          v0 = v0 + v3;
          v3 = ROTL v3 21;
          v3 = v3 XOR v0;
          v2 = v2 + v1;
          v1 = ROTL v1 17;
          v1 = v1 XOR v2;
          v2 = ROTL v2 32
      in \<lparr>v0 = v0, v1 = v1, v2 = v2, v3 = v3\<rparr>)"

definition sip_init :: "byte list \<Rightarrow> sip" where
  "sip_init k =
     (let k0 = U8TO64_LE k; k1 = U8TO64_LE (drop 8 k)
      in \<lparr>v0 = 0x736f6d6570736575 XOR k0, v1 = 0x646f72616e646f6d XOR k1,
          v2 = 0x6c7967656e657261 XOR k0, v3 = 0x7465646279746573 XOR k1\<rparr>)"

definition sip_block :: "u64 \<Rightarrow> sip \<Rightarrow> sip" where
  "sip_block m s = (let s = SIPROUND (s\<lparr>v3 := v3 s XOR m\<rparr>) in s\<lparr>v0 := v0 s XOR m\<rparr>)"

definition sip_finish :: "u64 \<Rightarrow> sip \<Rightarrow> u64" where
  "sip_finish b s =
     (let s = sip_block b s;
          s = s\<lparr>v2 := v2 s XOR 0xff\<rparr>;
          s = SIPROUND s;
          s = SIPROUND s
      in v0 s XOR v1 s XOR v2 s XOR v3 s)"

text \<open>The loop over whole words: the state and the bytes left.\<close>

function siphash_loop :: "sip \<Rightarrow> byte list \<Rightarrow> sip \<times> byte list" where
  "siphash_loop s p = (if 8 \<le> length p then siphash_loop (sip_block (U8TO64_LE p) s) (drop 8 p) else (s, p))"
  by pat_completeness auto
termination
  by (relation "measure (\<lambda>(s, p). length p)") auto

function siphash_nocase_loop :: "sip \<Rightarrow> byte list \<Rightarrow> sip \<times> byte list" where
  "siphash_nocase_loop s p =
     (if 8 \<le> length p then siphash_nocase_loop (sip_block (U8TO64_LE_NOCASE p) s) (drop 8 p) else (s, p))"
  by pat_completeness auto
termination
  by (relation "measure (\<lambda>(s, p). length p)") auto

declare siphash_loop.simps [simp del] siphash_nocase_loop.simps [simp del]

text \<open>The switch that falls through.\<close>

definition sip_tail :: "byte list \<Rightarrow> u64 \<Rightarrow> u64" where
  "sip_tail p b =
     (let left = length p;
          b = (if 7 \<le> left then b OR push_bit 48 (ucast (p ! 6)) else b);
          b = (if 6 \<le> left then b OR push_bit 40 (ucast (p ! 5)) else b);
          b = (if 5 \<le> left then b OR push_bit 32 (ucast (p ! 4)) else b);
          b = (if 4 \<le> left then b OR push_bit 24 (ucast (p ! 3)) else b);
          b = (if 3 \<le> left then b OR push_bit 16 (ucast (p ! 2)) else b);
          b = (if 2 \<le> left then b OR push_bit 8 (ucast (p ! 1)) else b)
      in if 1 \<le> left then b OR ucast (p ! 0) else b)"

definition sip_tail_nocase :: "byte list \<Rightarrow> u64 \<Rightarrow> u64" where
  "sip_tail_nocase p b =
     (let left = length p;
          b = (if 7 \<le> left then b OR push_bit 48 (ucast (siptlw (p ! 6))) else b);
          b = (if 6 \<le> left then b OR push_bit 40 (ucast (siptlw (p ! 5))) else b);
          b = (if 5 \<le> left then b OR push_bit 32 (ucast (siptlw (p ! 4))) else b);
          b = (if 4 \<le> left then b OR push_bit 24 (ucast (siptlw (p ! 3))) else b);
          b = (if 3 \<le> left then b OR push_bit 16 (ucast (siptlw (p ! 2))) else b);
          b = (if 2 \<le> left then b OR push_bit 8 (ucast (siptlw (p ! 1))) else b)
      in if 1 \<le> left then b OR ucast (siptlw (p ! 0)) else b)"

definition siphash :: "byte list \<Rightarrow> byte list \<Rightarrow> u64" where
  "siphash p k =
     (let b = push_bit 56 (of_nat (length p)); (s, rest) = siphash_loop (sip_init k) p
      in sip_finish (sip_tail rest b) s)"

definition siphash_nocase :: "byte list \<Rightarrow> byte list \<Rightarrow> u64" where
  "siphash_nocase p k =
     (let b = push_bit 56 (of_nat (length p)); (s, rest) = siphash_nocase_loop (sip_init k) p
      in sip_finish (sip_tail_nocase rest b) s)"

section \<open>Loading and composing bytes\<close>

lemma add_shift_byte: "(ucast (b :: byte) :: u64) + push_bit 8 w = ucast b OR push_bit 8 w"
  by (rule disjunctive_add_eq_or, rule bit_eqI) (auto simp: bit_simps dest: bit_imp_le_length)

lemma load_Cons: "(of_nat (le_nat (b # bs)) :: u64) = ucast b OR push_bit 8 (of_nat (le_nat bs))"
proof -
  have "(of_nat (le_nat (b # bs)) :: u64) = ucast b + push_bit 8 (of_nat (le_nat bs))"
    by (simp add: push_bit_eq_mult mult.commute)
  then show ?thesis by (simp only: add_shift_byte)
qed

lemma length_8: "8 \<le> length p \<Longrightarrow> \<exists>a b c d e f g h r. p = a # b # c # d # e # f # g # h # r"
  by (cases p; cases "tl p"; cases "tl (tl p)"; cases "tl (tl (tl p))"; cases "tl (tl (tl (tl p)))";
      cases "tl (tl (tl (tl (tl p))))"; cases "tl (tl (tl (tl (tl (tl p)))))"; cases "tl (tl (tl (tl (tl (tl (tl p))))))") auto

lemma load_nocase: "8 \<le> length p \<Longrightarrow> U8TO64_LE (map siptlw p) = U8TO64_LE_NOCASE p"
proof -
  assume "8 \<le> length p"
  then obtain a b c d e f g h r where p: "p = a # b # c # d # e # f # g # h # r" using length_8 by blast
  have "take 8 (map siptlw p) = [siptlw a, siptlw b, siptlw c, siptlw d, siptlw e, siptlw f, siptlw g, siptlw h]"
    by (simp add: p eval_nat_numeral)
  then show ?thesis
    by (simp add: U8TO64_LE_def U8TO64_LE_NOCASE_def p load_Cons push_bit_or del: le_nat.simps)
qed

lemma tail_nocase: "length p < 8 \<Longrightarrow> sip_tail (map siptlw p) b = sip_tail_nocase p b"
proof -
  assume "length p < 8"
  then consider "length p = 0" | "length p = 1" | "length p = 2" | "length p = 3" | "length p = 4" | "length p = 5"
    | "length p = 6" | "length p = 7" by linarith
  then show ?thesis by cases (simp_all add: sip_tail_def sip_tail_nocase_def)
qed

lemma loop_nocase:
  "siphash_loop s (map siptlw p) = (case siphash_nocase_loop s p of (s', r) \<Rightarrow> (s', map siptlw r)) \<and>
     length (snd (siphash_nocase_loop s p)) < 8"
proof (induction s p rule: siphash_nocase_loop.induct)
  case (1 s p)
  show ?case
  proof (cases "8 \<le> length p")
    case True
    then show ?thesis using 1
      by (simp add: siphash_loop.simps [of s] siphash_nocase_loop.simps [of s] load_nocase drop_map)
  next
    case False
    then show ?thesis by (simp add: siphash_loop.simps [of s] siphash_nocase_loop.simps [of s])
  qed
qed

section \<open>Property\<close>

text \<open>
  C26.  The case insensitive hash is the case sensitive hash of the lowered string, for every length
  and key; so keys that differ only in ASCII letter case get the same hash.
\<close>

theorem siphash_nocase_lowers: "siphash_nocase p k = siphash (map siptlw p) k"
  using loop_nocase [of "sip_init k" p]
  by (auto simp: siphash_def siphash_nocase_def Let_def tail_nocase split: prod.splits)

end
