(* ===== verification/Redis_Adlist.thy ===== *)
theory Redis_Adlist
  imports Prelude
begin

text \<open>
  Doubly linked lists, \<^verbatim>\<open>redis-7.2.4/src/adlist.c\<close>.  Nodes live in a heap, a partial map from addresses to
  nodes; following a null pointer or one to freed memory is an error.  The allocator is a parameter, a function that picks
  the address of a new node or fails.  The values handed to the list's free method are collected in the heap's log.
\<close>

section \<open>Nodes, lists and the heap\<close>

record 'v listNode =
  prev :: "nat option"
  "next" :: "nat option"
  node_value :: 'v

record 'v list_struct =
  l_head :: "nat option"
  l_tail :: "nat option"
  l_dup :: "('v \<Rightarrow> 'v option) option"
  l_free :: bool
  l_match :: "('v \<Rightarrow> 'v \<Rightarrow> bool) option"
  l_len :: nat

record 'v heap =
  nodes :: "nat \<rightharpoonup> 'v listNode"
  freed :: "'v list"

datatype direction = AL_START_HEAD | AL_START_TAIL

record listIter =
  it_next :: "nat option"
  it_direction :: direction

definition deref :: "'v heap \<Rightarrow> nat option \<Rightarrow> 'v listNode c_result" where
  "deref h p = (case p of None \<Rightarrow> Inl NullDeref | Some a \<Rightarrow> (case nodes h a of None \<Rightarrow> Inl OutOfBounds | Some n \<Rightarrow> Inr n))"

text \<open>An assignment through a pointer.\<close>

definition modify :: "nat option \<Rightarrow> ('v listNode \<Rightarrow> 'v listNode) \<Rightarrow> 'v heap \<Rightarrow> 'v heap c_result" where
  "modify p f h = c_bind (deref h p) (\<lambda>n. Inr (h\<lparr>nodes := (nodes h)(the p \<mapsto> f n)\<rparr>))"

definition call_free :: "'v list_struct \<Rightarrow> 'v \<Rightarrow> 'v heap \<Rightarrow> 'v heap" where
  "call_free l v h = (if l_free l then h\<lparr>freed := freed h @ [v]\<rparr> else h)"

definition zfree :: "nat \<Rightarrow> 'v heap \<Rightarrow> 'v heap" where
  "zfree a h = h\<lparr>nodes := (nodes h)(a := None)\<rparr>"

definition inc_len :: "nat \<Rightarrow> nat" where "inc_len n = (n + 1) mod 2 ^ 64"


definition listCreate :: "'v list_struct" where
  "listCreate = \<lparr>l_head = None, l_tail = None, l_dup = None, l_free = False, l_match = None, l_len = 0\<rparr>"

fun empty_loop :: "'v list_struct \<Rightarrow> nat \<Rightarrow> nat option \<Rightarrow> 'v heap \<Rightarrow> 'v heap c_result" where
  "empty_loop l 0 current h = Inr h"
| "empty_loop l (Suc len) current h =
     c_bind (deref h current) (\<lambda>n. empty_loop l len (next n) (zfree (the current) (call_free l (node_value n) h)))"

definition listEmpty :: "'v heap \<Rightarrow> 'v list_struct \<Rightarrow> ('v heap \<times> 'v list_struct) c_result" where
  "listEmpty h l =
     c_bind (empty_loop l (l_len l) (l_head l) h) (\<lambda>h. Inr (h, l\<lparr>l_head := None, l_tail := None, l_len := 0\<rparr>))"

section \<open>Adding nodes\<close>

definition listLinkNodeHead :: "'v heap \<Rightarrow> 'v list_struct \<Rightarrow> nat \<Rightarrow> ('v heap \<times> 'v list_struct) c_result" where
  "listLinkNodeHead h l node =
     c_bind (if l_len l = 0
             then c_bind (modify (Some node) (\<lambda>n. n\<lparr>prev := None, next := None\<rparr>) h) (\<lambda>h.
                    Inr (h, l\<lparr>l_head := Some node, l_tail := Some node\<rparr>))
             else c_bind (modify (Some node) (\<lambda>n. n\<lparr>prev := None, next := l_head l\<rparr>) h) (\<lambda>h.
                  c_bind (modify (l_head l) (\<lambda>n. n\<lparr>prev := Some node\<rparr>) h) (\<lambda>h. Inr (h, l\<lparr>l_head := Some node\<rparr>)))) (\<lambda>(h, l).
       Inr (h, l\<lparr>l_len := inc_len (l_len l)\<rparr>))"

definition listLinkNodeTail :: "'v heap \<Rightarrow> 'v list_struct \<Rightarrow> nat \<Rightarrow> ('v heap \<times> 'v list_struct) c_result" where
  "listLinkNodeTail h l node =
     c_bind (if l_len l = 0
             then c_bind (modify (Some node) (\<lambda>n. n\<lparr>prev := None, next := None\<rparr>) h) (\<lambda>h.
                    Inr (h, l\<lparr>l_head := Some node, l_tail := Some node\<rparr>))
             else c_bind (modify (Some node) (\<lambda>n. n\<lparr>prev := l_tail l, next := None\<rparr>) h) (\<lambda>h.
                  c_bind (modify (l_tail l) (\<lambda>n. n\<lparr>next := Some node\<rparr>) h) (\<lambda>h. Inr (h, l\<lparr>l_tail := Some node\<rparr>)))) (\<lambda>(h, l).
       Inr (h, l\<lparr>l_len := inc_len (l_len l)\<rparr>))"

text \<open>
  A fresh node holds its value; the links are set before they are read.  \<open>None\<close> as the list is the
  \<^verbatim>\<open>NULL\<close> that reports a failed allocation.
\<close>

definition new_node :: "nat \<Rightarrow> 'v \<Rightarrow> 'v heap \<Rightarrow> 'v heap" where
  "new_node a v h = h\<lparr>nodes := (nodes h)(a \<mapsto> \<lparr>prev = None, next = None, node_value = v\<rparr>)\<rparr>"

definition listAddNodeHead :: "('v heap \<Rightarrow> nat option) \<Rightarrow> 'v heap \<Rightarrow> 'v list_struct \<Rightarrow> 'v \<Rightarrow> ('v heap \<times> 'v list_struct option) c_result" where
  "listAddNodeHead alloc h l v =
     (case alloc h of None \<Rightarrow> Inr (h, None)
      | Some a \<Rightarrow> c_bind (listLinkNodeHead (new_node a v h) l a) (\<lambda>(h, l). Inr (h, Some l)))"

definition listAddNodeTail :: "('v heap \<Rightarrow> nat option) \<Rightarrow> 'v heap \<Rightarrow> 'v list_struct \<Rightarrow> 'v \<Rightarrow> ('v heap \<times> 'v list_struct option) c_result" where
  "listAddNodeTail alloc h l v =
     (case alloc h of None \<Rightarrow> Inr (h, None)
      | Some a \<Rightarrow> c_bind (listLinkNodeTail (new_node a v h) l a) (\<lambda>(h, l). Inr (h, Some l)))"


section \<open>Removing nodes\<close>



section \<open>Iterating\<close>

definition listGetIterator :: "'v list_struct \<Rightarrow> direction \<Rightarrow> listIter" where
  "listGetIterator l d = \<lparr>it_next = (if d = AL_START_HEAD then l_head l else l_tail l), it_direction = d\<rparr>"

definition listRewind :: "'v list_struct \<Rightarrow> listIter" where
  "listRewind l = \<lparr>it_next = l_head l, it_direction = AL_START_HEAD\<rparr>"

definition listRewindTail :: "'v list_struct \<Rightarrow> listIter" where
  "listRewindTail l = \<lparr>it_next = l_tail l, it_direction = AL_START_TAIL\<rparr>"

definition listNext :: "'v heap \<Rightarrow> listIter \<Rightarrow> (nat option \<times> listIter) c_result" where
  "listNext h it =
     (case it_next it of
        None \<Rightarrow> Inr (None, it)
      | Some a \<Rightarrow> c_bind (deref h (Some a)) (\<lambda>n.
          Inr (Some a, it\<lparr>it_next := (if it_direction it = AL_START_HEAD then next n else prev n)\<rparr>)))"

text \<open>
  The loops over an iterator.  A list whose links form a cycle would make them run forever, so they are given fuel;
  running out of it is reported as the result \<open>None\<close>.
\<close>

fun searchKey_loop :: "nat \<Rightarrow> 'v heap \<Rightarrow> ('v \<Rightarrow> bool) \<Rightarrow> listIter \<Rightarrow> nat option c_result option" where
  "searchKey_loop 0 h found it = None"
| "searchKey_loop (Suc k) h found it =
     (case listNext h it of
        Inl e \<Rightarrow> Some (Inl e)
      | Inr (None, it) \<Rightarrow> Some (Inr None)
      | Inr (Some a, it) \<Rightarrow>
          (case deref h (Some a) of
             Inl e \<Rightarrow> Some (Inl e)
           | Inr n \<Rightarrow> if found (node_value n) then Some (Inr (Some a)) else searchKey_loop k h found it))"

definition listSearchKey :: "nat \<Rightarrow> 'v heap \<Rightarrow> 'v list_struct \<Rightarrow> 'v \<Rightarrow> nat option c_result option" where
  "listSearchKey fuel h l key =
     searchKey_loop fuel h (case l_match l of Some m \<Rightarrow> (\<lambda>v. m v key) | None \<Rightarrow> (\<lambda>v. key = v)) (listRewind l)"

fun walk :: "('v listNode \<Rightarrow> nat option) \<Rightarrow> nat \<Rightarrow> 'v heap \<Rightarrow> nat option \<Rightarrow> nat option c_result" where
  "walk link 0 h n = Inr n"
| "walk link (Suc i) h n = (if n = None then Inr None else c_bind (deref h n) (\<lambda>m. walk link i h (link m)))"

definition listIndex :: "'v heap \<Rightarrow> 'v list_struct \<Rightarrow> int \<Rightarrow> nat option c_result" where
  "listIndex h l index =
     (if index < 0 then walk prev (nat (- index - 1)) h (l_tail l) else walk next (nat index) h (l_head l))"

fun dup_loop :: "nat \<Rightarrow> ('v heap \<Rightarrow> nat option) \<Rightarrow> 'v heap \<Rightarrow> 'v list_struct \<Rightarrow> listIter
    \<Rightarrow> ('v heap \<times> 'v list_struct option) c_result option" where
  "dup_loop 0 alloc h copy it = None"
| "dup_loop (Suc k) alloc h copy it =
     (case listNext h it of
        Inl e \<Rightarrow> Some (Inl e)
      | Inr (None, it) \<Rightarrow> Some (Inr (h, Some copy))
      | Inr (Some a, it) \<Rightarrow>
          (case deref h (Some a) of
             Inl e \<Rightarrow> Some (Inl e)
           | Inr n \<Rightarrow>
               (case (case l_dup copy of Some d \<Rightarrow> d (node_value n) | None \<Rightarrow> Some (node_value n)) of
                  None \<Rightarrow> Some (c_bind (listEmpty h copy) (\<lambda>(h, _). Inr (h, None)))
                | Some v \<Rightarrow>
                    (case listAddNodeTail alloc h copy v of
                       Inl e \<Rightarrow> Some (Inl e)
                     | Inr (h, None) \<Rightarrow> Some (c_bind (listEmpty (call_free copy v h) copy) (\<lambda>(h, _). Inr (h, None)))
                     | Inr (h, Some copy) \<Rightarrow> dup_loop k alloc h copy it))))"

definition listDup :: "nat \<Rightarrow> ('v heap \<Rightarrow> nat option) \<Rightarrow> 'v heap \<Rightarrow> 'v list_struct \<Rightarrow> ('v heap \<times> 'v list_struct option) c_result option" where
  "listDup fuel alloc h orig =
     dup_loop fuel alloc h (listCreate\<lparr>l_dup := l_dup orig, l_free := l_free orig, l_match := l_match orig\<rparr>) (listRewind orig)"

section \<open>Rotating and joining\<close>

definition listRotateTailToHead :: "'v heap \<Rightarrow> 'v list_struct \<Rightarrow> ('v heap \<times> 'v list_struct) c_result" where
  "listRotateTailToHead h l =
     (if l_len l \<le> 1 then Inr (h, l)
      else let tail = l_tail l
           in c_bind (deref h tail) (\<lambda>t. let l = l\<lparr>l_tail := prev t\<rparr> in
              c_bind (modify (l_tail l) (\<lambda>n. n\<lparr>next := None\<rparr>) h) (\<lambda>h.
              c_bind (modify (l_head l) (\<lambda>n. n\<lparr>prev := tail\<rparr>) h) (\<lambda>h.
              c_bind (modify tail (\<lambda>n. n\<lparr>prev := None, next := l_head l\<rparr>) h) (\<lambda>h. Inr (h, l\<lparr>l_head := tail\<rparr>))))))"

definition listRotateHeadToTail :: "'v heap \<Rightarrow> 'v list_struct \<Rightarrow> ('v heap \<times> 'v list_struct) c_result" where
  "listRotateHeadToTail h l =
     (if l_len l \<le> 1 then Inr (h, l)
      else let head = l_head l
           in c_bind (deref h head) (\<lambda>t. let l = l\<lparr>l_head := next t\<rparr> in
              c_bind (modify (l_head l) (\<lambda>n. n\<lparr>prev := None\<rparr>) h) (\<lambda>h.
              c_bind (modify (l_tail l) (\<lambda>n. n\<lparr>next := head\<rparr>) h) (\<lambda>h.
              c_bind (modify head (\<lambda>n. n\<lparr>next := None, prev := l_tail l\<rparr>) h) (\<lambda>h. Inr (h, l\<lparr>l_tail := head\<rparr>))))))"


definition listInitNode :: "nat \<Rightarrow> 'v \<Rightarrow> 'v heap \<Rightarrow> 'v heap" where
  "listInitNode node v h = h\<lparr>nodes := (nodes h)(node \<mapsto> \<lparr>prev = None, next = None, node_value = v\<rparr>)\<rparr>"

section \<open>The list a structure stands for\<close>

text \<open>
  \<open>dseg h p as n\<close>: the nodes at addresses \<open>as\<close> are linked in this order in both directions, with
  \<open>p\<close> before the first and \<open>n\<close> after the last.
\<close>

definition first :: "'a list \<Rightarrow> 'a option \<Rightarrow> 'a option" where
  "first as n = (case as of [] \<Rightarrow> n | a # _ \<Rightarrow> Some a)"

definition final :: "'a option \<Rightarrow> 'a list \<Rightarrow> 'a option" where
  "final p as = (if as = [] then p else Some (last as))"

fun dseg :: "(nat \<rightharpoonup> 'v listNode) \<Rightarrow> nat option \<Rightarrow> nat list \<Rightarrow> nat option \<Rightarrow> bool" where
  "dseg m p [] n \<longleftrightarrow> True"
| "dseg m p (a # as) n \<longleftrightarrow> (\<exists>x. m a = Some x \<and> prev x = p \<and> next x = first as n) \<and> dseg m (Some a) as n"

definition list_ok :: "'v heap \<Rightarrow> 'v list_struct \<Rightarrow> nat list \<Rightarrow> bool" where
  "list_ok h l as \<longleftrightarrow> dseg (nodes h) None as None \<and> distinct as \<and> l_head l = first as None \<and> l_tail l = final None as \<and>
     l_len l = length as"

definition vals :: "'v heap \<Rightarrow> nat list \<Rightarrow> 'v list" where
  "vals h as = map (\<lambda>a. node_value (the (nodes h a))) as"

lemma first_simps [simp]: "first [] n = n" "first (a # as) n = Some a" "first (as @ bs) n = first as (first bs n)"
  by (auto simp: first_def split: list.splits)

lemma final_simps [simp]: "final p [] = p" "final p (a # as) = final (Some a) as" "final p (as @ bs) = final (final p as) bs"
  by (auto simp: final_def)

lemma dseg_append: "dseg m p (as @ bs) n \<longleftrightarrow> dseg m p as (first bs n) \<and> dseg m (final p as) bs n"
  by (induction as arbitrary: p) auto

lemma dseg_cong: "(\<And>a. a \<in> set as \<Longrightarrow> m a = m' a) \<Longrightarrow> dseg m p as n = dseg m' p as n"
  by (induction as arbitrary: p) auto

lemma dseg_other: "a \<notin> set as \<Longrightarrow> dseg (m(a := x)) p as n = dseg m p as n"
  by (rule dseg_cong) auto

lemma dseg_mem: "dseg m p as n \<Longrightarrow> a \<in> set as \<Longrightarrow> m a \<noteq> None"
  by (induction as arbitrary: p) auto

lemma dseg_set_prev: "dseg m p (a # as) n \<Longrightarrow> a \<notin> set as \<Longrightarrow> dseg (m(a \<mapsto> (the (m a))\<lparr>prev := p'\<rparr>)) p' (a # as) n"
  by (auto simp: dseg_other)

lemma dseg_set_next:
  "dseg m p (as @ [a]) n \<Longrightarrow> a \<notin> set as \<Longrightarrow> dseg (m(a \<mapsto> (the (m a))\<lparr>next := n'\<rparr>)) p (as @ [a]) n'"
  by (auto simp: dseg_append dseg_other)

lemma modify_Some: "nodes h a = Some n \<Longrightarrow> modify (Some a) f h = Inr (h\<lparr>nodes := (nodes h)(a \<mapsto> f n)\<rparr>)"
  by (simp add: modify_def deref_def)

lemma deref_Some: "nodes h a = Some n \<Longrightarrow> deref h (Some a) = Inr n"
  by (simp add: deref_def)


text \<open>
  What an operation may change: the nodes of the list and their links, never a value, and nothing outside.
\<close>

definition same_values :: "'v heap \<Rightarrow> 'v heap \<Rightarrow> nat list \<Rightarrow> bool" where
  "same_values h h' as \<longleftrightarrow> (\<forall>a \<in> set as. map_option node_value (nodes h' a) = map_option node_value (nodes h a))"

definition frame :: "'v heap \<Rightarrow> 'v heap \<Rightarrow> nat set \<Rightarrow> bool" where
  "frame h h' A \<longleftrightarrow> (\<forall>a. a \<notin> A \<longrightarrow> nodes h' a = nodes h a) \<and> freed h' = freed h"

lemma vals_same:
  assumes "same_values h h' as" and "\<And>a. a \<in> set as \<Longrightarrow> nodes h a \<noteq> None"
  shows "vals h' as = vals h as"
proof -
  have "node_value (the (nodes h' a)) = node_value (the (nodes h a))" if "a \<in> set as" for a
    using assms that by (cases "nodes h' a") (fastforce simp: same_values_def)+
  then show ?thesis by (simp add: vals_def)
qed

lemma list_ok_fresh: "list_ok h l as \<Longrightarrow> nodes h a = None \<Longrightarrow> a \<notin> set as"
  using dseg_mem by (fastforce simp: list_ok_def)

lemma inc_len_small: "Suc n < 2 ^ 64 \<Longrightarrow> inc_len n = Suc n"
  by (simp add: inc_len_def)


section \<open>Adding and removing\<close>

lemma add_head_ok:
  assumes ok: "list_ok h l as" and new: "alloc h = Some a" "nodes h a = None" and small: "Suc (length as) < 2 ^ 64"
  shows "\<exists>h' l'. listAddNodeHead alloc h l v = Inr (h', Some l') \<and> list_ok h' l' (a # as) \<and> vals h' (a # as) = v # vals h as \<and>
    frame h h' (insert a (set as)) \<and> l_match l' = l_match l \<and> l_dup l' = l_dup l \<and> l_free l' = l_free l"
proof (cases as)
  case Nil
  then show ?thesis using ok new small
    by (auto simp: listAddNodeHead_def listLinkNodeHead_def new_node_def modify_Some list_ok_def vals_def inc_len_small frame_def)
next
  case (Cons b bs)
  have fresh: "a \<notin> set as" using list_ok_fresh [OF ok new(2)] .
  obtain x where x: "nodes h b = Some x" "prev x = None" "next x = first bs None" and seg: "dseg (nodes h) (Some b) bs None"
    using ok Cons by (auto simp: list_ok_def)
  let ?n = "\<lparr>prev = None, next = Some b, node_value = v\<rparr>"
  let ?h = "h\<lparr>nodes := (nodes h)(a \<mapsto> ?n, b \<mapsto> x\<lparr>prev := Some a\<rparr>)\<rparr>"
  let ?l = "l\<lparr>l_head := Some a, l_len := Suc (length as)\<rparr>"
  have ne: "a \<noteq> b" "b \<notin> set bs" "a \<notin> set bs" using fresh ok Cons by (auto simp: list_ok_def)
  have "listAddNodeHead alloc h l v = Inr (?h, Some ?l)"
    using ok new small Cons x(1) ne(1)
    by (simp add: listAddNodeHead_def listLinkNodeHead_def new_node_def modify_Some list_ok_def inc_len_small)
  moreover have "list_ok ?h ?l (a # as)" using ok Cons x ne seg by (auto simp: list_ok_def dseg_other)
  moreover have "vals ?h (a # as) = v # vals h as" using Cons ne x by (auto simp: vals_def)
  ultimately show ?thesis by (auto simp: frame_def Cons)
qed

lemma add_tail_ok:
  assumes ok: "list_ok h l as" and new: "alloc h = Some a" "nodes h a = None" and small: "Suc (length as) < 2 ^ 64"
  shows "\<exists>h' l'. listAddNodeTail alloc h l v = Inr (h', Some l') \<and> list_ok h' l' (as @ [a]) \<and> vals h' (as @ [a]) = vals h as @ [v] \<and>
    frame h h' (insert a (set as)) \<and> l_match l' = l_match l \<and> l_dup l' = l_dup l \<and> l_free l' = l_free l"
proof (cases as rule: rev_cases)
  case Nil
  then show ?thesis using ok new small
    by (auto simp: listAddNodeTail_def listLinkNodeTail_def new_node_def modify_Some list_ok_def vals_def inc_len_small frame_def)
next
  case (snoc bs b)
  have fresh: "a \<notin> set as" using list_ok_fresh [OF ok new(2)] .
  obtain x where x: "nodes h b = Some x" "prev x = final None bs" "next x = None" and seg: "dseg (nodes h) None bs (Some b)"
    using ok snoc by (auto simp: list_ok_def dseg_append)
  let ?n = "\<lparr>prev = Some b, next = None, node_value = v\<rparr>"
  let ?h = "h\<lparr>nodes := (nodes h)(a \<mapsto> ?n, b \<mapsto> x\<lparr>next := Some a\<rparr>)\<rparr>"
  let ?l = "l\<lparr>l_tail := Some a, l_len := Suc (length as)\<rparr>"
  have ne: "a \<noteq> b" "b \<notin> set bs" "a \<notin> set bs" using fresh ok snoc by (auto simp: list_ok_def)
  have "listAddNodeTail alloc h l v = Inr (?h, Some ?l)"
    using ok new small snoc x(1) ne(1)
    by (simp add: listAddNodeTail_def listLinkNodeTail_def new_node_def modify_Some list_ok_def inc_len_small)
  moreover have "list_ok ?h ?l (as @ [a])" using ok snoc x ne seg by (auto simp: list_ok_def dseg_other dseg_append)
  moreover have "vals ?h (as @ [a]) = vals h as @ [v]" using snoc ne x by (auto simp: vals_def)
  ultimately show ?thesis by (auto simp: frame_def snoc)
qed

text \<open>Redirecting a link of a neighbour, if there is one.\<close>

definition set_next :: "(nat \<rightharpoonup> 'v listNode) \<Rightarrow> nat option \<Rightarrow> nat option \<Rightarrow> (nat \<rightharpoonup> 'v listNode)" where
  "set_next m p q = (case p of None \<Rightarrow> m | Some b \<Rightarrow> m(b \<mapsto> (the (m b))\<lparr>next := q\<rparr>))"

definition set_prev :: "(nat \<rightharpoonup> 'v listNode) \<Rightarrow> nat option \<Rightarrow> nat option \<Rightarrow> (nat \<rightharpoonup> 'v listNode)" where
  "set_prev m p q = (case p of None \<Rightarrow> m | Some b \<Rightarrow> m(b \<mapsto> (the (m b))\<lparr>prev := q\<rparr>))"

lemma set_link_other: "p \<noteq> Some a \<Longrightarrow> set_next m p q a = m a" "p \<noteq> Some a \<Longrightarrow> set_prev m p q a = m a"
  by (auto simp: set_next_def set_prev_def split: option.splits)

lemma set_link_value:
  "p = None \<or> m (the p) \<noteq> None \<Longrightarrow> map_option node_value (set_next m p q a) = map_option node_value (m a)"
  "p = None \<or> m (the p) \<noteq> None \<Longrightarrow> map_option node_value (set_prev m p q a) = map_option node_value (m a)"
  by (auto simp: set_next_def set_prev_def split: option.splits)



lemma dseg_set_next_final:
  assumes "dseg m p xs n" and "distinct xs"
  shows "dseg (set_next m (final None xs) n') p xs n'"
proof (cases xs rule: rev_cases)
  case (snoc ys y)
  then show ?thesis using dseg_set_next [of m p ys y n n'] assms by (simp add: set_next_def)
qed simp

lemma dseg_set_prev_first:
  assumes "dseg m p xs n" and "distinct xs"
  shows "dseg (set_prev m (first xs None) p') p' xs n"
proof (cases xs)
  case (Cons y ys)
  then show ?thesis using dseg_set_prev [of m p y ys n p'] assms by (simp add: set_prev_def)
qed simp







text \<open>The guarded assignments of the code.\<close>

lemma modify_next_if:
  "p = None \<or> nodes h (the p) \<noteq> None \<Longrightarrow>
   (if p \<noteq> None then modify p (\<lambda>m. m\<lparr>next := q\<rparr>) h else Inr h) = Inr (h\<lparr>nodes := set_next (nodes h) p q\<rparr>)"
  by (cases p) (auto simp: set_next_def modify_Some)

lemma modify_prev_if:
  "p = None \<or> nodes h (the p) \<noteq> None \<Longrightarrow>
   (if p \<noteq> None then modify p (\<lambda>m. m\<lparr>prev := q\<rparr>) h else Inr h) = Inr (h\<lparr>nodes := set_prev (nodes h) p q\<rparr>)"
  by (cases p) (auto simp: set_prev_def modify_Some)




lemma empty_loop_ok:
  "dseg (nodes h) p as None \<Longrightarrow> distinct as \<Longrightarrow>
   \<exists>h'. empty_loop l (length as) (first as None) h = Inr h' \<and> (\<forall>a \<in> set as. nodes h' a = None) \<and>
     (\<forall>a. a \<notin> set as \<longrightarrow> nodes h' a = nodes h a) \<and> freed h' = freed h @ (if l_free l then vals h as else [])"
proof (induction as arbitrary: h p)
  case (Cons a as)
  obtain n where n: "nodes h a = Some n" "next n = first as None" using Cons.prems by auto
  let ?h = "zfree a (call_free l (node_value n) h)"
  have nodes: "nodes ?h = (nodes h)(a := None)" by (simp add: zfree_def call_free_def)
  have "dseg (nodes ?h) (Some a) as None" using Cons.prems by (simp add: nodes dseg_other)
  then obtain h' where h': "empty_loop l (length as) (first as None) ?h = Inr h'" "\<forall>b \<in> set as. nodes h' b = None"
    "\<forall>b. b \<notin> set as \<longrightarrow> nodes h' b = nodes ?h b" "freed h' = freed ?h @ (if l_free l then vals ?h as else [])"
    using Cons.IH [of ?h "Some a"] Cons.prems by auto
  have "vals ?h as = vals h as" using Cons.prems(2) by (auto simp: vals_def nodes)
  then show ?case using h' n nodes Cons.prems(2) by (auto simp: deref_Some vals_def zfree_def call_free_def)
qed (simp add: vals_def)

lemma list_empty_ok:
  assumes "list_ok h l as"
  shows "\<exists>h' l'. listEmpty h l = Inr (h', l') \<and> list_ok h' l' [] \<and> (\<forall>a \<in> set as. nodes h' a = None) \<and>
    freed h' = freed h @ (if l_free l then vals h as else [])"
  using empty_loop_ok [of h None as l] assms by (auto simp: list_ok_def listEmpty_def)

section \<open>Walking\<close>

lemma searchKey_loop_ok:
  "dseg (nodes h) p as None \<Longrightarrow> length as < k \<Longrightarrow>
   searchKey_loop k h found \<lparr>it_next = first as None, it_direction = AL_START_HEAD\<rparr> =
     Some (Inr (find (\<lambda>a. found (node_value (the (nodes h a)))) as))"
proof (induction as arbitrary: k p)
  case Nil
  then show ?case by (cases k) (auto simp: listNext_def)
next
  case (Cons a as)
  then obtain k' where "k = Suc k'" by (cases k) auto
  then show ?case using Cons by (auto simp: listNext_def deref_Some)
qed

lemma walk_next_ok: "dseg (nodes h) p as None \<Longrightarrow> walk next i h (first as None) = Inr (if i < length as then Some (as ! i) else None)"
proof (induction as arbitrary: i p)
  case Nil
  then show ?case by (cases i) auto
next
  case (Cons a as)
  then show ?case by (cases i) (auto simp: deref_Some)
qed

lemma walk_prev_ok:
  "dseg (nodes h) None as n \<Longrightarrow> walk prev i h (final None as) = Inr (if i < length as then Some (rev as ! i) else None)"
proof (induction as arbitrary: i n rule: rev_induct)
  case Nil
  then show ?case by (cases i) auto
next
  case (snoc a as)
  then show ?case by (cases i) (auto simp: deref_Some dseg_append)
qed

lemma index_ok:
  assumes "list_ok h l as"
  shows "listIndex h l i = Inr (if 0 \<le> i \<and> nat i < length as then Some (as ! nat i)
    else if i < 0 \<and> nat (- i) \<le> length as then Some (as ! (length as - nat (- i))) else None)"
proof (cases "i < 0")
  case True
  then have "nat (- i - 1) < length as \<longleftrightarrow> nat (- i) \<le> length as"
    "nat (- i) \<le> length as \<Longrightarrow> rev as ! nat (- i - 1) = as ! (length as - nat (- i))"
    by (auto simp: rev_nth nat_diff_distrib Suc_diff_Suc intro!: arg_cong [of _ _ "(!) as"])
  then show ?thesis using True assms walk_prev_ok [of h as None "nat (- i - 1)"] by (simp add: listIndex_def list_ok_def)
next
  case False
  then show ?thesis using assms walk_next_ok [of h None as "nat i"] by (simp add: listIndex_def list_ok_def)
qed

section \<open>Rotating, joining, copying\<close>

lemma modify_next: "nodes h b \<noteq> None \<Longrightarrow> modify (Some b) (\<lambda>m. m\<lparr>next := q\<rparr>) h = Inr (h\<lparr>nodes := set_next (nodes h) (Some b) q\<rparr>)"
  using modify_next_if [of "Some b" h q] by simp

lemma modify_prev: "nodes h b \<noteq> None \<Longrightarrow> modify (Some b) (\<lambda>m. m\<lparr>prev := q\<rparr>) h = Inr (h\<lparr>nodes := set_prev (nodes h) (Some b) q\<rparr>)"
  using modify_prev_if [of "Some b" h q] by simp

lemma set_link_alive: "m b \<noteq> None \<Longrightarrow> set_next m p q b \<noteq> None" "m b \<noteq> None \<Longrightarrow> set_prev m p q b \<noteq> None"
  by (auto simp: set_next_def set_prev_def split: option.splits)

lemma rotate_tail_ok:
  assumes ok: "list_ok h l (xs @ [t])" and "xs \<noteq> []"
  shows "\<exists>h' l'. listRotateTailToHead h l = Inr (h', l') \<and> list_ok h' l' (t # xs) \<and> vals h' (t # xs) = vals h (t # xs) \<and>
    frame h h' (set (t # xs))"
proof -
  have seg: "dseg (nodes h) None xs (Some t)" and dis: "distinct xs" "t \<notin> set xs" using ok by (auto simp: list_ok_def dseg_append)
  obtain n where n: "nodes h t = Some n" "prev n = final None xs" using ok by (auto simp: list_ok_def dseg_append)
  obtain y where y: "final None xs = Some y" "y \<in> set xs" "final (Some t) xs = Some y" using assms(2) by (auto simp: final_def)
  obtain z where z: "first xs None = Some z" "z \<in> set xs" "first xs (Some t) = Some z" using assms(2) by (cases xs) auto
  let ?m1 = "set_next (nodes h) (Some y) None"
  let ?m2 = "set_prev ?m1 (Some z) (Some t)"
  have alive: "nodes h y \<noteq> None" "?m1 z \<noteq> None" using dseg_mem [OF seg y(2)] set_link_alive(1) [of "nodes h" z] dseg_mem [OF seg z(2)] by blast+
  have "t \<noteq> y" "t \<noteq> z" using y z dis by auto
  then have t: "?m1 t = Some n" "?m2 t = Some n" using n by (simp_all add: set_link_other)
  let ?h = "h\<lparr>nodes := ?m2(t \<mapsto> n\<lparr>prev := None, next := Some z\<rparr>)\<rparr>"
  let ?l = "l\<lparr>l_tail := Some y, l_head := Some t\<rparr>"
  have run: "listRotateTailToHead h l = Inr (?h, ?l)"
    using ok y z n t alive assms(2) by (auto simp: listRotateTailToHead_def list_ok_def deref_Some modify_next modify_prev modify_Some Let_def)
  have "dseg ?m1 None xs None" using dseg_set_next_final [OF seg dis(1), of None] y by simp
  then have "dseg ?m2 (Some t) xs None" using dseg_set_prev_first [of ?m1 None xs None "Some t"] dis z by simp
  then have "list_ok ?h ?l (t # xs)" using ok dis y z by (auto simp: list_ok_def dseg_other)
  moreover have "frame h ?h (set (t # xs))" using y z by (auto simp: frame_def intro!: set_link_other [THEN trans])
  moreover have "vals ?h (t # xs) = vals h (t # xs)"
    using alive n dseg_mem [OF seg] dis by (intro vals_same) (auto simp: same_values_def set_link_value)
  ultimately show ?thesis using run by blast
qed

lemma rotate_head_ok:
  assumes ok: "list_ok h l (t # xs)" and "xs \<noteq> []"
  shows "\<exists>h' l'. listRotateHeadToTail h l = Inr (h', l') \<and> list_ok h' l' (xs @ [t]) \<and> vals h' (xs @ [t]) = vals h (xs @ [t]) \<and>
    frame h h' (set (t # xs))"
proof -
  have seg: "dseg (nodes h) (Some t) xs None" and dis: "distinct xs" "t \<notin> set xs" using ok by (auto simp: list_ok_def)
  obtain n where n: "nodes h t = Some n" "next n = first xs None" using ok by (auto simp: list_ok_def)
  obtain y where y: "final None xs = Some y" "final (Some t) xs = Some y" "y \<in> set xs" using assms(2) by (auto simp: final_def)
  obtain z where z: "first xs None = Some z" "z \<in> set xs" "first xs (Some t) = Some z" using assms(2) by (cases xs) auto
  let ?m1 = "set_prev (nodes h) (Some z) None"
  let ?m2 = "set_next ?m1 (Some y) (Some t)"
  have alive: "nodes h z \<noteq> None" "?m1 y \<noteq> None" using dseg_mem [OF seg z(2)] set_link_alive(2) [of "nodes h" y] dseg_mem [OF seg y(3)] by blast+
  have "t \<noteq> y" "t \<noteq> z" using y z dis by auto
  then have t: "?m1 t = Some n" "?m2 t = Some n" using n by (simp_all add: set_link_other)
  let ?h = "h\<lparr>nodes := ?m2(t \<mapsto> n\<lparr>next := None, prev := Some y\<rparr>)\<rparr>"
  let ?l = "l\<lparr>l_head := Some z, l_tail := Some t\<rparr>"
  have run: "listRotateHeadToTail h l = Inr (?h, ?l)"
    using ok y z n t alive assms(2) by (auto simp: listRotateHeadToTail_def list_ok_def deref_Some modify_next modify_prev modify_Some Let_def)
  have "dseg ?m1 None xs None" using dseg_set_prev_first [OF seg dis(1), of None] z by simp
  then have "dseg ?m2 None xs (Some t)" using dseg_set_next_final [of ?m1 None xs None "Some t"] dis y by simp
  then have "list_ok ?h ?l (xs @ [t])" using ok dis y z by (auto simp: list_ok_def dseg_other dseg_append)
  moreover have "frame h ?h (set (t # xs))" using y z by (auto simp: frame_def intro!: set_link_other [THEN trans])
  moreover have "vals ?h (xs @ [t]) = vals h (xs @ [t])"
    using alive n dseg_mem [OF seg] dis by (intro vals_same) (auto simp: same_values_def set_link_value)
  ultimately show ?thesis using run by blast
qed


lemma list_ok_frame: "list_ok h l as \<Longrightarrow> frame h h' A \<Longrightarrow> set as \<inter> A = {} \<Longrightarrow> list_ok h' l as \<and> vals h' as = vals h as"
proof -
  assume ok: "list_ok h l as" and "frame h h' A" "set as \<inter> A = {}"
  then have eq: "nodes h' a = nodes h a" if "a \<in> set as" for a using that by (auto simp: frame_def)
  then have "dseg (nodes h') None as None = dseg (nodes h) None as None" by (intro dseg_cong) auto
  then show ?thesis using ok eq by (simp add: list_ok_def vals_def)
qed

text \<open>The copying loop: the rest of the original is appended to the copy, which shares no node with it.\<close>

definition dup_val :: "'v list_struct \<Rightarrow> 'v \<Rightarrow> 'v option" where
  "dup_val l v = (case l_dup l of Some d \<Rightarrow> d v | None \<Rightarrow> Some v)"

definition fresh_alloc :: "('v heap \<Rightarrow> nat option) \<Rightarrow> bool" where
  "fresh_alloc alloc \<longleftrightarrow> (\<forall>h. finite (dom (nodes h)) \<longrightarrow> (\<exists>a. alloc h = Some a \<and> nodes h a = None))"

lemma frame_finite: "frame h h' A \<Longrightarrow> finite A \<Longrightarrow> finite (dom (nodes h)) \<Longrightarrow> finite (dom (nodes h'))"
  by (rule finite_subset [of _ "dom (nodes h) \<union> A"]) (auto simp: frame_def dom_def)

lemma dup_loop_ok:
  assumes al: "fresh_alloc alloc"
  shows "dseg (nodes h) p as None \<Longrightarrow> list_ok h copy cs \<Longrightarrow> set as \<inter> set cs = {} \<Longrightarrow> length as < k \<Longrightarrow> length as + length cs < 2 ^ 63 \<Longrightarrow>
    finite (dom (nodes h)) \<Longrightarrow> (\<And>v. v \<in> set (vals h as) \<Longrightarrow> dup_val copy v \<noteq> None) \<Longrightarrow>
    \<exists>h' copy' ds. dup_loop k alloc h copy \<lparr>it_next = first as None, it_direction = AL_START_HEAD\<rparr> = Some (Inr (h', Some copy')) \<and>
      list_ok h' copy' (cs @ ds) \<and> vals h' (cs @ ds) = vals h cs @ map (the \<circ> dup_val copy) (vals h as) \<and>
      frame h h' (set cs \<union> set ds) \<and> (\<forall>a \<in> set ds. nodes h a = None)"
proof (induction as arbitrary: h p cs copy k)
  case Nil
  then obtain k' where "k = Suc k'" by (cases k) auto
  then show ?case using Nil by (intro exI [of _ h] exI [of _ copy] exI [of _ "[]"]) (simp add: listNext_def vals_def frame_def)
next
  case (Cons b as)
  obtain k' where k: "k = Suc k'" using Cons.prems(4) by (cases k) auto
  obtain n where n: "nodes h b = Some n" "next n = first as None" using Cons.prems(1) by auto
  obtain v where v: "dup_val copy (node_value n) = Some v" using Cons.prems(7) [of "node_value n"] n by (auto simp: vals_def)
  obtain a where a: "alloc h = Some a" "nodes h a = None" using al Cons.prems(6) by (auto simp: fresh_alloc_def)
  have small: "Suc (length cs) < 2 ^ 64" using Cons.prems(5) by simp
  obtain h1 c1 where h1: "listAddNodeTail alloc h copy v = Inr (h1, Some c1)" "list_ok h1 c1 (cs @ [a])"
    "vals h1 (cs @ [a]) = vals h cs @ [v]" "frame h h1 (insert a (set cs))" "l_dup c1 = l_dup copy"
    using add_tail_ok [of h copy cs alloc a v, OF Cons.prems(2) a small] by blast
  have rest: "nodes h1 x = nodes h x" if "x \<in> set as" for x
  proof -
    have "nodes h x \<noteq> None" "x \<notin> set cs" using dseg_mem [OF Cons.prems(1), of x] Cons.prems(3) that by auto
    moreover from this have "x \<noteq> a" using a(2) by auto
    ultimately show ?thesis using h1(4) by (simp add: frame_def)
  qed
  have seg: "dseg (nodes h1) (Some b) as None" using Cons.prems(1) dseg_cong [of as "nodes h1" "nodes h"] rest by simp
  have vs: "vals h1 as = vals h as" using rest by (auto simp: vals_def)
  have dv: "dup_val c1 = dup_val copy" using h1(5) by (simp add: dup_val_def fun_eq_iff)
  have "a \<notin> set as" using dseg_mem [of "nodes h" p "b # as" None a] Cons.prems(1) a(2) by auto
  moreover have "finite (dom (nodes h1))" using frame_finite [OF h1(4)] Cons.prems(6) by simp
  ultimately obtain h' copy' ds where h': "dup_loop k' alloc h1 c1 \<lparr>it_next = first as None, it_direction = AL_START_HEAD\<rparr> = Some (Inr (h', Some copy'))"
    "list_ok h' copy' ((cs @ [a]) @ ds)" "vals h' ((cs @ [a]) @ ds) = vals h1 (cs @ [a]) @ map (the \<circ> dup_val c1) (vals h1 as)"
    "frame h1 h' (set (cs @ [a]) \<union> set ds)" "\<forall>x \<in> set ds. nodes h1 x = None"
    using Cons.IH [OF seg h1(2), of k'] Cons.prems(3-5,7) k vs dv by (auto simp: vals_def)
  have "dup_loop k alloc h copy \<lparr>it_next = first (b # as) None, it_direction = AL_START_HEAD\<rparr> = Some (Inr (h', Some copy'))"
    using h'(1) n v h1(1) by (auto simp: k listNext_def deref_Some dup_val_def)
  moreover have "frame h h' (set cs \<union> set (a # ds))" using h1(4) h'(4) by (auto simp: frame_def)
  moreover have "nodes h x = None" if "x \<in> set (a # ds)" for x
  proof (cases "x = a")
    case False
    then have "nodes h1 x = None" using that h'(5) by simp
    moreover from this have "x \<notin> set (cs @ [a])" by (rule list_ok_fresh [OF h1(2)])
    ultimately show ?thesis using h1(4) by (simp add: frame_def)
  qed (simp add: a)
  moreover have "vals h' (cs @ a # ds) = vals h cs @ map (the \<circ> dup_val copy) (vals h (b # as))"
    using h'(3) h1(3) vs dv v n by (simp add: vals_def)
  ultimately show ?case using h'(2) by (intro exI [of _ h'] exI [of _ copy'] exI [of _ "a # ds"]) auto
qed

lemma dup_ok:
  assumes "fresh_alloc alloc" and ok: "list_ok h orig as" and "length as < fuel" "length as < 2 ^ 63"
    and "finite (dom (nodes h))" and "\<And>v. v \<in> set (vals h as) \<Longrightarrow> dup_val orig v \<noteq> None"
  shows "\<exists>h' copy bs. listDup fuel alloc h orig = Some (Inr (h', Some copy)) \<and> list_ok h' copy bs \<and>
    vals h' bs = map (the \<circ> dup_val orig) (vals h as) \<and> list_ok h' orig as \<and> vals h' as = vals h as \<and> set as \<inter> set bs = {}"
proof -
  let ?c = "listCreate\<lparr>l_dup := l_dup orig, l_free := l_free orig, l_match := l_match orig\<rparr>"
  have seg: "dseg (nodes h) None as None" and head: "l_head orig = first as None" using ok by (auto simp: list_ok_def)
  have dv: "dup_val ?c = dup_val orig" by (simp add: dup_val_def fun_eq_iff)
  have "list_ok h ?c []" by (simp add: list_ok_def listCreate_def)
  then obtain h' copy bs where r: "dup_loop fuel alloc h ?c \<lparr>it_next = first as None, it_direction = AL_START_HEAD\<rparr> = Some (Inr (h', Some copy))"
    "list_ok h' copy bs" "vals h' bs = map (the \<circ> dup_val ?c) (vals h as)" "frame h h' (set bs)" "\<forall>a \<in> set bs. nodes h a = None"
    using dup_loop_ok [OF assms(1) seg, of ?c "[]" fuel] assms(3-6) dv by (auto simp: vals_def)
  have "set as \<inter> set bs = {}" using r(5) dseg_mem [OF seg] by blast
  then show ?thesis using r dv list_ok_frame [OF ok r(4)] head by (auto simp: listDup_def listRewind_def)
qed

section \<open>Sequences as an interface\<close>

text \<open>
  What users of the lists rely on: a state stands for a sequence of values, values can be put at both ends, and the first one
  can be moved to the end.
\<close>

fun iterate :: "nat \<Rightarrow> ('s \<Rightarrow> 's c_result) \<Rightarrow> 's \<Rightarrow> 's c_result" where
  "iterate 0 f s = Inr s"
| "iterate (Suc n) f s = c_bind (f s) (iterate n f)"

fun push_all :: "('s \<Rightarrow> 'v \<Rightarrow> 's c_result) \<Rightarrow> 'v list \<Rightarrow> 's \<Rightarrow> 's c_result" where
  "push_all f [] s = Inr s"
| "push_all f (v # vs) s = c_bind (f s v) (push_all f vs)"

locale sequence =
  fixes rep :: "'s \<Rightarrow> 'v list \<Rightarrow> bool" and push_front push_back :: "'s \<Rightarrow> 'v \<Rightarrow> 's c_result" and rot :: "'s \<Rightarrow> 's c_result" and cap :: nat
  assumes front_law: "rep s vs \<Longrightarrow> Suc (length vs) < cap \<Longrightarrow> \<exists>s'. push_front s v = Inr s' \<and> rep s' (v # vs)"
    and back_law: "rep s vs \<Longrightarrow> Suc (length vs) < cap \<Longrightarrow> \<exists>s'. push_back s v = Inr s' \<and> rep s' (vs @ [v])"
    and rot_law: "rep s vs \<Longrightarrow> \<exists>s'. rot s = Inr s' \<and> rep s' (rotate1 vs)"
begin

lemma push_back_all: "rep s us \<Longrightarrow> length us + length vs < cap \<Longrightarrow> \<exists>s'. push_all push_back vs s = Inr s' \<and> rep s' (us @ vs)"
proof (induction vs arbitrary: s us)
  case (Cons v vs)
  obtain s1 where s1: "push_back s v = Inr s1" "rep s1 (us @ [v])" using back_law [OF Cons.prems(1), of v] Cons.prems(2) by auto
  then show ?case using Cons.IH [OF s1(2)] Cons.prems(2) by simp
qed simp

lemma push_front_all: "rep s us \<Longrightarrow> length us + length vs < cap \<Longrightarrow> \<exists>s'. push_all push_front vs s = Inr s' \<and> rep s' (rev vs @ us)"
proof (induction vs arbitrary: s us)
  case (Cons v vs)
  obtain s1 where s1: "push_front s v = Inr s1" "rep s1 (v # us)" using front_law [OF Cons.prems(1), of v] Cons.prems(2) by auto
  then show ?case using Cons.IH [OF s1(2)] Cons.prems(2) by simp
qed simp

lemma rot_many: "rep s vs \<Longrightarrow> \<exists>s'. iterate n rot s = Inr s' \<and> rep s' (rotate n vs)"
proof (induction n arbitrary: s vs)
  case (Suc n)
  obtain s1 where s1: "rot s = Inr s1" "rep s1 (rotate1 vs)" using rot_law [OF Suc.prems] by blast
  then show ?case using Suc.IH [OF s1(2)] by (simp add: rotate1_rotate_swap)
qed simp

lemma rot_cycle: "rep s vs \<Longrightarrow> \<exists>s'. iterate (length vs) rot s = Inr s' \<and> rep s' vs"
  using rot_many [of s vs "length vs"] by simp

end

definition list_rep :: "('v heap \<Rightarrow> nat option) \<Rightarrow> 'v heap \<times> 'v list_struct \<Rightarrow> 'v list \<Rightarrow> bool" where
  "list_rep alloc s vs \<longleftrightarrow> fresh_alloc alloc \<and> finite (dom (nodes (fst s))) \<and> (\<exists>as. list_ok (fst s) (snd s) as \<and> vals (fst s) as = vs)"

definition checked :: "('v heap \<times> 'v list_struct option) c_result \<Rightarrow> ('v heap \<times> 'v list_struct) c_result" where
  "checked r = c_bind r (\<lambda>(h, l). case l of None \<Rightarrow> Inl NullDeref | Some l \<Rightarrow> Inr (h, l))"

lemma list_rep_push:
  assumes "list_rep alloc s vs" and "Suc (length vs) < 2 ^ 64"
  shows "\<exists>s'. checked (listAddNodeHead alloc (fst s) (snd s) v) = Inr s' \<and> list_rep alloc s' (v # vs)"
    and "\<exists>s'. checked (listAddNodeTail alloc (fst s) (snd s) v) = Inr s' \<and> list_rep alloc s' (vs @ [v])"
proof -
  obtain as where as: "list_ok (fst s) (snd s) as" "vals (fst s) as = vs" and al: "fresh_alloc alloc" "finite (dom (nodes (fst s)))" using assms(1) by (auto simp: list_rep_def)
  obtain a where a: "alloc (fst s) = Some a" "nodes (fst s) a = None" using al by (auto simp: fresh_alloc_def)
  have len: "Suc (length as) < 2 ^ 64" using as(2) assms(2) by (auto simp: vals_def)
  obtain h l where hl: "listAddNodeHead alloc (fst s) (snd s) v = Inr (h, Some l)" "list_ok h l (a # as)" "vals h (a # as) = v # vs"
    "frame (fst s) h (insert a (set as))" using add_head_ok [of "fst s" "snd s" as alloc a v, OF as(1) a len] as(2) by blast
  then show "\<exists>s'. checked (listAddNodeHead alloc (fst s) (snd s) v) = Inr s' \<and> list_rep alloc s' (v # vs)"
    using al frame_finite [OF hl(4)] by (intro exI [of _ "(h, l)"]) (auto simp: checked_def list_rep_def)
  obtain h2 l2 where hl2: "listAddNodeTail alloc (fst s) (snd s) v = Inr (h2, Some l2)" "list_ok h2 l2 (as @ [a])" "vals h2 (as @ [a]) = vs @ [v]"
    "frame (fst s) h2 (insert a (set as))" using add_tail_ok [of "fst s" "snd s" as alloc a v, OF as(1) a len] as(2) by blast
  then show "\<exists>s'. checked (listAddNodeTail alloc (fst s) (snd s) v) = Inr s' \<and> list_rep alloc s' (vs @ [v])"
    using al frame_finite [OF hl2(4)] by (intro exI [of _ "(h2, l2)"]) (auto simp: checked_def list_rep_def)
qed

lemma list_rep_rotate:
  assumes "list_rep alloc s vs"
  shows "\<exists>s'. listRotateHeadToTail (fst s) (snd s) = Inr s' \<and> list_rep alloc s' (rotate1 vs)"
proof -
  obtain as where as: "list_ok (fst s) (snd s) as" "vals (fst s) as = vs" and al: "fresh_alloc alloc" "finite (dom (nodes (fst s)))" using assms by (auto simp: list_rep_def)
  show ?thesis
  proof (cases "length as \<le> 1")
    case True
    then have "rotate1 vs = vs" using as(2) by (cases as) (auto simp: vals_def)
    then show ?thesis using True assms as(1) by (auto simp: listRotateHeadToTail_def list_ok_def)
  next
    case False
    then obtain t xs where t: "as = t # xs" "xs \<noteq> []" by (cases as) auto
    then obtain h l where hl: "listRotateHeadToTail (fst s) (snd s) = Inr (h, l)" "list_ok h l (xs @ [t])" "vals h (xs @ [t]) = vals (fst s) (xs @ [t])" "frame (fst s) h (set (t # xs))"
      using rotate_head_ok [of "fst s" "snd s" t xs] as(1) by auto
    then show ?thesis using al as(2) t frame_finite [OF hl(4)] by (auto simp: list_rep_def vals_def)
  qed
qed

interpretation adlist: sequence "list_rep alloc" "\<lambda>s v. checked (listAddNodeHead alloc (fst s) (snd s) v)"
  "\<lambda>s v. checked (listAddNodeTail alloc (fst s) (snd s) v)" "\<lambda>s. listRotateHeadToTail (fst s) (snd s)" "2 ^ 64" for alloc
  by unfold_locales (blast intro: list_rep_push list_rep_rotate)+

section \<open>Properties\<close>


definition bump_alloc :: "'v heap \<Rightarrow> nat option" where
  "bump_alloc h = Some (Suc (Max (insert 0 (dom (nodes h)))))"

lemma bump_alloc_fresh: "fresh_alloc bump_alloc"
proof -
  have "nodes h (Suc (Max (insert 0 (dom (nodes h))))) = None" if "finite (dom (nodes h))" for h :: "'a heap"
  proof -
    have "Suc (Max (insert 0 (dom (nodes h)))) \<notin> dom (nodes h)"
      using Max_ge [of "insert 0 (dom (nodes h))" "Suc (Max (insert 0 (dom (nodes h))))"] that by (meson finite_insert insertCI not_less_eq_eq order_refl)
    then show ?thesis by blast
  qed
  then show ?thesis by (simp add: fresh_alloc_def bump_alloc_def)
qed

definition ex_heap :: "nat heap" where
  "ex_heap = \<lparr>nodes = [1 \<mapsto> \<lparr>prev = None, next = Some 2, node_value = 7\<rparr>, 2 \<mapsto> \<lparr>prev = Some 1, next = None, node_value = 9\<rparr>], freed = []\<rparr>"

definition ex_list :: "nat list_struct" where
  "ex_list = \<lparr>l_head = Some 1, l_tail = Some 2, l_dup = None, l_free = True, l_match = None, l_len = 2\<rparr>"

lemma ex_list_ok: "list_ok ex_heap ex_list [1, 2]" "vals ex_heap [1, 2] = [7, 9]" "finite (dom (nodes ex_heap))" "list_ok ex_heap listCreate []"
  by (auto simp: list_ok_def ex_heap_def ex_list_def vals_def listCreate_def)


text \<open>
  C36. On a well-formed list the loops over an iterator end: with more fuel than the list has nodes, the search returns the first
  matching node or null, and copying returns a new list with the duplicated values that shares no node with the original, which is
  unchanged.
\<close>

theorem adlist_loops_end:
  assumes "fresh_alloc alloc" and "finite (dom (nodes h))" and "list_ok h l as" and "length as < fuel" and "length as < 2 ^ 63"
    and "\<forall>v \<in> set (vals h as). dup_val l v \<noteq> None"
  shows "(\<exists>r. listSearchKey fuel h l key = Some (Inr r) \<and>
      r = find (\<lambda>a. case l_match l of Some m \<Rightarrow> m (node_value (the (nodes h a))) key | None \<Rightarrow> key = node_value (the (nodes h a))) as) \<and>
    (\<exists>h' copy bs. listDup fuel alloc h l = Some (Inr (h', Some copy)) \<and> list_ok h' copy bs \<and> vals h' bs = map (the \<circ> dup_val l) (vals h as) \<and>
      list_ok h' l as \<and> vals h' as = vals h as \<and> set as \<inter> set bs = {})"
proof
  have "dseg (nodes h) None as None" "l_head l = first as None" using assms(3) by (auto simp: list_ok_def)
  then show "\<exists>r. listSearchKey fuel h l key = Some (Inr r) \<and>
      r = find (\<lambda>a. case l_match l of Some m \<Rightarrow> m (node_value (the (nodes h a))) key | None \<Rightarrow> key = node_value (the (nodes h a))) as"
    using searchKey_loop_ok [of h None as fuel] assms(4) by (cases "l_match l") (simp_all add: listSearchKey_def listRewind_def)
qed (use dup_ok assms in blast)

theorem adlist_loops_end_witness:
  "listSearchKey 3 ex_heap ex_list 9 = Some (Inr (Some 2)) \<and>
   (\<exists>h' copy bs. listDup 3 bump_alloc ex_heap ex_list = Some (Inr (h', Some copy)) \<and> list_ok h' copy bs \<and> vals h' bs = [7, 9])"
  using adlist_loops_end [of bump_alloc ex_heap ex_list "[1, 2]" 3 9] bump_alloc_fresh ex_list_ok
  by (auto simp: dup_val_def ex_list_def ex_heap_def)

end
