(* ===== verification/Redis_Lzf.thy ===== *)
theory Redis_Lzf
  imports Redis_Mem
begin

text \<open>
  The LZF compressor and decompressor that Redis uses for RDB strings and quicklist nodes
  (\<^verbatim>\<open>lzf_c.c\<close> and \<^verbatim>\<open>lzf_d.c\<close>), configured as \<^verbatim>\<open>lzfP.h\<close> does on amd64: \<^verbatim>\<open>HLOG\<close> 16,
  \<^verbatim>\<open>VERY_FAST\<close>, \<^verbatim>\<open>CHECK_INPUT\<close>, unaligned 16-bit compares, pointers in the hash table, and
  no \<^verbatim>\<open>INIT_HTAB\<close>: the table starts with whatever the stack holds.  Every read and write is
  checked against its buffer.  The lemmas show that the decompressor is safe on arbitrary
  input, and that it inverts the compressor for every initial content of the table.
\<close>

section \<open>Byte access\<close>

definition rd :: "byte list \<Rightarrow> int \<Rightarrow> byte c_result" where
  "rd b i = (if 0 \<le> i \<and> i < int (length b) then Inr (b ! nat i) else Inl OutOfBounds)"

definition wr :: "byte list \<Rightarrow> int \<Rightarrow> byte \<Rightarrow> byte list c_result" where
  "wr b i v = (if 0 \<le> i \<and> i < int (length b) then Inr (b[nat i := v]) else Inl OutOfBounds)"

section \<open>The decompressor\<close>

datatype errno = E2BIG | EINVAL

datatype lzf_dflow = DReturn nat "errno option" "byte list" | DNext int int "byte list"

text \<open>The switch on the length of a literal run: as many \<^verbatim>\<open>*op++ = *ip++\<close> as the run has.\<close>

fun copy_run :: "byte list \<Rightarrow> int \<Rightarrow> byte list \<Rightarrow> int \<Rightarrow> nat \<Rightarrow> byte list c_result" where
  "copy_run inp ip out op 0 = Inr out"
| "copy_run inp ip out op (Suc n) =
     c_bind (rd inp ip) (\<lambda>b. c_bind (wr out op b) (\<lambda>out. copy_run inp (ip + 1) out (op + 1) n))"

text \<open>Octet by octet copying inside the output, which may overlap.\<close>

fun copy_ref :: "byte list \<Rightarrow> int \<Rightarrow> int \<Rightarrow> nat \<Rightarrow> byte list c_result" where
  "copy_ref out op ref 0 = Inr out"
| "copy_ref out op ref (Suc n) =
     c_bind (rd out ref) (\<lambda>b. c_bind (wr out op b) (\<lambda>out. copy_ref out (op + 1) (ref + 1) n))"

text \<open>The switch on the length of a back reference.\<close>

definition lzf_backref :: "byte list \<Rightarrow> int \<Rightarrow> int \<Rightarrow> nat \<Rightarrow> byte list c_result" where
  "lzf_backref out op ref len =
    (if len \<le> 9 then copy_ref out op ref (len + 2)
     else let len = len + 2 in
       if op \<ge> ref + int len then mem_move out op ref len
       else copy_ref out op ref len)"

definition lzf_dec_step :: "byte list \<Rightarrow> byte list \<Rightarrow> int \<Rightarrow> int \<Rightarrow> lzf_dflow c_result" where
  "lzf_dec_step inp out ip op =
    c_bind (rd inp ip) (\<lambda>c. let ctrl = unat c; ip = ip + 1 in
      if ctrl < 32 then
        let ctrl = ctrl + 1 in
        if op + int ctrl > int (length out) then Inr (DReturn 0 (Some E2BIG) out)
        else if ip + int ctrl > int (length inp) then Inr (DReturn 0 (Some EINVAL) out)
        else c_bind (copy_run inp ip out op ctrl) (\<lambda>out. Inr (DNext (ip + int ctrl) (op + int ctrl) out))
      else
        let len = drop_bit 5 ctrl; ref = op - int (push_bit 8 (ctrl AND 0x1f)) - 1 in
        if ip \<ge> int (length inp) then Inr (DReturn 0 (Some EINVAL) out)
        else c_bind (if len = 7 then
              c_bind (rd inp ip) (\<lambda>b. if ip + 1 \<ge> int (length inp) then Inr None else Inr (Some (len + unat b, ip + 1)))
            else Inr (Some (len, ip)))
          (\<lambda>r. case r of None \<Rightarrow> Inr (DReturn 0 (Some EINVAL) out) | Some (len, ip) \<Rightarrow>
            c_bind (rd inp ip) (\<lambda>b. let ref = ref - int (unat b); ip = ip + 1 in
              if op + int len + 2 > int (length out) then Inr (DReturn 0 (Some E2BIG) out)
              else if ref < 0 then Inr (DReturn 0 (Some EINVAL) out)
              else c_bind (lzf_backref out op ref len) (\<lambda>out. Inr (DNext ip (op + int len + 2) out)))))"

lemma two_uint_pos: "0 < 2 + uint (a :: byte)"
  using unsigned_greater_eq [of a, where 'a = int] by linarith

lemma dec_step_advances: "lzf_dec_step inp out ip op = Inr (DNext ip' op' out') \<Longrightarrow> ip < ip'"
  by (auto simp: lzf_dec_step_def c_bind_Inr_iff Let_def two_uint_pos split: if_splits option.splits)

function lzf_dec_loop :: "byte list \<Rightarrow> byte list \<Rightarrow> int \<Rightarrow> int \<Rightarrow> (nat \<times> errno option \<times> byte list) c_result" where
  "lzf_dec_loop inp out ip op =
    (if ip < int (length inp) then
       (case lzf_dec_step inp out ip op of
          Inl e \<Rightarrow> Inl e
        | Inr (DReturn n err out) \<Rightarrow> Inr (n, err, out)
        | Inr (DNext ip' op' out') \<Rightarrow> lzf_dec_loop inp out' ip' op')
     else Inr (nat op, None, out))"
  by auto
termination
  by (relation "measure (\<lambda>(inp, out, ip, op). nat (int (length inp) - ip))") (auto dest: dec_step_advances)

declare lzf_dec_loop.simps [simp del]

definition lzf_decompress :: "byte list \<Rightarrow> byte list \<Rightarrow> (nat \<times> errno option \<times> byte list) c_result" where
  "lzf_decompress inp out = lzf_dec_loop inp out 0 0"

section \<open>The compressor\<close>

abbreviation HSIZE :: nat where "HSIZE \<equiv> 2 ^ 16"
abbreviation MAX_LIT :: int where "MAX_LIT \<equiv> 32"
abbreviation MAX_OFF :: u64 where "MAX_OFF \<equiv> 8192"
abbreviation MAX_REF :: int where "MAX_REF \<equiv> 264"

text \<open>
  The local variables.  \<^verbatim>\<open>ip\<close> and \<^verbatim>\<open>op\<close> are offsets in their buffers; the hash table holds
  addresses, and the input lies at the address \<open>base\<close>.
\<close>

record lzf_state =
  c_ip :: int
  c_op :: int
  c_lit :: int
  c_hval :: u32
  c_htab :: "nat \<Rightarrow> u64"
  c_out :: "byte list"

datatype lzf_cflow = CReturn "byte list" | CBreak lzf_state | CNext lzf_state

definition FRST :: "byte list \<Rightarrow> int \<Rightarrow> u32 c_result" where
  "FRST inp p = c_bind (rd inp p) (\<lambda>a. c_bind (rd inp (p + 1)) (\<lambda>b. Inr (push_bit 8 (ucast a) OR ucast b)))"

definition NEXT :: "u32 \<Rightarrow> byte list \<Rightarrow> int \<Rightarrow> u32 c_result" where
  "NEXT v inp p = c_bind (rd inp (p + 2)) (\<lambda>c. Inr (push_bit 8 v OR ucast c))"

definition IDX :: "u32 \<Rightarrow> nat" where
  "IDX h = unat ((drop_bit (3 * 8 - 16) h - h * 5) AND (of_nat HSIZE - 1))"

definition ht_get :: "(nat \<Rightarrow> u64) \<Rightarrow> u32 \<Rightarrow> u64 c_result" where
  "ht_get ht h = (if IDX h < HSIZE then Inr (ht (IDX h)) else Inl OutOfBounds)"

definition ht_put :: "(nat \<Rightarrow> u64) \<Rightarrow> u32 \<Rightarrow> u64 \<Rightarrow> (nat \<Rightarrow> u64) c_result" where
  "ht_put ht h p = (if IDX h < HSIZE then Inr (ht(IDX h := p)) else Inl OutOfBounds)"

text \<open>The offset in the input of an address, and the test whether it holds a match.\<close>

definition in_offset :: "u64 \<Rightarrow> u64 \<Rightarrow> int" where
  "in_offset base p = uint p - uint base"

definition lzf_match :: "u64 \<Rightarrow> byte list \<Rightarrow> u64 \<Rightarrow> int \<Rightarrow> bool c_result" where
  "lzf_match base inp ref ip =
    (let off = base + of_int ip - ref - 1; r = in_offset base ref in
     if off < MAX_OFF \<and> ref > base then
       c_bind (rd inp (r + 2)) (\<lambda>a. c_bind (rd inp (ip + 2)) (\<lambda>b.
         if a = b then c_bind (mem_get inp r 2) (\<lambda>a. c_bind (mem_get inp ip 2) (\<lambda>b. Inr (a = b)))
         else Inr False))
     else Inr False)"

text \<open>The unrolled comparisons: whether one of them broke out of the loop, and \<^verbatim>\<open>len\<close>.\<close>

fun cmp_unrolled :: "byte list \<Rightarrow> int \<Rightarrow> int \<Rightarrow> int \<Rightarrow> nat \<Rightarrow> (bool \<times> int) c_result" where
  "cmp_unrolled inp r ip len 0 = Inr (False, len)"
| "cmp_unrolled inp r ip len (Suc k) =
     c_bind (rd inp (r + (len + 1))) (\<lambda>a. c_bind (rd inp (ip + (len + 1))) (\<lambda>b.
       if a \<noteq> b then Inr (True, len + 1) else cmp_unrolled inp r ip (len + 1) k))"

function cmp_loop :: "byte list \<Rightarrow> int \<Rightarrow> int \<Rightarrow> int \<Rightarrow> int \<Rightarrow> int c_result" where
  "cmp_loop inp r ip maxlen len =
    (if len + 1 < maxlen then
       c_bind (rd inp (r + (len + 1))) (\<lambda>a. c_bind (rd inp (ip + (len + 1))) (\<lambda>b.
         if a = b then cmp_loop inp r ip maxlen (len + 1) else Inr (len + 1)))
     else Inr (len + 1))"
  by auto
termination
  by (relation "measure (\<lambda>(inp, r, ip, maxlen, len). nat (maxlen - len))") auto

declare cmp_loop.simps [simp del]

definition match_len :: "byte list \<Rightarrow> int \<Rightarrow> int \<Rightarrow> int \<Rightarrow> int c_result" where
  "match_len inp r ip maxlen =
    (if maxlen > 16 then
       c_bind (cmp_unrolled inp r ip 2 16) (\<lambda>(broke, len). if broke then Inr len else cmp_loop inp r ip maxlen len)
     else cmp_loop inp r ip maxlen 2)"

text \<open>\<^verbatim>\<open>op [- lit - 1] = lit - 1\<close>.\<close>

definition stop_run :: "byte list \<Rightarrow> int \<Rightarrow> int \<Rightarrow> byte list c_result" where
  "stop_run out op lit = wr out (op - lit - 1) (of_int (lit - 1))"

definition emit_ref :: "byte list \<Rightarrow> int \<Rightarrow> u64 \<Rightarrow> int \<Rightarrow> (byte list \<times> int) c_result" where
  "emit_ref out op off len =
    c_bind (if len < 7 then
              c_bind (wr out op (ucast (drop_bit 8 off) + of_int (push_bit 5 len))) (\<lambda>out. Inr (out, op + 1))
            else
              c_bind (wr out op (ucast (drop_bit 8 off) + of_int (push_bit 5 7))) (\<lambda>out.
              c_bind (wr out (op + 1) (of_int (len - 7))) (\<lambda>out. Inr (out, op + 2))))
      (\<lambda>(out, op). c_bind (wr out op (ucast off)) (\<lambda>out. Inr (out, op + 1)))"

definition not_lit :: "int \<Rightarrow> int" where
  "not_lit lit = (if lit = 0 then 1 else 0)"

text \<open>The table entries of the last two positions of a match, and the hash there.\<close>

definition rehash2 :: "u64 \<Rightarrow> byte list \<Rightarrow> (nat \<Rightarrow> u64) \<Rightarrow> int \<Rightarrow> ((nat \<Rightarrow> u64) \<times> u32) c_result" where
  "rehash2 base inp ht ip =
    (let ip = ip - 2 in
     c_bind (FRST inp ip) (\<lambda>h. c_bind (NEXT h inp ip) (\<lambda>h.
     c_bind (ht_put ht h (base + of_int ip)) (\<lambda>ht. let ip = ip + 1 in
     c_bind (NEXT h inp ip) (\<lambda>h.
     c_bind (ht_put ht h (base + of_int ip)) (\<lambda>ht. Inr (ht, h)))))))"

definition lzf_found :: "u64 \<Rightarrow> byte list \<Rightarrow> u64 \<Rightarrow> lzf_state \<Rightarrow> lzf_cflow c_result" where
  "lzf_found base inp ref s =
    (let in_end = int (length inp); out_end = int (length (c_out s)); ip = c_ip s; op = c_op s; lit = c_lit s;
         off = base + of_int ip - ref - 1; maxlen = min MAX_REF (in_end - ip - 2) in
     if op + 3 + 1 \<ge> out_end \<and> op - not_lit lit + 3 + 1 \<ge> out_end then Inr (CReturn (c_out s))
     else
       c_bind (stop_run (c_out s) op lit) (\<lambda>out.
       c_bind (match_len inp (in_offset base ref) ip maxlen) (\<lambda>len. let len = len - 2; ip = ip + 1 in
       c_bind (emit_ref out (op - not_lit lit) off len) (\<lambda>(out, op).
         let s = s\<lparr>c_ip := ip + (len + 1), c_op := op + 1, c_lit := 0, c_out := out\<rparr> in
         if c_ip s \<ge> in_end - 2 then Inr (CBreak s)
         else c_bind (rehash2 base inp (c_htab s) (c_ip s)) (\<lambda>(ht, h).
           Inr (CNext (s\<lparr>c_htab := ht, c_hval := h\<rparr>)))))))"

text \<open>One literal: \<^verbatim>\<open>lit++; *op++ = *ip++\<close>, and the end of a full run.\<close>

definition lzf_literal :: "byte list \<Rightarrow> lzf_state \<Rightarrow> lzf_state c_result" where
  "lzf_literal inp s =
    c_bind (rd inp (c_ip s)) (\<lambda>b. c_bind (wr (c_out s) (c_op s) b) (\<lambda>out.
      let s = s\<lparr>c_lit := c_lit s + 1, c_op := c_op s + 1, c_ip := c_ip s + 1, c_out := out\<rparr> in
      if c_lit s = MAX_LIT then
        c_bind (stop_run (c_out s) (c_op s) (c_lit s)) (\<lambda>out. Inr (s\<lparr>c_out := out, c_lit := 0, c_op := c_op s + 1\<rparr>))
      else Inr s))"

definition lzf_comp_step :: "u64 \<Rightarrow> byte list \<Rightarrow> lzf_state \<Rightarrow> lzf_cflow c_result" where
  "lzf_comp_step base inp s =
    c_bind (NEXT (c_hval s) inp (c_ip s)) (\<lambda>h.
    c_bind (ht_get (c_htab s) h) (\<lambda>ref.
    c_bind (ht_put (c_htab s) h (base + of_int (c_ip s))) (\<lambda>ht.
      let s = s\<lparr>c_hval := h, c_htab := ht\<rparr> in
      c_bind (lzf_match base inp ref (c_ip s)) (\<lambda>found.
        if found then lzf_found base inp ref s
        else if c_op s \<ge> int (length (c_out s)) then Inr (CReturn (c_out s))
        else c_bind (lzf_literal inp s) (\<lambda>s. Inr (CNext s))))))"

lemma literal_advances: "lzf_literal inp s = Inr s' \<Longrightarrow> c_ip s' = c_ip s + 1"
  by (auto simp: lzf_literal_def c_bind_Inr_iff Let_def split: if_splits)

lemma cmp_unrolled_ge: "cmp_unrolled inp r ip len k = Inr (b, n) \<Longrightarrow> len \<le> n \<and> (b \<longrightarrow> len < n)"
proof (induction k arbitrary: len)
  case (Suc k)
  then show ?case by (auto simp: c_bind_Inr_iff split: if_splits dest: Suc.IH)
qed simp

lemma cmp_loop_ge: "cmp_loop inp r ip maxlen len = Inr n \<Longrightarrow> len < n"
proof (induction inp r ip maxlen len rule: cmp_loop.induct)
  case (1 inp r ip maxlen len)
  from "1.prems" show ?case
    by (subst (asm) cmp_loop.simps) (auto simp: c_bind_Inr_iff split: if_splits dest: "1.IH")
qed

lemma match_len_ge: "match_len inp r ip maxlen = Inr n \<Longrightarrow> 2 < n"
  by (auto simp: match_len_def c_bind_Inr_iff split: if_splits dest!: cmp_loop_ge cmp_unrolled_ge)

lemma comp_step_advances: "lzf_comp_step base inp s = Inr (CNext s') \<Longrightarrow> c_ip s < c_ip s'"
  by (auto simp: lzf_comp_step_def lzf_found_def c_bind_Inr_iff Let_def split: if_splits dest!: match_len_ge literal_advances)

function lzf_comp_loop :: "u64 \<Rightarrow> byte list \<Rightarrow> lzf_state \<Rightarrow> (byte list + lzf_state) c_result" where
  "lzf_comp_loop base inp s =
    (if c_ip s < int (length inp) - 2 then
       (case lzf_comp_step base inp s of
          Inl e \<Rightarrow> Inl e
        | Inr (CReturn out) \<Rightarrow> Inr (Inl out)
        | Inr (CBreak s') \<Rightarrow> Inr (Inr s')
        | Inr (CNext s') \<Rightarrow> lzf_comp_loop base inp s')
     else Inr (Inr s))"
  by auto
termination
  by (relation "measure (\<lambda>(base, inp, s). nat (int (length inp) - c_ip s))") (auto dest: comp_step_advances)

declare lzf_comp_loop.simps [simp del]

text \<open>The literals that are left after the main loop.\<close>

function lzf_tail_loop :: "byte list \<Rightarrow> lzf_state \<Rightarrow> lzf_state c_result" where
  "lzf_tail_loop inp s =
    (if c_ip s < int (length inp) then
       (case lzf_literal inp s of Inl e \<Rightarrow> Inl e | Inr s' \<Rightarrow> lzf_tail_loop inp s')
     else Inr s)"
  by auto
termination
  by (relation "measure (\<lambda>(inp, s). nat (int (length inp) - c_ip s))") (auto dest: literal_advances)

declare lzf_tail_loop.simps [simp del]

definition lzf_finish :: "byte list \<Rightarrow> lzf_state \<Rightarrow> (nat \<times> byte list) c_result" where
  "lzf_finish inp s =
    (if c_op s + 3 > int (length (c_out s)) then Inr (0, c_out s)
     else c_bind (lzf_tail_loop inp s) (\<lambda>s.
       c_bind (stop_run (c_out s) (c_op s) (c_lit s)) (\<lambda>out. Inr (nat (c_op s - not_lit (c_lit s)), out))))"

definition lzf_compress :: "u64 \<Rightarrow> (nat \<Rightarrow> u64) \<Rightarrow> byte list \<Rightarrow> byte list \<Rightarrow> (nat \<times> byte list) c_result" where
  "lzf_compress base htab inp out =
    (if inp = [] \<or> out = [] then Inr (0, out)
     else c_bind (FRST inp 0) (\<lambda>h.
       c_bind (lzf_comp_loop base inp \<lparr>c_ip = 0, c_op = 1, c_lit = 0, c_hval = h, c_htab = htab, c_out = out\<rparr>)
         (\<lambda>r. case r of Inl out \<Rightarrow> Inr (0, out) | Inr s \<Rightarrow> lzf_finish inp s)))"

section \<open>The format\<close>

text \<open>
  What the bytes mean: a sequence of literal runs and of references to the output so far, with
  the distance less one and the number of octets.
\<close>

datatype lz_token = Lit "byte list" | Ref nat nat

fun tok_bytes :: "lz_token \<Rightarrow> byte list" where
  "tok_bytes (Lit bs) = of_nat (length bs - 1) # bs"
| "tok_bytes (Ref off n) =
     (if n < 9 then [of_nat (off div 256 + 32 * (n - 2))] else [of_nat (off div 256 + 224), of_nat (n - 9)]) @ [of_nat (off mod 256)]"

fun ref_copy :: "byte list \<Rightarrow> nat \<Rightarrow> nat \<Rightarrow> byte list" where
  "ref_copy acc off 0 = acc"
| "ref_copy acc off (Suc n) = ref_copy (acc @ [acc ! (length acc - off - 1)]) off n"

fun tok_run :: "byte list \<Rightarrow> lz_token \<Rightarrow> byte list" where
  "tok_run acc (Lit bs) = acc @ bs"
| "tok_run acc (Ref off n) = ref_copy acc off n"

fun tok_ok :: "byte list \<Rightarrow> lz_token \<Rightarrow> bool" where
  "tok_ok acc (Lit bs) \<longleftrightarrow> 1 \<le> length bs \<and> length bs \<le> 32"
| "tok_ok acc (Ref off n) \<longleftrightarrow> off < 8192 \<and> off < length acc \<and> 3 \<le> n \<and> n \<le> 264"

fun toks_run :: "byte list \<Rightarrow> lz_token list \<Rightarrow> byte list option" where
  "toks_run acc [] = Some acc"
| "toks_run acc (t # ts) = (if tok_ok acc t then toks_run (tok_run acc t) ts else None)"

lemma toks_run_snoc: "toks_run acc ts = Some a \<Longrightarrow> tok_ok a t \<Longrightarrow> toks_run acc (ts @ [t]) = Some (tok_run a t)"
  by (induction ts arbitrary: acc) (auto split: if_splits)

lemma length_ref_copy [simp]: "length (ref_copy acc off n) = length acc + n"
  by (induction n arbitrary: acc) auto

lemma toks_run_length: "toks_run acc ts = Some a \<Longrightarrow> length acc \<le> length a"
proof (induction ts arbitrary: acc)
  case (Cons t ts)
  have "length acc \<le> length (tok_run acc t)" by (cases t) auto
  with Cons show ?case by (fastforce split: if_splits)
qed simp

section \<open>The decompressor reads the format\<close>

lemma rd_nth [simp]: "i < length b \<Longrightarrow> rd b (int i) = Inr (b ! i)"
  by (simp add: rd_def)

lemma wr_nth [simp]: "i < length b \<Longrightarrow> wr b (int i) v = Inr (b[i := v])"
  by (simp add: wr_def)

lemma copy_run_ok:
  "i + n \<le> length inp \<Longrightarrow> length acc + n \<le> length buf \<Longrightarrow>
     copy_run inp (int i) (acc @ drop (length acc) buf) (int (length acc)) n =
       Inr (acc @ take n (drop i inp) @ drop (length acc + n) buf)"
proof (induction n arbitrary: i acc)
  case (Suc n)
  have d: "drop (length acc) buf = buf ! length acc # drop (Suc (length acc)) buf"
    using Suc.prems by (simp add: Cons_nth_drop_Suc)
  have t: "take (Suc n) (drop i inp) = inp ! i # take n (drop (Suc i) inp)"
    using Suc.prems by (simp add: Cons_nth_drop_Suc [symmetric])
  have "copy_run inp (int (Suc i)) ((acc @ [inp ! i]) @ drop (length (acc @ [inp ! i])) buf) (int (length (acc @ [inp ! i]))) n =
      Inr ((acc @ [inp ! i]) @ take n (drop (Suc i) inp) @ drop (length (acc @ [inp ! i]) + n) buf)"
    using Suc.prems by (intro Suc.IH) auto
  with Suc.prems show ?case by (simp add: d t add.commute)
qed simp

lemma copy_ref_ok:
  "off < length acc \<Longrightarrow> length acc + n \<le> length buf \<Longrightarrow>
     copy_ref (acc @ drop (length acc) buf) (int (length acc)) (int (length acc - off - 1)) n =
       Inr (ref_copy acc off n @ drop (length acc + n) buf)"
proof (induction n arbitrary: acc)
  case (Suc n)
  let ?acc = "acc @ [acc ! (length acc - off - 1)]"
  have d: "drop (length acc) buf = buf ! length acc # drop (Suc (length acc)) buf"
    using Suc.prems by (simp add: Cons_nth_drop_Suc)
  have "copy_ref (?acc @ drop (length ?acc) buf) (int (length ?acc)) (int (length ?acc - off - 1)) n =
      Inr (ref_copy ?acc off n @ drop (length ?acc + n) buf)"
    using Suc.prems by (intro Suc.IH) auto
  moreover have "int (length ?acc - off - 1) = int (length acc - off - 1) + 1" using Suc.prems by simp
  moreover have "length acc - Suc off < length acc" using Suc.prems by simp
  ultimately show ?case using Suc.prems by (simp add: d nth_append add.commute del: of_nat_diff)
qed simp

lemma ref_copy_disjoint:
  "n \<le> off + 1 \<Longrightarrow> off < length acc \<Longrightarrow> ref_copy acc off n = acc @ take n (drop (length acc - off - 1) acc)"
proof (induction n arbitrary: acc)
  case (Suc n)
  let ?k = "length acc - off - 1"
  have "take (Suc n) (drop ?k acc) = acc ! ?k # take n (drop (Suc ?k) acc)"
    using Suc.prems by (simp add: Cons_nth_drop_Suc [symmetric])
  moreover have "length (acc @ [acc ! ?k]) - off - 1 = Suc ?k" using Suc.prems by simp
  ultimately show ?case using Suc.prems Suc.IH [of "acc @ [acc ! ?k]"] by simp
qed simp

text \<open>The choice of \<^verbatim>\<open>memcpy\<close> or octet copying makes no difference.\<close>

lemma memcpy_ref_ok:
  assumes "off < length acc" and "length acc + n \<le> length buf" and "n \<le> off + 1"
  shows "mem_move (acc @ drop (length acc) buf) (int (length acc)) (int (length acc - off - 1)) n =
    Inr (ref_copy acc off n @ drop (length acc + n) buf)"
proof -
  let ?r = "length acc - off - 1"
  have r: "?r + n \<le> length acc" using assms by simp
  then have "mem_get (acc @ drop (length acc) buf) (int ?r) n = Inr (take n (drop ?r acc))"
    using assms by (simp add: mem_get_def del: of_nat_diff)
  moreover have "length (take n (drop ?r acc)) = n" using r by simp
  ultimately show ?thesis
    using assms by (simp add: mem_move_def mem_put_def overwrite_def ref_copy_disjoint add.commute del: of_nat_diff)
qed

lemma backref_ok:
  assumes "off < length acc" and "length acc + (len + 2) \<le> length buf"
  shows "lzf_backref (acc @ drop (length acc) buf) (int (length acc)) (int (length acc - off - 1)) len =
    Inr (ref_copy acc off (len + 2) @ drop (length acc + (len + 2)) buf)"
proof -
  have "len + 2 \<le> off + 1" if "int (length acc - off - 1) + int (len + 2) \<le> int (length acc)"
    using that assms by simp
  with copy_ref_ok [OF assms] memcpy_ref_ok [OF assms] show ?thesis
    unfolding lzf_backref_def Let_def by presburger
qed

lemma unat_small_byte: "x < 256 \<Longrightarrow> unat (of_nat x :: byte) = x"
  by (simp add: unat_of_nat take_bit_nat_eq_self)

lemma ctrl_bits:
  assumes "h < 32"
  shows "drop_bit 5 (h + 32 * l) = l" and "(h + 32 * l) AND 31 = (h :: nat)"
proof -
  have "(h + 32 * l) AND 31 = take_bit 5 (h + 32 * l)" by (simp add: take_bit_eq_mask mask_eq_exp_minus_1)
  with assms show "drop_bit 5 (h + 32 * l) = l" "(h + 32 * l) AND 31 = h"
    by (simp_all add: drop_bit_eq_div take_bit_eq_mod)
qed

lemma nth_of_drop: "drop i xs = ys @ zs \<Longrightarrow> k < length ys \<Longrightarrow> i + k < length xs \<and> xs ! (i + k) = ys ! k"
proof -
  assume d: "drop i xs = ys @ zs" and k: "k < length ys"
  from d have "length xs - i = length ys + length zs" by (metis length_append length_drop)
  with k have "i + k < length xs" by simp
  moreover from this have "xs ! (i + k) = drop i xs ! k" by simp
  ultimately show ?thesis using d k by (simp add: nth_append)
qed

lemma dec_step_lit:
  assumes "drop i inp = tok_bytes (Lit bs) @ rest" and "tok_ok acc (Lit bs)" and "length acc \<le> length buf"
  shows "lzf_dec_step inp (acc @ drop (length acc) buf) (int i) (int (length acc)) =
    (if length acc + length bs \<le> length buf then
       Inr (DNext (int (i + 1 + length bs)) (int (length acc + length bs)) (acc @ bs @ drop (length acc + length bs) buf))
     else Inr (DReturn 0 (Some E2BIG) (acc @ drop (length acc) buf)))"
proof -
  have len: "1 \<le> length bs" "length bs \<le> 32" using assms(2) by auto
  have c: "i < length inp" "inp ! i = of_nat (length bs - 1)" using nth_of_drop [OF assms(1), of 0] by auto
  have u: "unat (of_nat (length bs - 1) :: byte) = length bs - 1" using len by (intro unat_small_byte) simp
  have d: "drop (i + 1) inp = bs @ rest" using assms(1) by (metis add.commute append_Cons drop_Suc_Cons drop_drop plus_1_eq_Suc drop0 tok_bytes.simps(1))
  have l: "i + 1 + length bs \<le> length inp" using arg_cong [OF d, of length] c(1) by simp
  have cr: "copy_run inp (int (i + 1)) (acc @ drop (length acc) buf) (int (length acc)) (length bs) =
      Inr (acc @ bs @ drop (length acc + length bs) buf)" if "length acc + length bs \<le> length buf"
    using copy_run_ok [OF l that] d by simp
  have n: "length bs - 1 < 32" "length bs - 1 + 1 = length bs" using len by auto
  have o: "int (length acc) + int (length bs) > int (length (acc @ drop (length acc) buf)) \<longleftrightarrow> \<not> length acc + length bs \<le> length buf"
    using assms(3) by auto
  have i: "\<not> int i + 1 + int (length bs) > int (length inp)" using l by simp
  show ?thesis
    unfolding lzf_dec_step_def rd_nth [OF c(1)] c(2) c_bind_simps u Let_def n(2) if_P [OF n(1)] o if_not_P [OF i]
    using cr by (simp add: add.commute)
qed

lemma dec_step_ref:
  assumes "drop i inp = tok_bytes (Ref off n) @ rest" and "tok_ok acc (Ref off n)" and "length acc \<le> length buf"
  shows "lzf_dec_step inp (acc @ drop (length acc) buf) (int i) (int (length acc)) =
    (if length acc + n \<le> length buf then
       Inr (DNext (int (i + length (tok_bytes (Ref off n)))) (int (length acc + n)) (ref_copy acc off n @ drop (length acc + n) buf))
     else Inr (DReturn 0 (Some E2BIG) (acc @ drop (length acc) buf)))"
proof -
  let ?h = "off div 256" and ?len = "if n < 9 then n - 2 else 7"
  have ok: "off < 8192" "off < length acc" "3 \<le> n" "n \<le> 264" and h: "?h < 32" using assms(2) by auto
  have u: "unat (of_nat (?h + 32 * ?len) :: byte) = ?h + 32 * ?len" using h by (intro unat_small_byte) auto
  have lo: "unat (of_nat (off mod 256) :: byte) = off mod 256" by (intro unat_small_byte) simp
  have c: "rd inp (int i) = Inr (of_nat (?h + 32 * ?len))" using nth_of_drop [OF assms(1), of 0] by (auto split: if_splits)
  have big: "\<not> ?h + 32 * ?len < 32" using ok by auto
  have e: "int off = int ?h * 256 + int (off mod 256)"
    by (metis div_mult_mod_eq of_nat_add of_nat_mult of_nat_numeral)
  have ref: "int (length acc) - int (push_bit 8 ?h) - 1 - int (off mod 256) = int (length acc - off - 1)"
    using ok(2) e by (simp add: push_bit_eq_mult)
  have room: "int (length acc) + int (n - 2) + 2 > int (length (acc @ drop (length acc) buf)) \<longleftrightarrow> \<not> length acc + n \<le> length buf"
    using assms(3) ok(3) by auto
  have copy: "lzf_backref (acc @ drop (length acc) buf) (int (length acc)) (int (length acc - off - 1)) (n - 2) =
      Inr (ref_copy acc off n @ drop (length acc + n) buf)" if "length acc + n \<le> length buf"
  proof -
    have "n - 2 + 2 = n" using ok by simp
    with backref_ok [of off acc "n - 2" buf] that ok show ?thesis by (simp only:)
  qed
  have "1 < length (tok_bytes (Ref off n))" by simp
  from nth_of_drop [OF assms(1) this] have end1: "\<not> int i + 1 \<ge> int (length inp)" by linarith
  show ?thesis
  proof (cases "n < 9")
    case True
    then have r: "rd inp (int i + 1) = Inr (of_nat (off mod 256))"
      using nth_of_drop [OF assms(1), of 1] rd_nth [of "Suc i" inp] by (simp add: add.commute)
    from True ok have len: "?len = n - 2" "n - 2 \<noteq> 7" by auto
    show ?thesis
      unfolding lzf_dec_step_def c c_bind_simps Let_def u if_not_P [OF big] if_not_P [OF end1] ctrl_bits [OF h]
      unfolding len(1) if_not_P [OF len(2)] option.case prod.case r c_bind_simps lo ref room
      using True ok copy by simp
  next
    case False
    have b: "unat (of_nat (n - 9) :: byte) = n - 9" using ok by (intro unat_small_byte) simp
    from False have r: "rd inp (int i + 1) = Inr (of_nat (n - 9))" "rd inp (int i + 1 + 1) = Inr (of_nat (off mod 256))"
      "\<not> int i + 1 + 1 \<ge> int (length inp)"
      using nth_of_drop [OF assms(1), of 1] nth_of_drop [OF assms(1), of 2] rd_nth [of "Suc i" inp] rd_nth [of "Suc (Suc i)" inp]
      by (simp_all add: add.commute)
    from False ok have len: "?len = 7" "7 + (n - 9) = n - 2" "7 = (7 :: nat)" by auto
    show ?thesis
      unfolding lzf_dec_step_def c c_bind_simps Let_def u if_not_P [OF big] if_not_P [OF end1] ctrl_bits [OF h]
      unfolding len(1) if_P [OF len(3)] r(1) c_bind_simps if_not_P [OF r(3)] option.case prod.case r(2) lo ref b len(2) room
      using False ok copy by simp
  qed
qed

lemma dec_step_tok:
  assumes "drop i inp = tok_bytes t @ rest" and "tok_ok acc t" and "length acc \<le> length buf"
  shows "lzf_dec_step inp (acc @ drop (length acc) buf) (int i) (int (length acc)) =
    (if length (tok_run acc t) \<le> length buf then
       Inr (DNext (int (i + length (tok_bytes t))) (int (length (tok_run acc t))) (tok_run acc t @ drop (length (tok_run acc t)) buf))
     else Inr (DReturn 0 (Some E2BIG) (acc @ drop (length acc) buf)))"
proof (cases t)
  case (Lit bs)
  with dec_step_lit [of i inp bs rest acc buf] assms show ?thesis by simp
next
  case (Ref off n)
  with dec_step_ref [of i inp off n rest acc buf] assms show ?thesis by simp
qed

text \<open>The whole run: the expansion of the tokens, or too small a buffer.\<close>

lemma dec_loop_toks:
  "drop i inp = concat (map tok_bytes ts) \<Longrightarrow> i \<le> length inp \<Longrightarrow> toks_run acc ts = Some r \<Longrightarrow> length acc \<le> length buf \<Longrightarrow>
     \<exists>buf'. lzf_dec_loop inp (acc @ drop (length acc) buf) (int i) (int (length acc)) =
       Inr (if length r \<le> length buf then (length r, None, r @ drop (length r) buf) else (0, Some E2BIG, buf'))"
proof (induction ts arbitrary: i acc)
  case Nil
  then show ?case by (simp add: lzf_dec_loop.simps)
next
  case (Cons t ts)
  let ?a = "tok_run acc t" and ?i = "i + length (tok_bytes t)"
  from Cons.prems have ok: "tok_ok acc t" and run: "toks_run ?a ts = Some r" by (auto split: if_splits)
  have d: "drop i inp = tok_bytes t @ concat (map tok_bytes ts)" using Cons.prems(1) by simp
  note step = dec_step_tok [OF d ok Cons.prems(4)]
  have "tok_bytes t \<noteq> []" by (cases t) auto
  then have i: "i < length inp" using d by (metis append_is_Nil_conv drop_all not_le_imp_less)
  have d': "drop ?i inp = concat (map tok_bytes ts)" using d by (metis add.commute append_eq_conv_conj drop_drop)
  have l: "?i \<le> length inp" using arg_cong [OF d, of length] i by simp
  show ?case
  proof (cases "length ?a \<le> length buf")
    case True
    with step i have "lzf_dec_loop inp (acc @ drop (length acc) buf) (int i) (int (length acc)) =
        lzf_dec_loop inp (?a @ drop (length ?a) buf) (int ?i) (int (length ?a))"
      by (subst lzf_dec_loop.simps) simp
    with Cons.IH [OF d' l run True] show ?thesis by simp
  next
    case False
    with step i show ?thesis using toks_run_length [OF run] by (subst lzf_dec_loop.simps) auto
  qed
qed

section \<open>The decompressor is safe on any input\<close>

lemma copy_run_safe:
  "0 \<le> ip \<Longrightarrow> ip + int n \<le> int (length inp) \<Longrightarrow> 0 \<le> op \<Longrightarrow> op + int n \<le> int (length out) \<Longrightarrow>
     \<exists>out'. copy_run inp ip out op n = Inr out' \<and> length out' = length out"
proof (induction n arbitrary: ip out op)
  case (Suc n)
  then show ?case using Suc.IH [of "ip + 1" "op + 1" "out[nat op := inp ! nat ip]"] by (simp add: rd_def wr_def)
qed simp

lemma copy_ref_safe:
  "0 \<le> ref \<Longrightarrow> ref < op \<Longrightarrow> op + int n \<le> int (length out) \<Longrightarrow>
     \<exists>out'. copy_ref out op ref n = Inr out' \<and> length out' = length out"
proof (induction n arbitrary: ref out op)
  case (Suc n)
  then show ?case using Suc.IH [of "ref + 1" "op + 1" "out[nat op := out ! nat ref]"] by (simp add: rd_def wr_def)
qed simp

lemma backref_safe:
  assumes "0 \<le> ref" and "ref < op" and "op + int len + 2 \<le> int (length out)"
  shows "\<exists>out'. lzf_backref out op ref len = Inr out' \<and> length out' = length out"
proof -
  have "\<exists>out'. copy_ref out op ref (len + 2) = Inr out' \<and> length out' = length out"
    using assms by (intro copy_ref_safe) auto
  moreover have "\<exists>out'. mem_move out op ref (len + 2) = Inr out' \<and> length out' = length out"
    using assms by (simp add: mem_move_def mem_get_def mem_put_def)
  ultimately show ?thesis by (simp add: lzf_backref_def Let_def)
qed

definition dflow_ok :: "byte list \<Rightarrow> byte list \<Rightarrow> lzf_dflow \<Rightarrow> bool" where
  "dflow_ok inp out f = (case f of
     DReturn n err out' \<Rightarrow> n = 0 \<and> err \<noteq> None \<and> length out' = length out
   | DNext ip op out' \<Rightarrow> 0 \<le> ip \<and> 0 \<le> op \<and> op \<le> int (length out) \<and> length out' = length out)"

lemma dflow_ok_simps [simp]:
  "dflow_ok inp out (DReturn n err out') \<longleftrightarrow> n = 0 \<and> err \<noteq> None \<and> length out' = length out"
  "dflow_ok inp out (DNext ip op out') \<longleftrightarrow> 0 \<le> ip \<and> 0 \<le> op \<and> op \<le> int (length out) \<and> length out' = length out"
  by (simp_all add: dflow_ok_def)

lemma dec_step_safe:
  assumes "0 \<le> ip" and "ip < int (length inp)" and "0 \<le> op" and "op \<le> int (length out)"
  shows "\<exists>f. lzf_dec_step inp out ip op = Inr f \<and> dflow_ok inp out f"
proof -
  define c where "c = unat (inp ! nat ip)"
  have rd: "rd inp k = Inr (inp ! nat k)" if "0 \<le> k" "k < int (length inp)" for k using that by (simp add: rd_def)
  have run: "\<exists>out'. copy_run inp (ip + 1) out op (c + 1) = Inr out' \<and> length out' = length out"
    if "op + int (c + 1) \<le> int (length out)" "ip + 1 + int (c + 1) \<le> int (length inp)"
    using that assms by (intro copy_run_safe) auto
  have ref: "\<exists>f. (if op + int len + 2 > int (length out) then Inr (DReturn 0 (Some E2BIG) out)
      else if op - int x - 1 - int y < 0 then Inr (DReturn 0 (Some EINVAL) out)
      else c_bind (lzf_backref out op (op - int x - 1 - int y) len) (\<lambda>out. Inr (DNext k (op + int len + 2) out))) = Inr f \<and> dflow_ok inp out f"
    if "0 \<le> k" for len x y k
    using that assms backref_safe [of "op - int x - 1 - int y" op len out] by auto
  show ?thesis
  proof (cases "c < 32")
    case True
    with run assms show ?thesis unfolding lzf_dec_step_def rd [OF assms(1,2)] c_bind_simps Let_def c_def [symmetric]
      by auto
  next
    case False
    have e: "dflow_ok inp out (DReturn 0 (Some EINVAL) out)" by simp
    note s = lzf_dec_step_def rd [OF assms(1,2)] c_bind_simps Let_def c_def [symmetric] if_not_P [OF False]
    consider "int (length inp) \<le> ip + 1" | "\<not> int (length inp) \<le> ip + 1" "drop_bit 5 c \<noteq> 7"
      | "\<not> int (length inp) \<le> ip + 1" "drop_bit 5 c = 7" "int (length inp) \<le> ip + 1 + 1"
      | "\<not> int (length inp) \<le> ip + 1" "drop_bit 5 c = 7" "\<not> int (length inp) \<le> ip + 1 + 1" by blast
    then show ?thesis
    proof cases
      case 1
      with e show ?thesis unfolding s by simp
    next
      case 2
      with assms(1) have "rd inp (ip + 1) = Inr (inp ! nat (ip + 1))" by (intro rd) auto
      with 2 assms(1) show ?thesis unfolding s by (simp only: if_False option.case prod.case c_bind_simps) (rule ref, simp)
    next
      case 3
      with assms(1) have "rd inp (ip + 1) = Inr (inp ! nat (ip + 1))" by (intro rd) auto
      with 3 e show ?thesis unfolding s by (simp only: simp_thms if_True if_False option.case c_bind_simps) simp
    next
      case 4
      with assms(1) have "rd inp (ip + 1) = Inr (inp ! nat (ip + 1))" "rd inp (ip + 1 + 1) = Inr (inp ! nat (ip + 1 + 1))"
        by (auto intro: rd)
      with 4 assms(1) show ?thesis unfolding s
        by (simp only: simp_thms if_True if_False option.case prod.case c_bind_simps) (rule ref, simp)
    qed
  qed
qed

lemma dec_loop_safe:
  "0 \<le> ip \<Longrightarrow> 0 \<le> op \<Longrightarrow> op \<le> int (length out) \<Longrightarrow>
     \<exists>n err out'. lzf_dec_loop inp out ip op = Inr (n, err, out') \<and> length out' = length out \<and> n \<le> length out \<and> (err = None \<or> n = 0)"
proof (induction inp out ip op rule: lzf_dec_loop.induct)
  case (1 inp out ip op)
  show ?case
  proof (cases "ip < int (length inp)")
    case True
    obtain f where f: "lzf_dec_step inp out ip op = Inr f" "dflow_ok inp out f"
      using dec_step_safe [of ip inp op out] True "1.prems" by auto
    show ?thesis
    proof (cases f)
      case (DReturn n err out')
      with f True show ?thesis by (subst lzf_dec_loop.simps) (auto simp: dflow_ok_def)
    next
      case (DNext ip' op' out')
      with f True "1.IH" [OF True f(1) DNext] show ?thesis
        by (subst lzf_dec_loop.simps) (simp add: dflow_ok_def)
    qed
  next
    case False
    with "1.prems" show ?thesis by (subst lzf_dec_loop.simps) auto
  qed
qed

section \<open>The compressor writes the format\<close>

lemma IDX_less: "IDX h < HSIZE"
proof -
  have "IDX h = unat (take_bit 16 (drop_bit (3 * 8 - 16) h - h * 5))"
    by (simp add: IDX_def take_bit_eq_mask mask_eq_exp_minus_1)
  also have "\<dots> < 2 ^ 16" unfolding unsigned_take_bit_eq by (rule take_bit_nat_less_exp)
  finally show ?thesis .
qed

lemma ht_ok [simp]: "ht_get ht h = Inr (ht (IDX h))" "ht_put ht h p = Inr (ht(IDX h := p))"
  using IDX_less [of h] by (simp_all add: ht_get_def ht_put_def)

lemma NEXT_ok: "0 \<le> p \<Longrightarrow> p + 2 < int (length inp) \<Longrightarrow> \<exists>h. NEXT v inp p = Inr h"
  by (simp add: NEXT_def rd_def)

lemma FRST_ok: "0 \<le> p \<Longrightarrow> p + 1 < int (length inp) \<Longrightarrow> \<exists>h. FRST inp p = Inr h"
  by (simp add: FRST_def rd_def)

lemma rehash2_ok:
  assumes "2 \<le> ip" and "ip < int (length inp) - 2"
  shows "\<exists>ht' h. rehash2 base inp ht ip = Inr (ht', h)"
proof -
  obtain h1 where h1: "FRST inp (ip - 2) = Inr h1" using FRST_ok [of "ip - 2" inp] assms by auto
  obtain h2 where h2: "NEXT h1 inp (ip - 2) = Inr h2" using NEXT_ok [of "ip - 2" inp h1] assms by auto
  obtain h3 where h3: "NEXT h2 inp (ip - 2 + 1) = Inr h3" using NEXT_ok [of "ip - 2 + 1" inp h2] assms by auto
  show ?thesis unfolding rehash2_def Let_def h1 c_bind_simps h2 ht_ok h3 by blast
qed

text \<open>
  Whatever the table holds, the tests on the address leave only positions of the input before the
  current one.  This needs the input to lie above the first 8192 bytes of the address space.
\<close>

lemma ref_in_input:
  assumes "8192 \<le> uint base" and "uint base + int (length inp) < 2 ^ 64" and "i < length inp"
    and off: "base + of_int (int i) - ref - 1 < (8192 :: u64)" and "base < ref"
  shows "\<exists>off. base + of_int (int i) - ref - 1 = of_nat off \<and> off < 8192 \<and> off + 1 < i \<and> in_offset base ref = int (i - off - 1)"
proof -
  let ?D = "base + of_int (int i) - ref - 1"
  let ?x = "uint base + int i - uint ?D - 1"
  have d: "uint ?D < 8192" using off by (simp add: word_less_def)
  have "word_of_int ?x = base + word_of_int (int i) - ?D - 1" by simp
  then have w: "ref = word_of_int ?x" by simp
  have "0 \<le> ?x" "?x < 2 ^ 64" using assms(1-3) d uint_ge_0 [of ?D] by linarith+
  then have "uint (word_of_int ?x :: u64) = ?x" unfolding uint_word_of_int_eq by (intro take_bit_int_eq_self) simp_all
  from trans [OF arg_cong [OF w, of uint] this] have r: "uint ref = ?x" .
  have "uint base < uint ref" using assms(5) by (simp add: word_less_def)
  moreover have o: "?D = of_nat (unat ?D)" "uint ?D = int (unat ?D)" by simp_all
  ultimately have i: "unat ?D + 1 < i" using r by linarith
  then have "in_offset base ref = int (i - unat ?D - 1)" unfolding in_offset_def r o(2) by linarith
  moreover have "unat ?D < 8192" using d o(2) by linarith
  ultimately show ?thesis using i o(1) by blast
qed

lemma match_ok:
  assumes "8192 \<le> uint base" and "uint base + int (length inp) < 2 ^ 64" and "i + 2 < length inp"
  shows "\<exists>b. lzf_match base inp ref (int i) = Inr b \<and>
    (b \<longrightarrow> (\<exists>off. base + of_int (int i) - ref - 1 = of_nat off \<and> off < 8192 \<and> off + 1 < i \<and>
       in_offset base ref = int (i - off - 1) \<and> (\<forall>k < 3. inp ! (i - off - 1 + k) = inp ! (i + k))))"
proof (cases "base + of_int (int i) - ref - 1 < MAX_OFF \<and> base < ref")
  case True
  then obtain off where off: "base + of_int (int i) - ref - 1 = of_nat off" "off < 8192" "off + 1 < i" "in_offset base ref = int (i - off - 1)"
    using ref_in_input [OF assms(1,2), of i ref] assms(3) by auto
  let ?r = "i - off - 1"
  have rd: "rd inp (int ?r + 2) = Inr (inp ! (?r + 2))" "rd inp (int i + 2) = Inr (inp ! (i + 2))"
    using assms(3) off(3) by (auto simp: rd_def nat_add_distrib simp del: of_nat_diff)
  have two: "take 2 (drop j inp) = [inp ! j, inp ! (j + 1)]" if "j + 1 < length inp" for j
    using that by (simp add: numeral_2_eq_2 take_Suc_conv_app_nth)
  have get: "mem_get inp (int j) 2 = Inr [inp ! j, inp ! (j + 1)]" if "j + 1 < length inp" for j
    using two [OF that] that by (simp add: mem_get_def)
  have g: "mem_get inp (int ?r) 2 = Inr [inp ! ?r, inp ! (?r + 1)]" "mem_get inp (int i) 2 = Inr [inp ! i, inp ! (i + 1)]"
    using assms(3) off(3) by (intro get, simp)+
  have three: "(\<forall>k < 3. P k) \<longleftrightarrow> P 0 \<and> P 1 \<and> P (2 :: nat)" for P
    by (auto simp: less_Suc_eq numeral_3_eq_3 numeral_2_eq_2)
  have "lzf_match base inp ref (int i) =
      Inr (inp ! (?r + 2) = inp ! (i + 2) \<and> inp ! ?r = inp ! i \<and> inp ! (?r + 1) = inp ! (i + 1))"
    unfolding lzf_match_def Let_def if_P [OF True] off(4) rd g c_bind_simps by simp
  with off show ?thesis unfolding three by (intro exI conjI impI) (assumption | simp)+
next
  case False
  show ?thesis unfolding lzf_match_def Let_def if_not_P [OF False] by blast
qed

lemma rd_off: "r + Suc l < length inp \<Longrightarrow> rd inp (int r + (int l + 1)) = Inr (inp ! (r + Suc l))"
  using rd_nth [of "r + Suc l" inp] by (simp add: ac_simps)

lemma cmp_unrolled_ok:
  "r < i \<Longrightarrow> i + l + k < length inp \<Longrightarrow> \<forall>j \<le> l. inp ! (r + j) = inp ! (i + j) \<Longrightarrow>
     \<exists>b n. cmp_unrolled inp (int r) (int i) (int l) k = Inr (b, int n) \<and>
       (if b then l < n \<and> n \<le> l + k \<and> (\<forall>j < n. inp ! (r + j) = inp ! (i + j))
        else n = l + k \<and> (\<forall>j \<le> n. inp ! (r + j) = inp ! (i + j)))"
proof (induction k arbitrary: l)
  case 0
  then show ?case by (intro exI [of _ False] exI [of _ l]) simp
next
  case (Suc k)
  have rd: "rd inp (int r + (int l + 1)) = Inr (inp ! (r + Suc l))" "rd inp (int i + (int l + 1)) = Inr (inp ! (i + Suc l))"
    using Suc.prems by (intro rd_off, simp)+
  show ?case
  proof (cases "inp ! (r + Suc l) = inp ! (i + Suc l)")
    case True
    then have "\<forall>j \<le> Suc l. inp ! (r + j) = inp ! (i + j)" using Suc.prems(3) by (auto simp: le_Suc_eq)
    then obtain b n where bn: "cmp_unrolled inp (int r) (int i) (int (Suc l)) k = Inr (b, int n)"
      "if b then Suc l < n \<and> n \<le> Suc l + k \<and> (\<forall>j < n. inp ! (r + j) = inp ! (i + j))
       else n = Suc l + k \<and> (\<forall>j \<le> n. inp ! (r + j) = inp ! (i + j))"
      using Suc.IH [of "Suc l"] Suc.prems by auto
    from bn(1) True rd have "cmp_unrolled inp (int r) (int i) (int l) (Suc k) = Inr (b, int n)" by (simp add: add.commute)
    with bn(2) show ?thesis by (intro exI [of _ b] exI [of _ n]) (auto split: if_splits)
  next
    case False
    then have "cmp_unrolled inp (int r) (int i) (int l) (Suc k) = Inr (True, int (Suc l))" using rd by simp
    with Suc.prems(3) show ?thesis by (intro exI [of _ True] exI [of _ "Suc l"]) (auto simp: less_Suc_eq_le)
  qed
qed

lemma cmp_loop_ok:
  "r < i \<Longrightarrow> maxlen \<le> length inp - i \<Longrightarrow> \<forall>j \<le> l. inp ! (r + j) = inp ! (i + j) \<Longrightarrow>
     \<exists>n. cmp_loop inp (int r) (int i) (int maxlen) (int l) = Inr (int n) \<and> l < n \<and> n \<le> max (l + 1) maxlen \<and>
       (\<forall>j < n. inp ! (r + j) = inp ! (i + j))"
proof (induction "maxlen - l" arbitrary: l)
  case 0
  then show ?case by (subst cmp_loop.simps) (auto intro!: exI [of _ "Suc l"] simp: less_Suc_eq_le)
next
  case (Suc m)
  show ?case
  proof (cases "l + 1 < maxlen")
    case True
    have rd: "rd inp (int r + (int l + 1)) = Inr (inp ! (r + Suc l))" "rd inp (int i + (int l + 1)) = Inr (inp ! (i + Suc l))"
      using Suc.prems True by (intro rd_off, simp)+
    show ?thesis
    proof (cases "inp ! (r + Suc l) = inp ! (i + Suc l)")
      case eq: True
      then have "\<forall>j \<le> Suc l. inp ! (r + j) = inp ! (i + j)" using Suc.prems(3) by (auto simp: le_Suc_eq)
      then obtain n where n: "cmp_loop inp (int r) (int i) (int maxlen) (int (Suc l)) = Inr (int n)" "Suc l < n" "n \<le> max (Suc l + 1) maxlen"
        "\<forall>j < n. inp ! (r + j) = inp ! (i + j)"
        using Suc.hyps(1) [of "Suc l", OF _ Suc.prems(1,2)] Suc.hyps(2) by fastforce
      from n(1) True eq rd have "cmp_loop inp (int r) (int i) (int maxlen) (int l) = Inr (int n)"
        by (subst cmp_loop.simps) (simp add: add.commute)
      with n True show ?thesis by (intro exI [of _ n]) auto
    next
      case False
      with True rd have "cmp_loop inp (int r) (int i) (int maxlen) (int l) = Inr (int (Suc l))"
        by (subst cmp_loop.simps) simp
      with Suc.prems(3) show ?thesis by (intro exI [of _ "Suc l"]) (auto simp: less_Suc_eq_le)
    qed
  next
    case False
    then have "cmp_loop inp (int r) (int i) (int maxlen) (int l) = Inr (int (Suc l))" by (subst cmp_loop.simps) simp
    with Suc.prems(3) show ?thesis by (intro exI [of _ "Suc l"]) (auto simp: less_Suc_eq_le)
  qed
qed

lemma match_len_ok:
  assumes "r < i" and "i + 2 < length inp" and "\<forall>k < 3. inp ! (r + k) = inp ! (i + k)"
  shows "\<exists>n. match_len inp (int r) (int i) (min MAX_REF (int (length inp) - int i - 2)) = Inr (int n) \<and>
    3 \<le> n \<and> n \<le> 264 \<and> i + n \<le> length inp \<and> (\<forall>k < n. inp ! (r + k) = inp ! (i + k))"
proof -
  define M where "M = min 264 (length inp - i - 2)"
  have M: "min MAX_REF (int (length inp) - int i - 2) = int M" using assms(2) by (simp add: M_def)
  have le: "M \<le> length inp - i" "M \<le> 264" by (simp_all add: M_def)
  have init: "\<forall>j \<le> 2. inp ! (r + j) = inp ! (i + j)" using assms(3) by auto
  show ?thesis
  proof (cases "16 < M")
    case True
    then have i: "i + 2 + 16 < length inp" by (simp add: M_def)
    obtain b n where bn: "cmp_unrolled inp (int r) (int i) (int 2) 16 = Inr (b, int n)"
      "if b then 2 < n \<and> n \<le> 2 + 16 \<and> (\<forall>j < n. inp ! (r + j) = inp ! (i + j))
       else n = 2 + 16 \<and> (\<forall>j \<le> n. inp ! (r + j) = inp ! (i + j))"
      using cmp_unrolled_ok [OF assms(1) i init] by auto
    show ?thesis
    proof (cases b)
      case True
      with bn \<open>16 < M\<close> i show ?thesis unfolding M match_len_def by (intro exI [of _ n]) auto
    next
      case False
      then obtain n' where "cmp_loop inp (int r) (int i) (int M) (int n) = Inr (int n')" "n < n'" "n' \<le> max (n + 1) M"
        "\<forall>j < n'. inp ! (r + j) = inp ! (i + j)"
        using cmp_loop_ok [OF assms(1) le(1), of n] bn(2) by auto
      with False bn \<open>16 < M\<close> le i show ?thesis unfolding M match_len_def by (intro exI [of _ n']) auto
    qed
  next
    case False
    obtain n where "cmp_loop inp (int r) (int i) (int M) (int 2) = Inr (int n)" "2 < n" "n \<le> max (2 + 1) M"
      "\<forall>j < n. inp ! (r + j) = inp ! (i + j)"
      using cmp_loop_ok [OF assms(1) le(1) init] by auto
    with False le assms(2) show ?thesis unfolding M match_len_def by (intro exI [of _ n]) auto
  qed
qed

text \<open>Writing at a known position.\<close>

lemma take_wr: "p \<le> q \<Longrightarrow> take p (out[q := v]) = take p out"
  by simp

lemma take_Suc_wr: "p < length out \<Longrightarrow> take (Suc p) (out[p := v]) = take p out @ [v]"
  by (simp add: take_Suc_conv_app_nth)

lemma ucast_of_nat: "x < 2 ^ 64 \<Longrightarrow> ucast (of_nat x :: u64) = (of_nat x :: byte)"
  by (simp add: unsigned_of_nat take_bit_nat_eq_self)

lemma of_nat_mod_byte: "(of_nat (x mod 256) :: byte) = of_nat x"
  by (simp add: word_of_nat_eq_iff take_bit_eq_mod)

lemma off_high: "off < 8192 \<Longrightarrow> ucast (drop_bit 8 (of_nat off :: u64)) = (of_nat (off div 256) :: byte)"
proof -
  assume off: "off < 8192"
  then have u: "unat (of_nat off :: u64) = off" by (simp add: unat_of_nat take_bit_nat_eq_self)
  have "unat (drop_bit 8 (of_nat off :: u64)) = off div 256"
    unfolding unsigned_drop_bit_eq u using off by (simp add: take_bit_nat_eq_self drop_bit_eq_div)
  then have "of_nat (unat (drop_bit 8 (of_nat off :: u64))) = (of_nat (off div 256) :: u64)" by (simp only:)
  then have "drop_bit 8 (of_nat off :: u64) = of_nat (off div 256)" by (simp only: of_nat_unat ucast_id)
  with off ucast_of_nat [of "off div 256"] show ?thesis by simp
qed

lemma emit_ref_ok:
  assumes "q + 3 \<le> length out" and "off < 8192" and "3 \<le> n" and "n \<le> 264"
  shows "\<exists>out'. emit_ref out (int q) (of_nat off) (int n - 2) = Inr (out', int (q + length (tok_bytes (Ref off n)))) \<and>
    length out' = length out \<and> take (q + length (tok_bytes (Ref off n))) out' = take q out @ tok_bytes (Ref off n)"
proof -
  have lo: "ucast (of_nat off :: u64) = (of_nat (off mod 256) :: byte)"
    using assms(2) by (simp add: ucast_of_nat of_nat_mod_byte)
  have suc: "int q + 1 = int (Suc q)" "int q + 2 = int (Suc (Suc q))" "int (Suc q) + 1 = int (Suc (Suc q))" "int (Suc (Suc q)) + 1 = int (Suc (Suc (Suc q)))"
    by simp_all
  show ?thesis
  proof (cases "n < 9")
    case True
    have e: "int n - 2 = int (n - 2)" using assms(3) by simp
    have hi: "ucast (drop_bit 8 (of_nat off :: u64)) + of_int (push_bit 5 (int n - 2)) = (of_nat (off div 256 + 32 * (n - 2)) :: byte)"
      unfolding off_high [OF assms(2)] e by (simp add: push_bit_eq_mult mult.commute del: of_nat_diff)
    have c: "int n - 2 < 7" using True by simp
    let ?out = "out[q := of_nat (off div 256 + 32 * (n - 2)), Suc q := of_nat (off mod 256)]"
    have "emit_ref out (int q) (of_nat off) (int n - 2) = Inr (?out, int (Suc (Suc q)))"
      unfolding emit_ref_def if_P [OF c] hi lo using assms(1) by (simp add: suc del: of_nat_Suc)
    moreover have "take (Suc (Suc q)) ?out = take q out @ [of_nat (off div 256 + 32 * (n - 2)), of_nat (off mod 256)]"
      using assms(1) by (simp add: take_Suc_wr)
    ultimately show ?thesis using True by simp
  next
    case False
    have hi: "ucast (drop_bit 8 (of_nat off :: u64)) + of_int (push_bit 5 7) = (of_nat (off div 256 + 224) :: byte)"
      unfolding off_high [OF assms(2)] by (simp add: push_bit_eq_mult)
    have e: "int n - 2 - 7 = int (n - 9)" using False by simp
    have len: "of_int (int n - 2 - 7) = (of_nat (n - 9) :: byte)" unfolding e by (rule of_int_of_nat_eq)
    have c: "\<not> int n - 2 < 7" using False by simp
    let ?out = "out[q := of_nat (off div 256 + 224), Suc q := of_nat (n - 9), Suc (Suc q) := of_nat (off mod 256)]"
    have "emit_ref out (int q) (of_nat off) (int n - 2) = Inr (?out, int (Suc (Suc (Suc q))))"
      unfolding emit_ref_def if_not_P [OF c] hi lo len using assms(1) by (simp add: suc del: of_nat_Suc)
    moreover have "take (Suc (Suc (Suc q))) ?out = take q out @ [of_nat (off div 256 + 224), of_nat (n - 9), of_nat (off mod 256)]"
      using assms(1) by (simp add: take_Suc_wr)
    ultimately show ?thesis using False by simp
  qed
qed

text \<open>
  The invariant of the compressor after \<open>i\<close> input bytes: the first \<open>p\<close> output bytes are tokens
  for all but the last \<open>l\<close> of them, those lie behind the free byte at \<open>p\<close>, and the output is
  longer than what it stands for by at most one byte in 32.
\<close>

definition lz_inv :: "byte list \<Rightarrow> byte list \<Rightarrow> lz_token list \<Rightarrow> nat \<Rightarrow> nat \<Rightarrow> nat \<Rightarrow> bool" where
  "lz_inv inp out ts p l i \<longleftrightarrow>
     l \<le> 32 \<and> l \<le> i \<and> i \<le> length inp \<and> p + l \<le> length out \<and> 32 * p \<le> 33 * (i - l) \<and>
     toks_run [] ts = Some (take (i - l) inp) \<and> take p out = concat (map tok_bytes ts) \<and>
     take l (drop (p + 1) out) = take l (drop (i - l) inp)"

definition comp_inv :: "byte list \<Rightarrow> lzf_state \<Rightarrow> lz_token list \<Rightarrow> nat \<Rightarrow> nat \<Rightarrow> nat \<Rightarrow> bool" where
  "comp_inv inp s ts p l i \<longleftrightarrow>
     c_ip s = int i \<and> c_lit s = int l \<and> c_op s = int (p + l + 1) \<and> l < 32 \<and> lz_inv inp (c_out s) ts p l i"

lemma ref_copy_match:
  "off < i \<Longrightarrow> i + n \<le> length inp \<Longrightarrow> \<forall>k < n. inp ! (i - off - 1 + k) = inp ! (i + k) \<Longrightarrow>
     ref_copy (take i inp) off n = take (i + n) inp"
proof (induction n arbitrary: i)
  case (Suc n)
  have "take i inp ! (length (take i inp) - off - 1) = inp ! i" using Suc.prems(1,2) Suc.prems(3) [rule_format, of 0] by simp
  then have "take i inp @ [take i inp ! (length (take i inp) - off - 1)] = take (Suc i) inp"
    using Suc.prems(2) by (simp add: take_Suc_conv_app_nth)
  moreover have "\<forall>k < n. inp ! (Suc i - off - 1 + k) = inp ! (Suc i + k)"
  proof (intro allI impI)
    fix k assume "k < n"
    with Suc.prems(3) [rule_format, of "Suc k"] have "inp ! (i - off - 1 + Suc k) = inp ! (i + Suc k)" by simp
    moreover have "Suc i - off - 1 + k = i - off - 1 + Suc k" using Suc.prems(1) by simp
    ultimately show "inp ! (Suc i - off - 1 + k) = inp ! (Suc i + k)" by simp
  qed
  ultimately show ?case using Suc.IH [of "Suc i"] Suc.prems(1,2) by simp
qed simp

lemma take_split: "l \<le> i \<Longrightarrow> take (i - l) xs @ take l (drop (i - l) xs) = take i xs"
  using take_add [of "i - l" l xs] by simp

lemma stop_run_ok:
  assumes inv: "lz_inv inp out ts p l i" and p: "p < length out"
  defines "q \<equiv> if l = 0 then p else p + l + 1"
  shows "\<exists>out' ts'. stop_run out (int (p + l + 1)) (int l) = Inr out' \<and> length out' = length out \<and> q \<le> length out \<and>
    int (p + l + 1) - not_lit (int l) = int q \<and> toks_run [] ts' = Some (take i inp) \<and> take q out' = concat (map tok_bytes ts')"
proof -
  let ?bs = "take l (drop (i - l) inp)"
  have run: "stop_run out (int (p + l + 1)) (int l) = Inr (out[p := of_int (int l - 1)])"
    using p by (simp add: stop_run_def wr_def)
  have len: "length ?bs = l" and i: "i \<le> length inp" "l \<le> i" "l \<le> 32" using inv by (auto simp: lz_inv_def)
  show ?thesis
  proof (cases "l = 0")
    case True
    with inv p run show ?thesis by (auto simp: q_def lz_inv_def not_lit_def)
  next
    case False
    have lits: "take l (drop (p + 1) out) = ?bs" using inv by (simp add: lz_inv_def)
    have "length (take l (drop (p + 1) out)) = l" unfolding lits by (rule len)
    then have room: "p + l + 1 \<le> length out" using False by simp
    have "take (p + l + 1) (out[p := of_int (int l - 1)]) = take p out @ of_int (int l - 1) # take l (drop (p + 1) out)"
      using p by (simp add: upd_conv_take_nth_drop take_Cons')
    moreover have "of_int (int l - 1) = (of_nat (l - 1) :: byte)" using False by simp
    ultimately have enc: "take (p + l + 1) (out[p := of_int (int l - 1)]) = concat (map tok_bytes (ts @ [Lit ?bs]))"
      using inv lits len by (simp add: lz_inv_def)
    have "toks_run [] (ts @ [Lit ?bs]) = Some (tok_run (take (i - l) inp) (Lit ?bs))"
      using inv len False i by (intro toks_run_snoc) (simp_all add: lz_inv_def)
    then have "toks_run [] (ts @ [Lit ?bs]) = Some (take i inp)" using take_split [OF i(2), of inp] by simp
    with False run room enc show ?thesis
      by (intro exI [of _ "out[p := of_int (int l - 1)]"] exI [of _ "ts @ [Lit ?bs]"]) (simp add: q_def not_lit_def)
  qed
qed

lemma literal_ok:
  assumes inv: "comp_inv inp s ts p l i" and i: "i < length inp" and room: "p + l + 1 < length (c_out s)"
  shows "\<exists>s' ts' p' l'. lzf_literal inp s = Inr s' \<and> comp_inv inp s' ts' p' l' (i + 1) \<and> length (c_out s') = length (c_out s) \<and>
    (if l = 31 then p' = 33 + p \<and> l' = 0 else p' = p \<and> l' = l + 1)"
proof -
  let ?out = "(c_out s)[p + l + 1 := inp ! i]"
  have lz: "lz_inv inp (c_out s) ts p l i" "l < 32" and f: "c_ip s = int i" "c_lit s = int l" "c_op s = int (p + l + 1)"
    using inv by (auto simp: comp_inv_def)
  then have "take l (drop (p + 1) (c_out s)) = take l (drop (i - l) inp)" "l \<le> i" by (auto simp: lz_inv_def)
  then have "take (Suc l) (drop (p + 1) ?out) = take (Suc l) (drop (i - l) inp)"
    using room i by (simp add: take_Suc_conv_app_nth drop_update_swap)
  then have run: "take (l + 1) (drop (p + 1) ?out) = take (l + 1) (drop (i + 1 - (l + 1)) inp)" by simp
  have step: "rd inp (c_ip s) = Inr (inp ! i)" "wr (c_out s) (c_op s) b = Inr ((c_out s)[p + l + 1 := b])" for b
    unfolding f using i room by (intro rd_nth wr_nth; simp)+
  define s1 where "s1 = s\<lparr>c_lit := c_lit s + 1, c_op := c_op s + 1, c_ip := c_ip s + 1, c_out := ?out\<rparr>"
  have lit: "lzf_literal inp s = (if c_lit s1 = MAX_LIT then
      c_bind (stop_run (c_out s1) (c_op s1) (c_lit s1)) (\<lambda>out. Inr (s1\<lparr>c_out := out, c_lit := 0, c_op := c_op s1 + 1\<rparr>)) else Inr s1)"
    unfolding lzf_literal_def step c_bind_simps Let_def s1_def ..
  have f1: "c_ip s1 = int (i + 1)" "c_lit s1 = int (l + 1)" "c_op s1 = int (p + (l + 1) + 1)" "c_out s1 = ?out" by (simp_all add: s1_def f)
  have inv1: "lz_inv inp ?out ts p (l + 1) (i + 1)" using lz run i room by (auto simp: lz_inv_def)
  show ?thesis
  proof (cases "l = 31")
    case False
    with lz(2) inv1 f1 lit show ?thesis by (intro exI [of _ s1] exI [of _ ts] exI [of _ p] exI [of _ "l + 1"]) (simp add: comp_inv_def)
  next
    case True
    then obtain out' ts' where stop: "stop_run ?out (int (p + (l + 1) + 1)) (int (l + 1)) = Inr out'" "length out' = length ?out"
      "33 + p \<le> length ?out" "toks_run [] ts' = Some (take (i + 1) inp)" "take (33 + p) out' = concat (map tok_bytes ts')"
      using stop_run_ok [OF inv1] room by auto
    then have "lz_inv inp out' ts' (33 + p) 0 (i + 1)" using inv1 True by (auto simp: lz_inv_def)
    with True stop f1 lit show ?thesis
      by (intro exI [of _ "s1\<lparr>c_out := out', c_lit := 0, c_op := c_op s1 + 1\<rparr>"] exI [of _ ts'] exI [of _ "33 + p"] exI [of _ 0])
        (simp add: comp_inv_def)
  qed
qed

lemma lz_inv_bound: "lz_inv inp out ts p l i \<Longrightarrow> p + l \<le> i + i div 32"
proof -
  assume "lz_inv inp out ts p l i"
  then have "32 * p \<le> 33 * (i - l)" "l \<le> i" by (auto simp: lz_inv_def)
  moreover have "i = 32 * (i div 32) + i mod 32" "i mod 32 < 32" by auto
  ultimately show ?thesis by linarith
qed

definition cflow_ok :: "byte list \<Rightarrow> nat \<Rightarrow> lzf_cflow \<Rightarrow> bool" where
  "cflow_ok inp n f = (case f of
     CReturn out \<Rightarrow> length out = n \<and> n < length inp + length inp div 32 + 4
   | CBreak s \<Rightarrow> length (c_out s) = n \<and> (\<exists>ts p l i. comp_inv inp s ts p l i \<and> length inp \<le> i + 2)
   | CNext s \<Rightarrow> length (c_out s) = n \<and> (\<exists>ts p l i. comp_inv inp s ts p l i))"

lemma match_written:
  assumes inv: "lz_inv inp out ts p l i" and q: "q = (if l = 0 then p else p + l + 1)" "q + 4 < length out"
    and off: "off < 8192" "off < i" and n: "3 \<le> n" "n \<le> 264" "i + n \<le> length inp"
    and eq: "\<forall>k < n. inp ! (i - off - 1 + k) = inp ! (i + k)"
  shows "\<exists>out1 out2 ts' p'. stop_run out (int (p + l + 1)) (int l) = Inr out1 \<and> int (p + l + 1) - not_lit (int l) = int q \<and>
    emit_ref out1 (int q) (of_nat off) (int n - 2) = Inr (out2, int p') \<and> length out2 = length out \<and> lz_inv inp out2 ts' p' 0 (i + n)"
proof -
  let ?t = "Ref off n"
  have "p < length out" using q by (auto split: if_splits)
  from stop_run_ok [OF inv this, folded q(1)] obtain out1 ts1 where stop: "stop_run out (int (p + l + 1)) (int l) = Inr out1" "length out1 = length out"
    "int (p + l + 1) - not_lit (int l) = int q" "toks_run [] ts1 = Some (take i inp)" "take q out1 = concat (map tok_bytes ts1)"
    by blast
  from emit_ref_ok [OF _ off(1) n(1,2), of q out1] q(2) stop(2) obtain out2 where emit:
    "emit_ref out1 (int q) (of_nat off) (int n - 2) = Inr (out2, int (q + length (tok_bytes ?t)))"
    "length out2 = length out" "take (q + length (tok_bytes ?t)) out2 = take q out1 @ tok_bytes ?t" by auto
  have "length (take i inp) = i" using n(3) by simp
  then have "toks_run [] (ts1 @ [?t]) = Some (tok_run (take i inp) ?t)"
    using off n by (intro toks_run_snoc [OF stop(4)]) simp
  then have run: "toks_run [] (ts1 @ [?t]) = Some (take (i + n) inp)" using ref_copy_match [OF off(2) n(3) eq] by simp
  have "32 * p \<le> 33 * (i - l)" "l \<le> i" using inv by (auto simp: lz_inv_def)
  then have "32 * (q + length (tok_bytes ?t)) \<le> 33 * (i + n)" using q(1) n(1) by (auto split: if_splits)
  moreover have "q + length (tok_bytes ?t) \<le> length out" using q(2) by auto
  ultimately have "lz_inv inp out2 (ts1 @ [?t]) (q + length (tok_bytes ?t)) 0 (i + n)"
    using run emit(2,3) stop(5) n(3) unfolding lz_inv_def by simp
  with stop emit show ?thesis by blast
qed

lemma found_ok:
  assumes inv: "comp_inv inp s ts p l i" and i: "i + 2 < length inp"
    and off: "base + of_int (int i) - ref - 1 = of_nat off" "off < 8192" "off + 1 < i" "in_offset base ref = int (i - off - 1)"
    and eq: "\<forall>k < 3. inp ! (i - off - 1 + k) = inp ! (i + k)"
  shows "\<exists>f. lzf_found base inp ref s = Inr f \<and> cflow_ok inp (length (c_out s)) f"
proof -
  define q where "q = (if l = 0 then p else p + l + 1)"
  have lz: "lz_inv inp (c_out s) ts p l i" and f: "c_ip s = int i" "c_lit s = int l" "c_op s = int (p + l + 1)"
    using inv by (auto simp: comp_inv_def)
  have nl: "int (p + l + 1) - not_lit (int l) = int q" by (simp add: q_def not_lit_def)
  define full where "full \<longleftrightarrow> int (p + l + 1) + 3 + 1 \<ge> int (length (c_out s)) \<and> int q + 3 + 1 \<ge> int (length (c_out s))"
  note found = lzf_found_def [of base inp ref s] f off(1,4) Let_def nl full_def [symmetric]
  show ?thesis
  proof (cases full)
    case True
    then have "length (c_out s) \<le> p + l + 5" by (simp add: full_def)
    moreover have "i div 32 \<le> length inp div 32" using i by (simp add: div_le_mono)
    ultimately have "length (c_out s) < length inp + length inp div 32 + 4" using lz_inv_bound [OF lz] i by linarith
    with True show ?thesis unfolding found by (simp add: cflow_ok_def)
  next
    case False
    then have room: "q + 4 < length (c_out s)" by (auto simp: full_def q_def split: if_splits)
    obtain n where n: "match_len inp (int (i - off - 1)) (int i) (min MAX_REF (int (length inp) - int i - 2)) = Inr (int n)"
      "3 \<le> n" "n \<le> 264" "i + n \<le> length inp" "\<forall>k < n. inp ! (i - off - 1 + k) = inp ! (i + k)"
      using match_len_ok [OF _ i eq] off(3) by auto
    obtain out1 out2 ts' p' where w: "stop_run (c_out s) (int (p + l + 1)) (int l) = Inr out1"
      "emit_ref out1 (int q) (of_nat off) (int n - 2) = Inr (out2, int p')" "length out2 = length (c_out s)" "lz_inv inp out2 ts' p' 0 (i + n)"
      using match_written [OF lz q_def room off(2) _ n(2-5)] off(3) by auto
    define s' where "s' = s\<lparr>c_ip := int i + 1 + (int n - 2 + 1), c_op := int p' + 1, c_lit := 0, c_out := out2\<rparr>"
    have ip: "c_ip s' = int (i + n)" by (simp add: s'_def)
    have inv': "comp_inv inp (s'\<lparr>c_htab := ht, c_hval := h\<rparr>) ts' p' 0 (i + n)" "comp_inv inp s' ts' p' 0 (i + n)" for ht h
      using w by (auto simp: comp_inv_def s'_def)
    have "lzf_found base inp ref s = (if c_ip s' \<ge> int (length inp) - 2 then Inr (CBreak s')
        else c_bind (rehash2 base inp (c_htab s') (c_ip s')) (\<lambda>(ht, h). Inr (CNext (s'\<lparr>c_htab := ht, c_hval := h\<rparr>))))"
      unfolding found if_not_P [OF False] w(1) c_bind_simps n(1) w(2) prod.case s'_def ..
    moreover have "\<exists>ht' h. rehash2 base inp (c_htab s') (c_ip s') = Inr (ht', h)" if "\<not> c_ip s' \<ge> int (length inp) - 2"
      using that n(2) by (intro rehash2_ok) (auto simp: ip)
    ultimately show ?thesis using inv' w(3) ip
      by (cases "c_ip s' \<ge> int (length inp) - 2") (fastforce simp: cflow_ok_def s'_def)+
  qed
qed

lemma comp_step_ok:
  assumes "8192 \<le> uint base" and "uint base + int (length inp) < 2 ^ 64"
    and inv: "comp_inv inp s ts p l i" and i: "i + 2 < length inp"
  shows "\<exists>f. lzf_comp_step base inp s = Inr f \<and> cflow_ok inp (length (c_out s)) f"
proof -
  have f: "c_ip s = int i" "c_op s = int (p + l + 1)" and lz: "lz_inv inp (c_out s) ts p l i" using inv by (auto simp: comp_inv_def)
  obtain h where h: "NEXT (c_hval s) inp (int i) = Inr h" using NEXT_ok [of "int i" inp "c_hval s"] i by auto
  define s1 where "s1 = s\<lparr>c_hval := h, c_htab := (c_htab s)(IDX h := base + of_int (int i))\<rparr>"
  have s1: "comp_inv inp s1 ts p l i" "c_out s1 = c_out s" "c_ip s1 = int i" "c_op s1 = int (p + l + 1)"
    using inv by (simp_all add: s1_def comp_inv_def)
  define ref where "ref = c_htab s (IDX h)"
  obtain b where b: "lzf_match base inp ref (int i) = Inr b" and found: "b \<Longrightarrow> \<exists>f. lzf_found base inp ref s1 = Inr f \<and> cflow_ok inp (length (c_out s)) f"
    using match_ok [OF assms(1,2) i, of ref] found_ok [OF s1(1) i, of base ref] s1(2) by metis
  have step: "lzf_comp_step base inp s = (if b then lzf_found base inp ref s1
      else if int (p + l + 1) \<ge> int (length (c_out s)) then Inr (CReturn (c_out s)) else c_bind (lzf_literal inp s1) (\<lambda>s. Inr (CNext s)))"
    unfolding lzf_comp_step_def f h c_bind_simps ht_ok Let_def s1_def [symmetric] ref_def [symmetric] s1(2-4) b ..
  consider b | "\<not> b" "length (c_out s) \<le> p + l + 1" | "\<not> b" "p + l + 1 < length (c_out s)" by linarith
  then show ?thesis
  proof cases
    case 1
    with found step show ?thesis by simp
  next
    case 2
    have "i div 32 \<le> length inp div 32" using i by (simp add: div_le_mono)
    with 2 lz_inv_bound [OF lz] i have "length (c_out s) < length inp + length inp div 32 + 4" by linarith
    with 2 step show ?thesis by (simp add: cflow_ok_def)
  next
    case 3
    with literal_ok [OF s1(1)] i s1(2) obtain s' ts' p' l' where "lzf_literal inp s1 = Inr s'" "comp_inv inp s' ts' p' l' (i + 1)" "length (c_out s') = length (c_out s)"
      by fastforce
    with 3 step show ?thesis by (auto simp: cflow_ok_def)
  qed
qed

lemma comp_loop_ok:
  assumes "8192 \<le> uint base" and "uint base + int (length inp) < 2 ^ 64"
  shows "comp_inv inp s ts p l i \<Longrightarrow> \<exists>r. lzf_comp_loop base inp s = Inr r \<and>
    (case r of Inl out \<Rightarrow> cflow_ok inp (length (c_out s)) (CReturn out) | Inr s' \<Rightarrow> cflow_ok inp (length (c_out s)) (CBreak s'))"
  using assms
proof (induction base inp s arbitrary: ts p l i rule: lzf_comp_loop.induct)
  case (1 base inp s)
  have ip: "c_ip s = int i" using "1.prems"(1) by (simp add: comp_inv_def)
  show ?case
  proof (cases "c_ip s < int (length inp) - 2")
    case True
    then obtain f where f: "lzf_comp_step base inp s = Inr f" "cflow_ok inp (length (c_out s)) f"
      using comp_step_ok [OF "1.prems"(2,3,1)] ip by auto
    show ?thesis
    proof (cases f)
      case (CNext s')
      with f(2) obtain ts' p' l' i' where "comp_inv inp s' ts' p' l' i'" and len: "length (c_out s') = length (c_out s)"
        by (auto simp: cflow_ok_def)
      from "1.IH" [OF True f(1) CNext this(1) "1.prems"(2,3)] show ?thesis
        using True f(1) CNext unfolding len by (subst lzf_comp_loop.simps) simp
    qed (use True f in \<open>subst lzf_comp_loop.simps, simp\<close>)+
  next
    case False
    then have "lzf_comp_loop base inp s = Inr (Inr s)" by (subst lzf_comp_loop.simps) simp
    moreover have "length inp \<le> i + 2" using False ip by simp
    ultimately show ?thesis using "1.prems"(1) by (auto simp: cflow_ok_def)
  qed
qed

lemma tail_step:
  assumes "comp_inv inp s ts p l i" and "i < length inp" and "p + l + 1 < length (c_out s)"
  shows "\<exists>s' ts' p' l'. lzf_tail_loop inp s = lzf_tail_loop inp s' \<and> comp_inv inp s' ts' p' l' (i + 1) \<and> length (c_out s') = length (c_out s) \<and>
    (if l = 31 then p' = 33 + p \<and> l' = 0 else p' = p \<and> l' = l + 1)"
proof -
  obtain s' ts' p' l' where lit: "lzf_literal inp s = Inr s'" "comp_inv inp s' ts' p' l' (i + 1)" "length (c_out s') = length (c_out s)"
    "if l = 31 then p' = 33 + p \<and> l' = 0 else p' = p \<and> l' = l + 1"
    using literal_ok [OF assms] by auto
  have "c_ip s < int (length inp)" using assms(1,2) by (simp add: comp_inv_def)
  with lit(1) have "lzf_tail_loop inp s = lzf_tail_loop inp s'" by (subst lzf_tail_loop.simps) simp
  with lit show ?thesis by blast
qed

lemma tail_done: "comp_inv inp s ts p l (length inp) \<Longrightarrow> lzf_tail_loop inp s = Inr s"
  by (subst lzf_tail_loop.simps) (simp add: comp_inv_def)

text \<open>At most three bytes are missing after the main loop: two literals and the head of a new run.\<close>

lemma tail_loop_ok:
  assumes inv: "comp_inv inp s ts p l i" and i: "length inp \<le> i + 2" and room: "p + l + 4 \<le> length (c_out s)"
  shows "\<exists>s' ts' p' l'. lzf_tail_loop inp s = Inr s' \<and> comp_inv inp s' ts' p' l' (length inp) \<and> p' < length (c_out s') \<and>
    length (c_out s') = length (c_out s)"
proof -
  have le: "i \<le> length inp" and l: "l < 32" using inv by (auto simp: comp_inv_def lz_inv_def)
  with i consider "length inp = i" | "length inp = i + 1" | "length inp = i + 1 + 1" by linarith
  then show ?thesis
  proof cases
    case 1
    with inv room tail_done [of inp s ts p l] show ?thesis by (intro exI [of _ s] exI [of _ ts] exI [of _ p] exI [of _ l]) simp
  next
    case 2
    then obtain s1 ts1 p1 l1 where "lzf_tail_loop inp s = lzf_tail_loop inp s1" "comp_inv inp s1 ts1 p1 l1 (i + 1)"
      "length (c_out s1) = length (c_out s)" "if l = 31 then p1 = 33 + p \<and> l1 = 0 else p1 = p \<and> l1 = l + 1"
      using tail_step [OF inv] room by auto
    with 2 room tail_done [of inp s1 ts1 p1 l1] show ?thesis
      by (intro exI [of _ s1] exI [of _ ts1] exI [of _ p1] exI [of _ l1]) (auto split: if_splits)
  next
    case 3
    then obtain s1 ts1 p1 l1 where 1: "lzf_tail_loop inp s = lzf_tail_loop inp s1" "comp_inv inp s1 ts1 p1 l1 (i + 1)"
      "length (c_out s1) = length (c_out s)" "if l = 31 then p1 = 33 + p \<and> l1 = 0 else p1 = p \<and> l1 = l + 1"
      using tail_step [OF inv] room by auto
    have r1: "p1 + l1 + 1 < length (c_out s1)" using 1(3,4) room by (auto split: if_splits)
    from 3 tail_step [OF 1(2) _ r1] obtain s2 ts2 p2 l2 where 2: "lzf_tail_loop inp s1 = lzf_tail_loop inp s2" "comp_inv inp s2 ts2 p2 l2 (length inp)"
      "length (c_out s2) = length (c_out s1)" "if l1 = 31 then p2 = 33 + p1 \<and> l2 = 0 else p2 = p1 \<and> l2 = l1 + 1" by auto
    have "p2 < length (c_out s2)" using 1(3,4) 2(3,4) room by (auto split: if_splits)
    with 1 2 tail_done [OF 2(2)] show ?thesis by auto
  qed
qed

lemma finish_ok:
  assumes inv: "comp_inv inp s ts p l i" and i: "length inp \<le> i + 2" and ne: "inp \<noteq> []"
  shows "\<exists>n out'. lzf_finish inp s = Inr (n, out') \<and> length out' = length (c_out s) \<and> n \<le> length out' \<and>
    (n = 0 \<and> length out' < length inp + length inp div 32 + 4 \<or>
     0 < n \<and> (\<exists>ts. toks_run [] ts = Some inp \<and> take n out' = concat (map tok_bytes ts)))"
proof (cases "c_op s + 3 > int (length (c_out s))")
  case True
  have lz: "lz_inv inp (c_out s) ts p l i" and "c_op s = int (p + l + 1)" using inv by (auto simp: comp_inv_def)
  moreover from lz have "i \<le> length inp" by (simp add: lz_inv_def)
  then have "i div 32 \<le> length inp div 32" by (rule div_le_mono)
  ultimately have "length (c_out s) < length inp + length inp div 32 + 4"
    using True lz_inv_bound [OF lz] \<open>i \<le> length inp\<close> by linarith
  with True show ?thesis by (simp add: lzf_finish_def)
next
  case False
  then have "p + l + 4 \<le> length (c_out s)" using inv by (simp add: comp_inv_def)
  from tail_loop_ok [OF inv i this] obtain s' ts' p' l' where t: "lzf_tail_loop inp s = Inr s'" "comp_inv inp s' ts' p' l' (length inp)"
    "p' < length (c_out s')" "length (c_out s') = length (c_out s)" by blast
  define q where "q = (if l' = 0 then p' else p' + l' + 1)"
  from t(2) have lz: "lz_inv inp (c_out s') ts' p' l' (length inp)" and f: "c_op s' = int (p' + l' + 1)" "c_lit s' = int l'" by (auto simp: comp_inv_def)
  from stop_run_ok [OF lz t(3), folded q_def] obtain out' ts2 where stop: "stop_run (c_out s') (int (p' + l' + 1)) (int l') = Inr out'"
    "length out' = length (c_out s')" "q \<le> length (c_out s')" "int (p' + l' + 1) - not_lit (int l') = int q"
    "toks_run [] ts2 = Some inp" "take q out' = concat (map tok_bytes ts2)" by auto
  have "ts2 \<noteq> []" using stop(5) ne by auto
  moreover have "tok_bytes t \<noteq> []" for t by (cases t) auto
  ultimately have "concat (map tok_bytes ts2) \<noteq> []" by (cases ts2) auto
  then have "0 < q" using stop(6) by (cases q) auto
  moreover have "lzf_finish inp s = Inr (q, out')"
    unfolding lzf_finish_def if_not_P [OF False] t(1) c_bind_simps f stop(1,4) by simp
  ultimately show ?thesis using stop t(4) by auto
qed

lemma compress_ok:
  assumes "8192 \<le> uint base" and "uint base + int (length inp) < 2 ^ 64" and "2 \<le> length inp" and "out \<noteq> []"
  shows "\<exists>n out'. lzf_compress base htab inp out = Inr (n, out') \<and> length out' = length out \<and> n \<le> length out' \<and>
    (n = 0 \<and> length out' < length inp + length inp div 32 + 4 \<or>
     0 < n \<and> (\<exists>ts. toks_run [] ts = Some inp \<and> take n out' = concat (map tok_bytes ts)))"
proof -
  obtain h where h: "FRST inp 0 = Inr h" using FRST_ok [of 0 inp] assms(3) by auto
  define s where "s = \<lparr>c_ip = 0, c_op = 1, c_lit = 0, c_hval = h, c_htab = htab, c_out = out\<rparr>"
  have inv: "comp_inv inp s [] 0 0 0" by (simp add: comp_inv_def lz_inv_def s_def)
  have ne: "\<not> (inp = [] \<or> out = [])" "inp \<noteq> []" using assms(3,4) by auto
  note c = lzf_compress_def [of base htab inp out] if_not_P [OF ne(1)] h c_bind_simps s_def [symmetric]
  from comp_loop_ok [OF assms(1,2) inv] obtain r where r: "lzf_comp_loop base inp s = Inr r"
    "case r of Inl out \<Rightarrow> cflow_ok inp (length (c_out s)) (CReturn out) | Inr s' \<Rightarrow> cflow_ok inp (length (c_out s)) (CBreak s')" by blast
  have len: "length (c_out s) = length out" by (simp add: s_def)
  show ?thesis
  proof (cases r)
    case (Inl out')
    with r len show ?thesis unfolding c r(1) by (simp add: cflow_ok_def)
  next
    case (Inr s')
    with r(2) len obtain ts p l i where "comp_inv inp s' ts p l i" "length inp \<le> i + 2" "length (c_out s') = length out" by (auto simp: cflow_ok_def)
    with finish_ok [OF this(1,2) ne(2)] Inr show ?thesis unfolding c r(1) by simp
  qed
qed

text \<open>A single byte is too little: the first hash reads the byte after it.\<close>

lemma compress_one_byte: "out \<noteq> [] \<Longrightarrow> lzf_compress base htab [b] out = Inl OutOfBounds"
  by (simp add: lzf_compress_def FRST_def rd_def)

section \<open>Properties\<close>

text \<open>
  C37. Whatever the stack garbage in the hash table, \<^verbatim>\<open>lzf_compress\<close> stays inside its buffers on an
  input of at least two bytes, and when it does not give up, \<^verbatim>\<open>lzf_decompress\<close> restores the input in every
  buffer that can hold it and reports \<^verbatim>\<open>E2BIG\<close> in every other.  It gives up only when the output buffer
  is smaller than the input, one byte for every 32, and four more.
\<close>

theorem lzf_roundtrip:
  assumes "8192 \<le> uint base" and "uint base + int (length inp) < 2 ^ 64" and "2 \<le> length inp"
  shows "\<exists>n out'. lzf_compress base htab inp out = Inr (n, out') \<and> length out' = length out \<and> n \<le> length out \<and>
    (if n = 0 then length out < length inp + length inp div 32 + 4
     else \<forall>buf. \<exists>buf'. lzf_decompress (take n out') buf =
       Inr (if length inp \<le> length buf then (length inp, None, inp @ drop (length inp) buf) else (0, Some E2BIG, buf')))"
proof (cases "out = []")
  case True
  with assms(3) show ?thesis by (auto simp: lzf_compress_def)
next
  case False
  from compress_ok [OF assms False, of htab] obtain n out' where c: "lzf_compress base htab inp out = Inr (n, out')" "length out' = length out" "n \<le> length out'"
    "n = 0 \<and> length out' < length inp + length inp div 32 + 4 \<or> 0 < n \<and> (\<exists>ts. toks_run [] ts = Some inp \<and> take n out' = concat (map tok_bytes ts))"
    by blast
  have "\<exists>buf'. lzf_decompress (take n out') buf =
      Inr (if length inp \<le> length buf then (length inp, None, inp @ drop (length inp) buf) else (0, Some E2BIG, buf'))" if "n \<noteq> 0" for buf
    using c(4) that dec_loop_toks [of 0 "take n out'" _ "[]" inp buf] by (auto simp: lzf_decompress_def)
  with c show ?thesis by auto
qed

definition ex_plain :: "byte list" where "ex_plain = [97, 98, 97, 98, 97, 98, 97, 98, 97, 98, 97, 98]"

theorem lzf_roundtrip_witness:
  "\<exists>n out'. lzf_compress 65536 (\<lambda>k. of_nat k * 3) ex_plain (replicate 20 0) = Inr (n, out') \<and> n \<noteq> 0 \<and>
    lzf_decompress (take n out') (replicate 12 0) = Inr (12, None, ex_plain)"
proof -
  let ?base = "65536 :: u64"
  have h: "8192 \<le> uint ?base" "uint ?base + int (length ex_plain) < 2 ^ 64" "2 \<le> length ex_plain" by (simp_all add: ex_plain_def)
  have n: "length ex_plain = 12" by (simp add: ex_plain_def)
  from lzf_roundtrip [OF h, of "\<lambda>k. of_nat k * 3" "replicate 20 0"] obtain m out' where
    m: "lzf_compress 65536 (\<lambda>k. of_nat k * 3) ex_plain (replicate 20 0) = Inr (m, out')"
    "if m = 0 then length (replicate 20 (0 :: byte)) < length ex_plain + length ex_plain div 32 + 4
     else \<forall>buf. \<exists>buf'. lzf_decompress (take m out') buf =
       Inr (if length ex_plain \<le> length buf then (length ex_plain, None, ex_plain @ drop (length ex_plain) buf) else (0, Some E2BIG, buf'))"
    by blast
  then have "m \<noteq> 0" using n by (auto split: if_splits)
  moreover from this m(2) have "lzf_decompress (take m out') (replicate 12 0) = Inr (12, None, ex_plain)"
    using n by (auto dest: spec [of _ "replicate 12 0"])
  ultimately show ?thesis using m(1) by blast
qed

text \<open>
  C38. On any bytes at all and any output buffer, \<^verbatim>\<open>lzf_decompress\<close> ends, reads only its input,
  writes only inside the buffer and refers back only to bytes of the buffer; the number it
  returns fits, and is 0 whenever it sets \<^verbatim>\<open>errno\<close>.
\<close>

theorem lzf_decompress_safe:
  "\<exists>n err out'. lzf_decompress inp out = Inr (n, err, out') \<and> length out' = length out \<and> n \<le> length out \<and> (err = None \<or> n = 0)"
  using dec_loop_safe [of 0 0 out inp] by (simp add: lzf_decompress_def)

end
