(* ===== verification/Redis_Dict.thy ===== *)
theory Redis_Dict
  imports Redis_Mem
begin

text \<open>
  The hash tables of Redis (\<^verbatim>\<open>dict.c\<close>): two tables with chaining, incremental rehashing, the
  entries without a value and the bare keys that tagged pointers make possible, lookups,
  insertions, deletions and the two-phase unlink.  A chain of entries is the list
  of what its \<^verbatim>\<open>next\<close> pointers reach.  The type callbacks and the global
  \<^verbatim>\<open>dict_can_resize\<close> are arguments; the load factor that \<^verbatim>\<open>expandAllowed\<close> gets is the pair of its
  numerator and denominator.  Allocations succeed; entry metadata and the destructors, which release
  keys and values, are left out, and \<^verbatim>\<open>pauserehash\<close>, which the operations leave as they find it, does not wrap.
\<close>

section \<open>Entries\<close>

text \<open>
  What an entry pointer stands for, by its low bits: a full entry, an entry without a value, or the key itself.
\<close>

datatype ('k, 'v) dictEntry = Normal (entry_key: 'k) 'v | NoValue (entry_key: 'k) | KeyPtr (entry_key: 'k)

fun entryIsKey :: "('k, 'v) dictEntry \<Rightarrow> bool" where
  "entryIsKey (KeyPtr k) = True"
| "entryIsKey e = False"

fun entryIsNoValue :: "('k, 'v) dictEntry \<Rightarrow> bool" where
  "entryIsNoValue (NoValue k) = True"
| "entryIsNoValue e = False"

fun entryHasValue :: "('k, 'v) dictEntry \<Rightarrow> bool" where
  "entryHasValue (Normal k v) = True"
| "entryHasValue e = False"

fun entry_val :: "('k, 'v) dictEntry \<Rightarrow> 'v option" where
  "entry_val (Normal k v) = Some v"
| "entry_val e = None"

type_synonym ('k, 'v) chain = "('k, 'v) dictEntry list"

definition dictGetNext :: "('k, 'v) chain \<Rightarrow> ('k, 'v) chain" where
  "dictGetNext b = (case b of [] \<Rightarrow> [] | e # es \<Rightarrow> if entryIsKey e then [] else es)"

definition dictSetNext :: "('k, 'v) dictEntry \<Rightarrow> ('k, 'v) chain \<Rightarrow> ('k, 'v) chain c_result" where
  "dictSetNext e next = (if entryIsKey e then Inl AssertFail else Inr (e # next))"

section \<open>The dictionary\<close>

record ('k, 'v) dictType =
  hashFunction :: "'k \<Rightarrow> u64"
  keyDup :: "('k \<Rightarrow> 'k) option"
  valDup :: "('v \<Rightarrow> 'v) option"
  keyCompare :: "('k \<Rightarrow> 'k \<Rightarrow> bool) option"
  expandAllowed :: "(nat \<Rightarrow> nat \<times> nat \<Rightarrow> bool) option"
  no_value :: bool
  keys_are_odd :: bool
  key_lsb :: "'k \<Rightarrow> bool"

datatype dictResizeEnable = DICT_RESIZE_ENABLE | DICT_RESIZE_AVOID | DICT_RESIZE_FORBID

abbreviation dict_force_resize_ratio :: nat where "dict_force_resize_ratio \<equiv> 5"
abbreviation DICT_HT_INITIAL_EXP :: int where "DICT_HT_INITIAL_EXP \<equiv> 2"
abbreviation DICT_HT_INITIAL_SIZE :: nat where "DICT_HT_INITIAL_SIZE \<equiv> 4"
abbreviation LONG_MAX :: nat where "LONG_MAX \<equiv> 2 ^ 63 - 1"

definition DICTHT_SIZE :: "int \<Rightarrow> nat" where
  "DICTHT_SIZE e = (if e = - 1 then 0 else 2 ^ nat e)"

definition DICTHT_SIZE_MASK :: "int \<Rightarrow> nat" where
  "DICTHT_SIZE_MASK e = (if e = - 1 then 0 else DICTHT_SIZE e - 1)"

text \<open>The arrays of two elements are functions of the index 0 or 1; a null table is \<open>None\<close>.\<close>

record ('k, 'v) dict =
  ht_table :: "nat \<Rightarrow> ('k, 'v) chain list option"
  ht_used :: "nat \<Rightarrow> nat"
  ht_size_exp :: "nat \<Rightarrow> int"
  rehashidx :: int
  pauserehash :: int

definition dictIsRehashing :: "('k, 'v) dict \<Rightarrow> bool" where
  "dictIsRehashing d \<longleftrightarrow> rehashidx d \<noteq> - 1"

definition dictSize :: "('k, 'v) dict \<Rightarrow> nat" where
  "dictSize d = (ht_used d 0 + ht_used d 1) mod 2 ^ 64"

definition dictPauseRehashing :: "('k, 'v) dict \<Rightarrow> ('k, 'v) dict" where
  "dictPauseRehashing d = d\<lparr>pauserehash := pauserehash d + 1\<rparr>"

definition dictResumeRehashing :: "('k, 'v) dict \<Rightarrow> ('k, 'v) dict" where
  "dictResumeRehashing d = d\<lparr>pauserehash := pauserehash d - 1\<rparr>"

definition inc_used :: "nat \<Rightarrow> ('k, 'v) dict \<Rightarrow> ('k, 'v) dict" where
  "inc_used i d = d\<lparr>ht_used := (ht_used d)(i := (ht_used d i + 1) mod 2 ^ 64)\<rparr>"

definition dec_used :: "nat \<Rightarrow> ('k, 'v) dict \<Rightarrow> ('k, 'v) dict" where
  "dec_used i d = d\<lparr>ht_used := (ht_used d)(i := (ht_used d i + (2 ^ 64 - 1)) mod 2 ^ 64)\<rparr>"

text \<open>\<^verbatim>\<open>d->ht_table[i][idx]\<close>, read and assigned.\<close>

definition bucket :: "('k, 'v) dict \<Rightarrow> nat \<Rightarrow> int \<Rightarrow> ('k, 'v) chain c_result" where
  "bucket d i idx = (case ht_table d i of None \<Rightarrow> Inl NullDeref
     | Some bs \<Rightarrow> if 0 \<le> idx \<and> idx < int (length bs) then Inr (bs ! nat idx) else Inl OutOfBounds)"

definition set_bucket :: "('k, 'v) dict \<Rightarrow> nat \<Rightarrow> int \<Rightarrow> ('k, 'v) chain \<Rightarrow> ('k, 'v) dict c_result" where
  "set_bucket d i idx b = (case ht_table d i of None \<Rightarrow> Inl NullDeref
     | Some bs \<Rightarrow> if 0 \<le> idx \<and> idx < int (length bs) then Inr (d\<lparr>ht_table := (ht_table d)(i := Some (bs[nat idx := b]))\<rparr>)
                  else Inl OutOfBounds)"

text \<open>\<^verbatim>\<open>h & DICTHT_SIZE_MASK(d->ht_size_exp[i])\<close>.\<close>

definition slot :: "('k, 'v) dict \<Rightarrow> nat \<Rightarrow> u64 \<Rightarrow> int" where
  "slot d i h = uint (h AND of_nat (DICTHT_SIZE_MASK (ht_size_exp d i)))"

definition dictReset :: "nat \<Rightarrow> ('k, 'v) dict \<Rightarrow> ('k, 'v) dict" where
  "dictReset i d = d\<lparr>ht_table := (ht_table d)(i := None), ht_size_exp := (ht_size_exp d)(i := - 1), ht_used := (ht_used d)(i := 0)\<rparr>"

definition dictCreate :: "('k, 'v) dict" where
  "dictCreate = \<lparr>ht_table = (\<lambda>_. None), ht_used = (\<lambda>_. 0), ht_size_exp = (\<lambda>_. - 1), rehashidx = - 1, pauserehash = 0\<rparr>"

section \<open>Growing and shrinking\<close>

fun bit_length :: "nat \<Rightarrow> nat" where
  "bit_length n = (if n = 0 then 0 else Suc (bit_length (n div 2)))"

declare bit_length.simps [simp del]

text \<open>\<^verbatim>\<open>__builtin_clzl\<close> of a nonzero 64-bit integer.\<close>

definition clzl :: "nat \<Rightarrow> int" where
  "clzl n = 64 - int (bit_length n)"

definition dictNextExp :: "nat \<Rightarrow> int" where
  "dictNextExp sz =
    (if sz \<le> DICT_HT_INITIAL_SIZE then DICT_HT_INITIAL_EXP
     else if sz \<ge> LONG_MAX then 8 * 8 - 1
     else 8 * 8 - clzl (sz - 1))"

text \<open>The result of \<^verbatim>\<open>_dictExpand\<close>: the dictionary, and whether it is \<^verbatim>\<open>DICT_OK\<close>.\<close>

definition dictExpand :: "('k, 'v) dict \<Rightarrow> nat \<Rightarrow> ('k, 'v) dict \<times> bool" where
  "dictExpand d sz =
    (if dictIsRehashing d \<or> ht_used d 0 > sz then (d, False)
     else let new_exp = dictNextExp sz; newsize = (2 :: nat) ^ nat new_exp in
       if newsize < sz \<or> newsize * 8 mod 2 ^ 64 < newsize then (d, False)
       else if new_exp = ht_size_exp d 0 then (d, False)
       else let new_table = Some (replicate newsize []) in
         if ht_table d 0 = None then
           (d\<lparr>ht_size_exp := (ht_size_exp d)(0 := new_exp), ht_used := (ht_used d)(0 := 0), ht_table := (ht_table d)(0 := new_table)\<rparr>, True)
         else
           (d\<lparr>ht_size_exp := (ht_size_exp d)(1 := new_exp), ht_used := (ht_used d)(1 := 0), ht_table := (ht_table d)(1 := new_table),
              rehashidx := 0\<rparr>, True))"

definition dictResize :: "dictResizeEnable \<Rightarrow> ('k, 'v) dict \<Rightarrow> ('k, 'v) dict \<times> bool" where
  "dictResize can d =
    (if can \<noteq> DICT_RESIZE_ENABLE \<or> dictIsRehashing d then (d, False)
     else dictExpand d (if ht_used d 0 < DICT_HT_INITIAL_SIZE then DICT_HT_INITIAL_SIZE else ht_used d 0))"

definition dictTypeExpandAllowed :: "('k, 'v) dictType \<Rightarrow> ('k, 'v) dict \<Rightarrow> bool" where
  "dictTypeExpandAllowed t d = (case expandAllowed t of None \<Rightarrow> True
     | Some f \<Rightarrow> f (DICTHT_SIZE (dictNextExp (ht_used d 0 + 1)) * 8) (ht_used d 0, DICTHT_SIZE (ht_size_exp d 0)))"

definition dictExpandIfNeeded :: "('k, 'v) dictType \<Rightarrow> dictResizeEnable \<Rightarrow> ('k, 'v) dict \<Rightarrow> ('k, 'v) dict \<times> bool" where
  "dictExpandIfNeeded t can d =
    (if dictIsRehashing d then (d, True)
     else if DICTHT_SIZE (ht_size_exp d 0) = 0 then dictExpand d DICT_HT_INITIAL_SIZE
     else if can = DICT_RESIZE_ENABLE \<and> ht_used d 0 \<ge> DICTHT_SIZE (ht_size_exp d 0) \<or>
             can \<noteq> DICT_RESIZE_FORBID \<and> ht_used d 0 div DICTHT_SIZE (ht_size_exp d 0) > dict_force_resize_ratio
          then if \<not> dictTypeExpandAllowed t d then (d, True) else dictExpand d (ht_used d 0 + 1)
          else (d, True))"

section \<open>Incremental rehashing\<close>

text \<open>One turn of the inner loop: an entry of table 0 goes to the front of its chain in table 1.\<close>

definition move_entry :: "('k, 'v) dictType \<Rightarrow> ('k, 'v) dict \<Rightarrow> ('k, 'v) dictEntry \<Rightarrow> ('k, 'v) dict c_result" where
  "move_entry t d de =
    (let key = entry_key de;
         h = (if ht_size_exp d 1 > ht_size_exp d 0 then slot d 1 (hashFunction t key) else slot d 1 (of_int (rehashidx d))) in
     c_bind (bucket d 1 h) (\<lambda>dest.
     c_bind (if no_value t then
               if keys_are_odd t \<and> dest = [] then if key_lsb t key then Inr [KeyPtr key] else Inl AssertFail
               else if entryIsKey de then Inr (NoValue key # dest)
               else if entryIsNoValue de then dictSetNext de dest
               else Inl AssertFail
             else dictSetNext de dest) (\<lambda>b.
     c_bind (set_bucket d 1 h b) (\<lambda>d. Inr (inc_used 1 (dec_used 0 d))))))"

function move_chain :: "('k, 'v) dictType \<Rightarrow> ('k, 'v) dict \<Rightarrow> ('k, 'v) chain \<Rightarrow> ('k, 'v) dict c_result" where
  "move_chain t d [] = Inr d"
| "move_chain t d (de # es) = c_bind (move_entry t d de) (\<lambda>d. move_chain t d (dictGetNext (de # es)))"
  by pat_completeness auto
termination by (relation "measure (\<lambda>(t, d, b). length b)") (auto simp: dictGetNext_def)

text \<open>The loop over empty buckets: the dictionary, \<^verbatim>\<open>empty_visits\<close>, and whether the visits ran out.\<close>

function skip_empty :: "('k, 'v) dict \<Rightarrow> int \<Rightarrow> (('k, 'v) dict \<times> int \<times> bool) c_result" where
  "skip_empty d visits =
    (case bucket d 0 (rehashidx d) of
       Inl e \<Rightarrow> Inl e
     | Inr b \<Rightarrow> if b = [] then
         let d' = d\<lparr>rehashidx := rehashidx d + 1\<rparr> in
         if visits - 1 = 0 then Inr (d', visits - 1, True) else skip_empty d' (visits - 1)
       else Inr (d, visits, False))"
  by pat_completeness auto
termination
  by (relation "measure (\<lambda>(d, visits). nat (int (case ht_table d 0 of None \<Rightarrow> 0 | Some bs \<Rightarrow> length bs) - rehashidx d))")
    (auto simp: bucket_def split: option.splits if_splits)

declare skip_empty.simps [simp del]

text \<open>The outer loop, with \<open>n\<close> turns left; \<open>True\<close> when it returns 1 in the middle.\<close>

fun rehash_loop :: "('k, 'v) dictType \<Rightarrow> ('k, 'v) dict \<Rightarrow> nat \<Rightarrow> int \<Rightarrow> (('k, 'v) dict \<times> bool) c_result" where
  "rehash_loop t d 0 visits = Inr (d, False)"
| "rehash_loop t d (Suc n) visits =
    (if ht_used d 0 = 0 then Inr (d, False)
     else if \<not> int (DICTHT_SIZE (ht_size_exp d 0)) > rehashidx d mod 2 ^ 64 then Inl AssertFail
     else c_bind (skip_empty d visits) (\<lambda>(d, visits, out).
       if out then Inr (d, True)
       else c_bind (bucket d 0 (rehashidx d)) (\<lambda>de.
            c_bind (move_chain t d de) (\<lambda>d.
            c_bind (set_bucket d 0 (rehashidx d) []) (\<lambda>d.
              rehash_loop t (d\<lparr>rehashidx := rehashidx d + 1\<rparr>) n visits)))))"

definition dictRehash :: "('k, 'v) dictType \<Rightarrow> dictResizeEnable \<Rightarrow> ('k, 'v) dict \<Rightarrow> nat \<Rightarrow> (('k, 'v) dict \<times> bool) c_result" where
  "dictRehash t can d n =
    (let s0 = DICTHT_SIZE (ht_size_exp d 0); s1 = DICTHT_SIZE (ht_size_exp d 1) in
     if can = DICT_RESIZE_FORBID \<or> \<not> dictIsRehashing d then Inr (d, False)
     else if can = DICT_RESIZE_AVOID \<and> (s1 > s0 \<and> s1 div s0 < dict_force_resize_ratio \<or> s1 < s0 \<and> s0 div s1 < dict_force_resize_ratio)
     then Inr (d, False)
     else c_bind (rehash_loop t d n (int n * 10)) (\<lambda>(d, out).
       if out then Inr (d, True)
       else if ht_used d 0 = 0 then
         let d = d\<lparr>ht_table := (ht_table d)(0 := ht_table d 1), ht_used := (ht_used d)(0 := ht_used d 1),
                   ht_size_exp := (ht_size_exp d)(0 := ht_size_exp d 1)\<rparr>
         in Inr ((dictReset 1 d)\<lparr>rehashidx := - 1\<rparr>, False)
       else Inr (d, True)))"

definition dictRehashStep :: "('k, 'v) dictType \<Rightarrow> dictResizeEnable \<Rightarrow> ('k, 'v) dict \<Rightarrow> ('k, 'v) dict c_result" where
  "dictRehashStep t can d = (if pauserehash d = 0 then c_bind (dictRehash t can d 1) (\<lambda>(d, _). Inr d) else Inr d)"

definition rehash_if_needed :: "('k, 'v) dictType \<Rightarrow> dictResizeEnable \<Rightarrow> ('k, 'v) dict \<Rightarrow> ('k, 'v) dict c_result" where
  "rehash_if_needed t can d = (if dictIsRehashing d then dictRehashStep t can d else Inr d)"

section \<open>Lookup\<close>

definition dictCompareKeys :: "('k, 'v) dictType \<Rightarrow> 'k \<Rightarrow> 'k \<Rightarrow> bool" where
  "dictCompareKeys t key1 key2 = (case keyCompare t of None \<Rightarrow> key1 = key2 | Some c \<Rightarrow> c key1 key2)"

definition same_key :: "('k, 'v) dictType \<Rightarrow> 'k \<Rightarrow> 'k \<Rightarrow> bool" where
  "same_key t key he_key \<longleftrightarrow> key = he_key \<or> dictCompareKeys t key he_key"

text \<open>The walk along a chain: how many entries precede the one with the key.\<close>

function chain_find :: "('k, 'v) dictType \<Rightarrow> 'k \<Rightarrow> ('k, 'v) chain \<Rightarrow> nat option" where
  "chain_find t key [] = None"
| "chain_find t key (he # es) =
     (if same_key t key (entry_key he) then Some 0 else map_option Suc (chain_find t key (dictGetNext (he # es))))"
  by pat_completeness auto
termination by (relation "measure (\<lambda>(t, key, b). length b)") (auto simp: dictGetNext_def)

type_synonym position = "nat \<times> int \<times> nat"

text \<open>The loop over the tables that lookups, insertions and deletions share: the place of the entry.\<close>

definition dict_search :: "('k, 'v) dictType \<Rightarrow> ('k, 'v) dict \<Rightarrow> 'k \<Rightarrow> position option c_result" where
  "dict_search t d key =
    (let h = hashFunction t key in
     c_bind (bucket d 0 (slot d 0 h)) (\<lambda>b. case chain_find t key b of
       Some n \<Rightarrow> Inr (Some (0, slot d 0 h, n))
     | None \<Rightarrow> if \<not> dictIsRehashing d then Inr None
         else c_bind (bucket d 1 (slot d 1 h)) (\<lambda>b. Inr (map_option (\<lambda>n. (1, slot d 1 h, n)) (chain_find t key b)))))"

fun entry_at :: "('k, 'v) dict \<Rightarrow> position \<Rightarrow> ('k, 'v) dictEntry c_result" where
  "entry_at d (i, idx, n) = c_bind (bucket d i idx) (\<lambda>b. if n < length b then Inr (b ! n) else Inl NullDeref)"

fun set_entry :: "('k, 'v) dict \<Rightarrow> position \<Rightarrow> ('k, 'v) dictEntry \<Rightarrow> ('k, 'v) dict c_result" where
  "set_entry d (i, idx, n) e = c_bind (bucket d i idx) (\<lambda>b. if n < length b then set_bucket d i idx (b[n := e]) else Inl NullDeref)"

definition dictFind :: "('k, 'v) dictType \<Rightarrow> dictResizeEnable \<Rightarrow> ('k, 'v) dict \<Rightarrow> 'k \<Rightarrow> (('k, 'v) dict \<times> ('k, 'v) dictEntry option) c_result" where
  "dictFind t can d key =
    (if dictSize d = 0 then Inr (d, None)
     else c_bind (rehash_if_needed t can d) (\<lambda>d. c_bind (dict_search t d key) (\<lambda>r. case r of
       None \<Rightarrow> Inr (d, None) | Some p \<Rightarrow> c_bind (entry_at d p) (\<lambda>he. Inr (d, Some he)))))"

definition dictGetVal :: "('k, 'v) dictEntry \<Rightarrow> 'v c_result" where
  "dictGetVal de = (case entry_val de of None \<Rightarrow> Inl AssertFail | Some v \<Rightarrow> Inr v)"

definition dictFetchValue :: "('k, 'v) dictType \<Rightarrow> dictResizeEnable \<Rightarrow> ('k, 'v) dict \<Rightarrow> 'k \<Rightarrow> (('k, 'v) dict \<times> 'v option) c_result" where
  "dictFetchValue t can d key =
    c_bind (dictFind t can d key) (\<lambda>(d, he). case he of None \<Rightarrow> Inr (d, None) | Some he \<Rightarrow> c_bind (dictGetVal he) (\<lambda>v. Inr (d, Some v)))"

section \<open>Insertion\<close>

text \<open>The bucket to insert at, or the entry that has the key already, or neither when the table cannot be expanded.\<close>

definition dictFindPositionForInsert ::
    "('k, 'v) dictType \<Rightarrow> dictResizeEnable \<Rightarrow> ('k, 'v) dict \<Rightarrow> 'k \<Rightarrow> (('k, 'v) dict \<times> (nat \<times> int) option \<times> position option) c_result" where
  "dictFindPositionForInsert t can d key =
    c_bind (rehash_if_needed t can d) (\<lambda>d.
      case dictExpandIfNeeded t can d of
        (d, False) \<Rightarrow> Inr (d, None, None)
      | (d, True) \<Rightarrow> c_bind (dict_search t d key) (\<lambda>r. case r of
          Some p \<Rightarrow> Inr (d, None, Some p)
        | None \<Rightarrow> let i = (if dictIsRehashing d then 1 else 0) in Inr (d, Some (i, slot d i (hashFunction t key)), None)))"

definition dictInsertAtPosition ::
    "('k, 'v) dictType \<Rightarrow> 'v \<Rightarrow> ('k, 'v) dict \<Rightarrow> 'k \<Rightarrow> nat \<times> int \<Rightarrow> (('k, 'v) dict \<times> position) c_result" where
  "dictInsertAtPosition t junk d key pos =
    (case pos of (i, idx) \<Rightarrow>
     let htidx = (if dictIsRehashing d then 1 else 0) in
     if \<not> (i = htidx \<and> 0 \<le> idx \<and> idx \<le> int (DICTHT_SIZE_MASK (ht_size_exp d htidx))) then Inl AssertFail
     else c_bind (bucket d i idx) (\<lambda>b.
          c_bind (if no_value t then
                    if keys_are_odd t \<and> b = [] then if key_lsb t key then Inr [KeyPtr key] else Inl AssertFail
                    else Inr (NoValue key # b)
                  else Inr (Normal key junk # b)) (\<lambda>b.
          c_bind (set_bucket d i idx b) (\<lambda>d. Inr (inc_used htidx d, (i, idx, 0))))))"

text \<open>The new entry, or the existing one.  \<open>junk\<close> is the value of a fresh allocation.\<close>

definition dictAddRaw ::
    "('k, 'v) dictType \<Rightarrow> dictResizeEnable \<Rightarrow> 'v \<Rightarrow> ('k, 'v) dict \<Rightarrow> 'k \<Rightarrow> (('k, 'v) dict \<times> position option \<times> position option) c_result" where
  "dictAddRaw t can junk d key =
    c_bind (dictFindPositionForInsert t can d key) (\<lambda>(d, pos, existing). case pos of
      None \<Rightarrow> Inr (d, None, existing)
    | Some pos \<Rightarrow> c_bind (dictInsertAtPosition t junk d (case keyDup t of None \<Rightarrow> key | Some f \<Rightarrow> f key) pos)
        (\<lambda>(d, p). Inr (d, Some p, existing)))"

definition dictSetVal :: "('k, 'v) dictType \<Rightarrow> ('k, 'v) dict \<Rightarrow> position \<Rightarrow> 'v \<Rightarrow> ('k, 'v) dict c_result" where
  "dictSetVal t d p v =
    c_bind (entry_at d p) (\<lambda>de. if \<not> entryHasValue de then Inl AssertFail
      else set_entry d p (Normal (entry_key de) (case valDup t of None \<Rightarrow> v | Some f \<Rightarrow> f v)))"

definition dictAdd :: "('k, 'v) dictType \<Rightarrow> dictResizeEnable \<Rightarrow> 'v \<Rightarrow> ('k, 'v) dict \<Rightarrow> 'k \<Rightarrow> 'v \<Rightarrow> (('k, 'v) dict \<times> bool) c_result" where
  "dictAdd t can junk d key v =
    c_bind (dictAddRaw t can junk d key) (\<lambda>(d, p, _). case p of
      None \<Rightarrow> Inr (d, False)
    | Some p \<Rightarrow> if \<not> no_value t then c_bind (dictSetVal t d p v) (\<lambda>d. Inr (d, True)) else Inr (d, True))"

text \<open>\<^verbatim>\<open>dictReplace\<close>: whether the key was added from scratch.\<close>

definition dictReplace :: "('k, 'v) dictType \<Rightarrow> dictResizeEnable \<Rightarrow> 'v \<Rightarrow> ('k, 'v) dict \<Rightarrow> 'k \<Rightarrow> 'v \<Rightarrow> (('k, 'v) dict \<times> bool) c_result" where
  "dictReplace t can junk d key v =
    c_bind (dictAddRaw t can junk d key) (\<lambda>(d, p, existing). case p of
      Some p \<Rightarrow> c_bind (dictSetVal t d p v) (\<lambda>d. Inr (d, True))
    | None \<Rightarrow> (case existing of
        None \<Rightarrow> Inl NullDeref
      | Some p \<Rightarrow> c_bind (entry_at d p) (\<lambda>de. c_bind (dictGetVal de) (\<lambda>oldval.
                  c_bind (dictSetVal t d p v) (\<lambda>d. Inr (d, False))))))"

section \<open>Deletion\<close>

text \<open>Taking the entry after \<open>n\<close> others out of a chain.\<close>

definition chain_unlink :: "nat \<Rightarrow> ('k, 'v) chain \<Rightarrow> ('k, 'v) chain c_result" where
  "chain_unlink n b =
    (if n = 0 then Inr (dictGetNext b)
     else if entryIsKey (b ! (n - 1)) then Inl AssertFail
     else Inr (take n b @ dictGetNext (drop n b)))"

fun unlink_at :: "('k, 'v) dict \<Rightarrow> position \<Rightarrow> ('k, 'v) dict c_result" where
  "unlink_at d (i, idx, n) =
    c_bind (bucket d i idx) (\<lambda>b. c_bind (chain_unlink n b) (\<lambda>b. c_bind (set_bucket d i idx b) (\<lambda>d. Inr (dec_used i d))))"

definition dictGenericDelete :: "('k, 'v) dictType \<Rightarrow> dictResizeEnable \<Rightarrow> ('k, 'v) dict \<Rightarrow> 'k \<Rightarrow> (('k, 'v) dict \<times> ('k, 'v) dictEntry option) c_result" where
  "dictGenericDelete t can d key =
    (if dictSize d = 0 then Inr (d, None)
     else c_bind (rehash_if_needed t can d) (\<lambda>d. c_bind (dict_search t d key) (\<lambda>r. case r of
       None \<Rightarrow> Inr (d, None)
     | Some p \<Rightarrow> c_bind (entry_at d p) (\<lambda>he. c_bind (unlink_at d p) (\<lambda>d. Inr (d, Some he))))))"

definition dictDelete :: "('k, 'v) dictType \<Rightarrow> dictResizeEnable \<Rightarrow> ('k, 'v) dict \<Rightarrow> 'k \<Rightarrow> (('k, 'v) dict \<times> bool) c_result" where
  "dictDelete t can d key = c_bind (dictGenericDelete t can d key) (\<lambda>(d, he). Inr (d, he \<noteq> None))"

definition dictTwoPhaseUnlinkFind ::
    "('k, 'v) dictType \<Rightarrow> dictResizeEnable \<Rightarrow> ('k, 'v) dict \<Rightarrow> 'k \<Rightarrow> (('k, 'v) dict \<times> (('k, 'v) dictEntry \<times> position) option) c_result" where
  "dictTwoPhaseUnlinkFind t can d key =
    (if dictSize d = 0 then Inr (d, None)
     else c_bind (rehash_if_needed t can d) (\<lambda>d. c_bind (dict_search t d key) (\<lambda>r. case r of
       None \<Rightarrow> Inr (d, None)
     | Some p \<Rightarrow> c_bind (entry_at d p) (\<lambda>he. Inr (dictPauseRehashing d, Some (he, p))))))"

definition dictTwoPhaseUnlinkFree :: "('k, 'v) dict \<Rightarrow> position \<Rightarrow> ('k, 'v) dict c_result" where
  "dictTwoPhaseUnlinkFree d p =
    (case p of (i, idx, n) \<Rightarrow>
     let d = dec_used i d in
     c_bind (bucket d i idx) (\<lambda>b. c_bind (set_bucket d i idx (take n b @ dictGetNext (drop n b))) (\<lambda>d.
       Inr (dictResumeRehashing d))))"

text \<open>All entries a walk along the chain meets.\<close>

function walk_chain :: "('k, 'v) chain \<Rightarrow> ('k, 'v) chain" where
  "walk_chain [] = []"
| "walk_chain (he # es) = he # walk_chain (dictGetNext (he # es))"
  by pat_completeness auto
termination by (relation "measure length") (auto simp: dictGetNext_def)

text \<open>The loop of \<^verbatim>\<open>_dictClear\<close>: the entries it frees, while \<^verbatim>\<open>ht_used\<close> is positive.\<close>

fun clear_loop :: "('k, 'v) chain list \<Rightarrow> nat \<Rightarrow> ('k, 'v) dictEntry list" where
  "clear_loop [] used = []"
| "clear_loop (b # bs) used =
     (if used > 0 then walk_chain b @ clear_loop bs ((used + length (walk_chain b) * (2 ^ 64 - 1)) mod 2 ^ 64) else [])"

definition dictClear :: "('k, 'v) dict \<Rightarrow> nat \<Rightarrow> ('k, 'v) dict \<times> ('k, 'v) dictEntry list" where
  "dictClear d i =
    (dictReset i d, clear_loop (take (DICTHT_SIZE (ht_size_exp d i)) (case ht_table d i of None \<Rightarrow> [] | Some bs \<Rightarrow> bs)) (ht_used d i))"

definition dictEmpty :: "('k, 'v) dict \<Rightarrow> ('k, 'v) dict \<times> ('k, 'v) dictEntry list" where
  "dictEmpty d = (case dictClear d 0 of (d, freed0) \<Rightarrow> case dictClear d 1 of (d, freed1) \<Rightarrow>
     (d\<lparr>rehashidx := - 1, pauserehash := 0\<rparr>, freed0 @ freed1))"

end
