(* ===== verification/Redis_Dict_Props.thy ===== *)
theory Redis_Dict_Props
  imports Redis_Dict
begin

text \<open>
  The dictionary implements a finite map.  The invariant \<open>dict_wf\<close> describes the two tables, also in the
  middle of an incremental rehash; every operation keeps it and acts on the contents, the multiset of
  keys and values, as the operation of the map does.
\<close>

declare One_nat_def [simp del]

section \<open>Well-formed dictionaries\<close>

definition entry_ok :: "('k, 'v) dictType \<Rightarrow> ('k, 'v) dictEntry \<Rightarrow> bool" where
  "entry_ok t e \<longleftrightarrow>
    (if no_value t then \<not> entryHasValue e \<and> (entryIsKey e \<longrightarrow> keys_are_odd t) else entryHasValue e)"

text \<open>A bare key has no \<^verbatim>\<open>next\<close> field, so it ends its chain.\<close>

fun chain_ok :: "('k, 'v) dictType \<Rightarrow> ('k, 'v) chain \<Rightarrow> bool" where
  "chain_ok t [] \<longleftrightarrow> True"
| "chain_ok t (e # es) \<longleftrightarrow> entry_ok t e \<and> (entryIsKey e \<longrightarrow> es = []) \<and> chain_ok t es"

abbreviation in_slot :: "('k, 'v) dictType \<Rightarrow> int \<Rightarrow> nat \<Rightarrow> ('k, 'v) dictEntry \<Rightarrow> bool" where
  "in_slot t e j x \<equiv> unat (hashFunction t (entry_key x)) mod 2 ^ nat e = j"

definition tbl_ok :: "('k, 'v) dictType \<Rightarrow> int \<Rightarrow> ('k, 'v) chain list \<Rightarrow> nat \<Rightarrow> bool" where
  "tbl_ok t e bs u \<longleftrightarrow> 2 \<le> e \<and> e \<le> 60 \<and> length bs = 2 ^ nat e \<and> u = length (concat bs) \<and>
    (\<forall>j < length bs. chain_ok t (bs ! j) \<and> (\<forall>x \<in> set (bs ! j). in_slot t e j x))"

definition table_ok :: "('k, 'v) dictType \<Rightarrow> ('k, 'v) dict \<Rightarrow> nat \<Rightarrow> bool" where
  "table_ok t d i \<longleftrightarrow> (case ht_table d i of
     None \<Rightarrow> ht_size_exp d i = - 1 \<and> ht_used d i = 0
   | Some bs \<Rightarrow> tbl_ok t (ht_size_exp d i) bs (ht_used d i))"

definition tab :: "('k, 'v) dict \<Rightarrow> nat \<Rightarrow> ('k, 'v) chain list" where
  "tab d i = (case ht_table d i of None \<Rightarrow> [] | Some bs \<Rightarrow> bs)"

definition dict_entries :: "('k, 'v) dict \<Rightarrow> ('k, 'v) dictEntry list" where
  "dict_entries d = concat (tab d 0) @ concat (tab d 1)"

definition pairs :: "('k, 'v) dictEntry list \<Rightarrow> ('k \<times> 'v option) multiset" where
  "pairs es = mset (map (\<lambda>e. (entry_key e, entry_val e)) es)"

definition unique_keys :: "('k, 'v) dictType \<Rightarrow> ('k \<times> 'x) multiset \<Rightarrow> bool" where
  "unique_keys t C \<longleftrightarrow> (\<forall>k. size (filter_mset (\<lambda>p. same_key t k (fst p)) C) \<le> 1)"

definition dict_wf :: "('k, 'v) dictType \<Rightarrow> ('k, 'v) dict \<Rightarrow> bool" where
  "dict_wf t d \<longleftrightarrow> table_ok t d 0 \<and> table_ok t d 1 \<and> unique_keys t (pairs (dict_entries d)) \<and>
    (if rehashidx d = - 1 then ht_table d 1 = None
     else ht_table d 0 \<noteq> None \<and> ht_table d 1 \<noteq> None \<and> 0 \<le> rehashidx d \<and> rehashidx d \<le> int (length (tab d 0)) \<and>
       (\<forall>j < nat (rehashidx d). tab d 0 ! j = []))"

text \<open>What a dictionary type promises of its callbacks.\<close>

definition dict_type_ok :: "('k, 'v) dictType \<Rightarrow> bool" where
  "dict_type_ok t \<longleftrightarrow>
    (\<forall>a b. same_key t a b \<longrightarrow> same_key t b a \<and> hashFunction t a = hashFunction t b) \<and>
    (\<forall>a b c. same_key t a b \<longrightarrow> same_key t b c \<longrightarrow> same_key t a c) \<and>
    (\<forall>f k. keyDup t = Some f \<longrightarrow> same_key t k (f k)) \<and>
    (keys_are_odd t \<longrightarrow> (\<forall>k. key_lsb t k))"

lemma type_okD:
  assumes "dict_type_ok t"
  shows "same_key t a b \<Longrightarrow> same_key t b a" and "same_key t a b \<Longrightarrow> hashFunction t a = hashFunction t b"
    and "same_key t a b \<Longrightarrow> same_key t b c \<Longrightarrow> same_key t a c" and "keyDup t = Some f \<Longrightarrow> same_key t a (f a)"
    and "keys_are_odd t \<Longrightarrow> key_lsb t a"
  using assms unfolding dict_type_ok_def by blast+

lemma same_refl [simp]: "same_key t k k"
  by (simp add: same_key_def)

lemma pairs_simps [simp]: "pairs [] = {#}" "pairs (e # es) = add_mset (entry_key e, entry_val e) (pairs es)" "pairs (xs @ ys) = pairs xs + pairs ys"
  by (simp_all add: pairs_def)

lemma size_pairs [simp]: "size (pairs es) = length es"
  by (simp add: pairs_def)

section \<open>Chains\<close>

lemma next_ok [simp]: "chain_ok t (e # es) \<Longrightarrow> dictGetNext (e # es) = es"
  by (auto simp: dictGetNext_def)

lemma walk_ok [simp]: "chain_ok t b \<Longrightarrow> walk_chain b = b"
  by (induction b) (simp_all add: dictGetNext_def)

lemma chain_ok_append: "chain_ok t (xs @ ys) \<longleftrightarrow> chain_ok t xs \<and> chain_ok t ys \<and> (ys \<noteq> [] \<longrightarrow> (\<forall>x \<in> set xs. \<not> entryIsKey x))"
  by (induction xs) auto

lemma chain_find_Some: "chain_ok t b \<Longrightarrow> chain_find t key b = Some n \<Longrightarrow> n < length b \<and> same_key t key (entry_key (b ! n))"
proof (induction b arbitrary: n)
  case (Cons e es)
  then have "chain_ok t es" "dictGetNext (e # es) = es" by (simp, blast intro: next_ok)
  with Cons show ?case by (auto split: if_splits)
qed simp

lemma chain_find_None: "chain_ok t b \<Longrightarrow> chain_find t key b = None \<Longrightarrow> x \<in> set b \<Longrightarrow> \<not> same_key t key (entry_key x)"
proof (induction b)
  case (Cons e es)
  then have "chain_ok t es" "dictGetNext (e # es) = es" by (simp, blast intro: next_ok)
  with Cons show ?case by (auto split: if_splits)
qed simp

lemma chain_unlink_ok:
  assumes "chain_ok t b" and "n < length b"
  shows "chain_unlink n b = Inr (take n b @ drop (Suc n) b)" and "chain_ok t (take n b @ drop (Suc n) b)"
    and "dictGetNext (drop n b) = drop (Suc n) b"
proof -
  have d: "drop n b = b ! n # drop (Suc n) b" using assms(2) by (simp add: Cons_nth_drop_Suc)
  then have b: "b = take n b @ b ! n # drop (Suc n) b" using append_take_drop_id [of n b] by simp
  from assms(1) have "chain_ok t (take n b @ b ! n # drop (Suc n) b)" by (simp only: b [symmetric])
  then have ok: "chain_ok t (take n b)" "chain_ok t (b ! n # drop (Suc n) b)" "\<forall>x \<in> set (take n b). \<not> entryIsKey x"
    unfolding chain_ok_append by auto
  show nx: "dictGetNext (drop n b) = drop (Suc n) b" unfolding d using ok(2) by (rule next_ok)
  show "chain_ok t (take n b @ drop (Suc n) b)" using ok by (simp add: chain_ok_append)
  have "\<not> entryIsKey (b ! (n - 1))" if "n \<noteq> 0"
    using that assms(2) ok(3) by (metis (no_types, lifting) Suc_pred' in_set_conv_nth length_take lessI min.absorb4 neq0_conv nth_take)
  then show "chain_unlink n b = Inr (take n b @ drop (Suc n) b)" using nx by (auto simp: chain_unlink_def)
qed

lemma chain_set_ok:
  "chain_ok t b \<Longrightarrow> n < length b \<Longrightarrow> entry_ok t e \<Longrightarrow> (entryIsKey e \<longleftrightarrow> entryIsKey (b ! n)) \<Longrightarrow> chain_ok t (b[n := e])"
proof (induction b arbitrary: n)
  case (Cons x xs)
  then show ?case by (cases n) auto
qed simp

section \<open>Tables\<close>

lemma size_pow [simp]: "0 \<le> e \<Longrightarrow> DICTHT_SIZE e = 2 ^ nat e" "0 \<le> e \<Longrightarrow> DICTHT_SIZE_MASK e = 2 ^ nat e - 1"
  by (auto simp: DICTHT_SIZE_def DICTHT_SIZE_MASK_def)

lemma slot_eq: "0 \<le> ht_size_exp d i \<Longrightarrow> slot d i h = int (unat h mod 2 ^ nat (ht_size_exp d i))"
proof -
  assume "0 \<le> ht_size_exp d i"
  moreover have "(of_nat (2 ^ n - 1) :: u64) = mask n" for n by (simp add: mask_eq_exp_minus_1 of_nat_diff)
  ultimately have "slot d i h = uint (take_bit (nat (ht_size_exp d i)) h)" by (simp add: slot_def take_bit_eq_mask)
  then show ?thesis unfolding unsigned_take_bit_eq by (simp add: take_bit_eq_mod zmod_int)
qed

lemma concat_update: "j < length bs \<Longrightarrow> pairs (concat (bs[j := b])) + pairs (bs ! j) = pairs (concat bs) + pairs b"
proof -
  assume j: "j < length bs"
  then have "bs = take j bs @ bs ! j # drop (Suc j) bs" by (rule id_take_nth_drop)
  then have "pairs (concat bs) = pairs (concat (take j bs)) + (pairs (bs ! j) + pairs (concat (drop (Suc j) bs)))"
    by (metis concat.simps(2) concat_append pairs_simps(3))
  moreover have "concat (bs[j := b]) = concat (take j bs) @ b @ concat (drop (Suc j) bs)"
    using j by (simp add: upd_conv_take_nth_drop)
  ultimately show ?thesis by (simp add: ac_simps)
qed

lemma length_concat_update:
  "j < length (bs :: ('k, 'v) chain list) \<Longrightarrow> length (concat (bs[j := b])) + length (bs ! j) = length (concat bs) + length b"
  using concat_update [of j bs b] by (metis size_pairs size_union)

lemma tbl_put:
  assumes "tbl_ok t e bs u" and "j < length bs" and "chain_ok t b" and "\<And>x. x \<in> set b \<Longrightarrow> in_slot t e j x"
  shows "tbl_ok t e (bs[j := b]) (u + length b - length (bs ! j))"
proof -
  have "chain_ok t (bs[j := b] ! k) \<and> (\<forall>x \<in> set (bs[j := b] ! k). in_slot t e k x)" if "k < length bs" for k
    using assms that by (cases "k = j") (auto simp: tbl_ok_def)
  moreover have "u + length b - length (bs ! j) = length (concat (bs[j := b]))"
    using assms(1,2) length_concat_update [of j bs b] by (simp add: tbl_ok_def)
  ultimately show ?thesis using assms(1) by (simp add: tbl_ok_def)
qed

lemma bucket_ok: "ht_table d i = Some bs \<Longrightarrow> j < length bs \<Longrightarrow> bucket d i (int j) = Inr (bs ! j)"
  by (simp add: bucket_def)

lemma set_bucket_ok:
  "ht_table d i = Some bs \<Longrightarrow> j < length bs \<Longrightarrow>
     set_bucket d i (int j) b = Inr (d\<lparr>ht_table := (ht_table d)(i := Some (bs[j := b]))\<rparr>)"
  by (simp add: set_bucket_def)

lemma table_okD: "table_ok t d i \<Longrightarrow> ht_table d i = Some bs \<Longrightarrow> tbl_ok t (ht_size_exp d i) bs (ht_used d i)"
  by (simp add: table_ok_def)

lemma tbl_okD:
  assumes "tbl_ok t e bs u"
  shows "0 \<le> e" and "length bs = 2 ^ nat e" and "u = length (concat bs)" and "h mod 2 ^ nat e < length bs"
    and "j < length bs \<Longrightarrow> chain_ok t (bs ! j)" and "j < length bs \<Longrightarrow> x \<in> set (bs ! j) \<Longrightarrow> in_slot t e j x"
  using assms by (auto simp: tbl_ok_def)

lemma tab_simps [simp]: "ht_table d i = Some bs \<Longrightarrow> tab d i = bs" "ht_table d i = None \<Longrightarrow> tab d i = []"
  by (simp_all add: tab_def)

lemma nth_length_le: "j < length bs \<Longrightarrow> length (bs ! j) \<le> length (concat bs)"
  by (induction bs arbitrary: j) (auto simp: nth_Cons trans_le_add2 split: nat.splits)

section \<open>Moving a chain\<close>

lemma used_simps:
  "0 < ht_used d i \<Longrightarrow> ht_used d i < 2 ^ 64 \<Longrightarrow> dec_used i d = d\<lparr>ht_used := (ht_used d)(i := ht_used d i - 1)\<rparr>"
  "ht_used d i + 1 < 2 ^ 64 \<Longrightarrow> inc_used i d = d\<lparr>ht_used := (ht_used d)(i := ht_used d i + 1)\<rparr>"
proof -
  assume u: "0 < ht_used d i" "ht_used d i < 2 ^ 64"
  then have "ht_used d i + (2 ^ 64 - 1) = ht_used d i - 1 + 2 ^ 64" by simp
  moreover have "(ht_used d i - 1 + 2 ^ 64) mod 2 ^ 64 = ht_used d i - 1" using u(2) unfolding mod_add_self2 by (intro mod_less) simp
  ultimately have "(ht_used d i + (2 ^ 64 - 1)) mod 2 ^ 64 = ht_used d i - 1" by (simp only:)
  then show "dec_used i d = d\<lparr>ht_used := (ht_used d)(i := ht_used d i - 1)\<rparr>" by (simp add: dec_used_def)
next
  assume "ht_used d i + 1 < 2 ^ 64"
  then show "inc_used i d = d\<lparr>ht_used := (ht_used d)(i := ht_used d i + 1)\<rparr>" by (simp add: inc_used_def)
qed

text \<open>The entry in its new place: the same key and value, perhaps of another kind.\<close>

definition moved_chain :: "('k, 'v) dictType \<Rightarrow> ('k, 'v) dictEntry \<Rightarrow> ('k, 'v) chain \<Rightarrow> ('k, 'v) chain" where
  "moved_chain t e dest =
    (if no_value t \<and> keys_are_odd t \<and> dest = [] then [KeyPtr (entry_key e)]
     else if entryIsKey e then NoValue (entry_key e) # dest else e # dest)"

lemma moved_chain_ok:
  assumes "entry_ok t e" and "chain_ok t dest"
  shows "chain_ok t (moved_chain t e dest)" and "pairs (moved_chain t e dest) = pairs (e # dest)" and "length (moved_chain t e dest) = Suc (length dest)"
    and "x \<in> set (moved_chain t e dest) \<Longrightarrow> entry_key x = entry_key e \<or> x \<in> set dest"
proof -
  show "chain_ok t (moved_chain t e dest)" using assms by (cases e) (auto simp: moved_chain_def entry_ok_def split: if_splits)
  show "pairs (moved_chain t e dest) = pairs (e # dest)" using assms by (cases e) (auto simp: moved_chain_def entry_ok_def)
  show "length (moved_chain t e dest) = Suc (length dest)" by (simp add: moved_chain_def)
  show "entry_key x = entry_key e \<or> x \<in> set dest" if "x \<in> set (moved_chain t e dest)"
    using that by (auto simp: moved_chain_def split: if_splits)
qed

lemma move_entry_ok:
  assumes t: "dict_type_ok t" and tb: "ht_table d 1 = Some bs" "tbl_ok t (ht_size_exp d 1) bs (ht_used d 1)"
    and e: "entry_ok t e" "in_slot t (ht_size_exp d 0) (nat (rehashidx d)) e" "0 \<le> rehashidx d" "rehashidx d < 2 ^ 60" "0 \<le> ht_size_exp d 0"
    and u: "0 < ht_used d 0" "ht_used d 0 < 2 ^ 64" "ht_used d 1 + 1 < 2 ^ 64"
  defines "j \<equiv> unat (hashFunction t (entry_key e)) mod 2 ^ nat (ht_size_exp d 1)"
  shows "move_entry t d e = Inr (d\<lparr>ht_table := (ht_table d)(1 := Some (bs[j := moved_chain t e (bs ! j)])),
    ht_used := (ht_used d)(0 := ht_used d 0 - 1, 1 := ht_used d 1 + 1)\<rparr>)"
proof -
  note tbd = tbl_okD [OF tb(2)]
  have j: "j < length bs" unfolding j_def by (rule tbd(4))
  have "unat (of_int (rehashidx d) :: u64) mod 2 ^ nat (ht_size_exp d 1) = j" if "\<not> ht_size_exp d 1 > ht_size_exp d 0"
  proof -
    have "unat (of_int (rehashidx d) :: u64) = nat (rehashidx d)"
      using e(3,4) by (simp add: unat_eq_nat_uint uint_word_of_int_eq take_bit_int_eq_self)
    moreover have "nat (rehashidx d) mod 2 ^ nat (ht_size_exp d 1) = j"
      unfolding e(2) [symmetric] j_def using that tbd(1) by (intro mod_mod_cancel le_imp_power_dvd nat_mono) simp
    ultimately show ?thesis by simp
  qed
  then have h: "(if ht_size_exp d 1 > ht_size_exp d 0 then slot d 1 (hashFunction t (entry_key e)) else slot d 1 (of_int (rehashidx d))) = int j"
    using tbd(1) by (simp add: slot_eq j_def)
  have chain: "(if no_value t then
      if keys_are_odd t \<and> bs ! j = [] then if key_lsb t (entry_key e) then Inr [KeyPtr (entry_key e)] else Inl AssertFail
      else if entryIsKey e then Inr (NoValue (entry_key e) # bs ! j) else if entryIsNoValue e then dictSetNext e (bs ! j) else Inl AssertFail
    else dictSetNext e (bs ! j)) = Inr (moved_chain t e (bs ! j))"
    using type_okD(5) [OF t] e(1) by (cases e) (simp_all add: entry_ok_def moved_chain_def dictSetNext_def split: if_splits)
  show ?thesis
    unfolding move_entry_def Let_def h bucket_ok [OF tb(1) j] c_bind_simps chain set_bucket_ok [OF tb(1) j]
    using u by (simp add: used_simps)
qed

lemma move_chain_ok:
  "chain_ok t b \<Longrightarrow> ht_table d 1 = Some bs \<Longrightarrow> tbl_ok t (ht_size_exp d 1) bs (ht_used d 1) \<Longrightarrow> dict_type_ok t \<Longrightarrow>
     \<forall>x \<in> set b. in_slot t (ht_size_exp d 0) (nat (rehashidx d)) x \<Longrightarrow> 0 \<le> rehashidx d \<Longrightarrow> rehashidx d < 2 ^ 60 \<Longrightarrow> 0 \<le> ht_size_exp d 0 \<Longrightarrow>
     length b \<le> ht_used d 0 \<Longrightarrow> ht_used d 0 < 2 ^ 64 \<Longrightarrow> ht_used d 1 + length b < 2 ^ 64 \<Longrightarrow>
   \<exists>bs'. move_chain t d b = Inr (d\<lparr>ht_table := (ht_table d)(1 := Some bs'),
       ht_used := (ht_used d)(0 := ht_used d 0 - length b, 1 := ht_used d 1 + length b)\<rparr>) \<and>
     tbl_ok t (ht_size_exp d 1) bs' (ht_used d 1 + length b) \<and> pairs (concat bs') = pairs (concat bs) + pairs b"
proof (induction b arbitrary: d bs)
  case Nil
  have u: "(ht_table d)(1 := Some bs) = ht_table d" "(ht_used d)(0 := ht_used d 0, 1 := ht_used d 1) = ht_used d" "d\<lparr>ht_table := ht_table d, ht_used := ht_used d\<rparr> = d"
    using Nil.prems(2) by (auto simp: fun_upd_idem)
  show ?case using Nil.prems(3) by (intro exI [of _ bs]) (simp only: list.size diff_zero add_0_right u move_chain.simps pairs_simps simp_thms)
next
  case (Cons e es)
  let ?j = "unat (hashFunction t (entry_key e)) mod 2 ^ nat (ht_size_exp d 1)"
  let ?bs = "bs[?j := moved_chain t e (bs ! ?j)]"
  let ?d = "d\<lparr>ht_table := (ht_table d)(1 := Some ?bs), ht_used := (ht_used d)(0 := ht_used d 0 - 1, 1 := ht_used d 1 + 1)\<rparr>"
  note tbd = tbl_okD [OF Cons.prems(3)]
  have e: "entry_ok t e" "chain_ok t es" and nx: "dictGetNext (e # es) = es" using Cons.prems(1) next_ok by auto
  have j: "?j < length bs" by (rule tbd(4))
  note mv = moved_chain_ok [OF e(1) tbd(5) [OF j]]
  have step: "move_entry t d e = Inr ?d" using Cons.prems e by (intro move_entry_ok) auto
  have "in_slot t (ht_size_exp d 1) ?j x" if "x \<in> set (moved_chain t e (bs ! ?j))" for x
    using mv(4) [OF that] tbd(6) [OF j, of x] by auto
  from tbl_put [OF Cons.prems(3) j mv(1) this] have ok: "tbl_ok t (ht_size_exp ?d 1) ?bs (ht_used ?d 1)" by (simp add: mv(3) Suc_eq_plus1)
  have p: "pairs (concat ?bs) = add_mset (entry_key e, entry_val e) (pairs (concat bs))"
    using concat_update [OF j, of "moved_chain t e (bs ! ?j)"] by (simp add: mv(2))
  have pre: "ht_table ?d 1 = Some ?bs" "\<forall>x \<in> set es. in_slot t (ht_size_exp ?d 0) (nat (rehashidx ?d)) x" "0 \<le> rehashidx ?d" "rehashidx ?d < 2 ^ 60"
    "0 \<le> ht_size_exp ?d 0" "length es \<le> ht_used ?d 0" "ht_used ?d 0 < 2 ^ 64" "ht_used ?d 1 + length es < 2 ^ 64"
    using Cons.prems by simp_all
  from Cons.IH [OF e(2) pre(1) ok Cons.prems(4) pre(2-8)] obtain bs' where
    bs': "move_chain t ?d es = Inr (?d\<lparr>ht_table := (ht_table ?d)(1 := Some bs'), ht_used := (ht_used ?d)(0 := ht_used ?d 0 - length es, 1 := ht_used ?d 1 + length es)\<rparr>)"
    "tbl_ok t (ht_size_exp ?d 1) bs' (ht_used ?d 1 + length es)" "pairs (concat bs') = pairs (concat ?bs) + pairs es" by blast
  have u: "ht_used ?d 1 + length es = ht_used d 1 + length (e # es)" "ht_used ?d 0 - length es = ht_used d 0 - length (e # es)" by simp_all
  have "move_chain t d (e # es) = Inr (d\<lparr>ht_table := (ht_table d)(1 := Some bs'), ht_used := (ht_used d)(0 := ht_used d 0 - length (e # es), 1 := ht_used d 1 + length (e # es))\<rparr>)"
    unfolding move_chain.simps step c_bind_simps nx bs'(1) u by (simp add: fun_upd_twist)
  moreover have "tbl_ok t (ht_size_exp d 1) bs' (ht_used d 1 + length (e # es))" using bs'(2) unfolding u by simp
  moreover have "pairs (concat bs') = pairs (concat bs) + pairs (e # es)" using bs'(3) p by simp
  ultimately show ?case by blast
qed

section \<open>The rehashing loop\<close>

text \<open>What a step of rehashing keeps: everything but the table of an entry.\<close>

definition rehashed :: "('k, 'v) dict \<Rightarrow> ('k, 'v) dict \<Rightarrow> bool" where
  "rehashed d d' \<longleftrightarrow> pairs (dict_entries d') = pairs (dict_entries d) \<and> pauserehash d' = pauserehash d"

lemma rehashed_refl [simp]: "rehashed d d"
  by (simp add: rehashed_def)

lemma rehashed_trans: "rehashed a b \<Longrightarrow> rehashed b c \<Longrightarrow> rehashed a c"
  by (simp add: rehashed_def)

lemma wf_rehashing:
  assumes "dict_wf t d" and "rehashidx d \<noteq> - 1"
  obtains bs0 bs1 where "ht_table d 0 = Some bs0" "ht_table d 1 = Some bs1"
    "tbl_ok t (ht_size_exp d 0) bs0 (ht_used d 0)" "tbl_ok t (ht_size_exp d 1) bs1 (ht_used d 1)"
    "0 \<le> rehashidx d" "rehashidx d \<le> int (length bs0)" "\<forall>j < nat (rehashidx d). bs0 ! j = []"
    "unique_keys t (pairs (concat bs0) + pairs (concat bs1))"
  using assms by (auto simp: dict_wf_def table_ok_def dict_entries_def)

lemma wf_rehashingI:
  assumes "ht_table d 0 = Some bs0" and "ht_table d 1 = Some bs1"
    and "tbl_ok t (ht_size_exp d 0) bs0 (ht_used d 0)" and "tbl_ok t (ht_size_exp d 1) bs1 (ht_used d 1)"
    and "0 \<le> rehashidx d" and "rehashidx d \<le> int (length bs0)" and "\<forall>j < nat (rehashidx d). bs0 ! j = []"
    and "unique_keys t (pairs (concat bs0) + pairs (concat bs1))"
  shows "dict_wf t d"
  using assms by (simp add: dict_wf_def table_ok_def dict_entries_def)

lemma all_empty: "(\<And>j. j < length bs \<Longrightarrow> bs ! j = []) \<Longrightarrow> concat bs = []"
  by (metis (no_types, opaque_lifting) concat_eq_Nil_conv in_set_conv_nth)

lemma skip_empty_ok:
  "dict_wf t d \<Longrightarrow> rehashidx d \<noteq> - 1 \<Longrightarrow> 0 < ht_used d 0 \<Longrightarrow>
     \<exists>d' visits' out. skip_empty d visits = Inr (d', visits', out) \<and> dict_wf t d' \<and> rehashed d d' \<and> rehashidx d' \<noteq> - 1 \<and>
       d' = d\<lparr>rehashidx := rehashidx d'\<rparr> \<and> rehashidx d \<le> rehashidx d' \<and> (out \<longrightarrow> rehashidx d < rehashidx d') \<and> (out \<or> (\<exists>b. bucket d' 0 (rehashidx d') = Inr b \<and> b \<noteq> []))"
proof (induction d visits rule: skip_empty.induct)
  case (1 d visits)
  from 1(2,3) obtain bs0 bs1 where w: "ht_table d 0 = Some bs0" "ht_table d 1 = Some bs1"
    "tbl_ok t (ht_size_exp d 0) bs0 (ht_used d 0)" "tbl_ok t (ht_size_exp d 1) bs1 (ht_used d 1)"
    "0 \<le> rehashidx d" "rehashidx d \<le> int (length bs0)" "\<forall>j < nat (rehashidx d). bs0 ! j = []"
    "unique_keys t (pairs (concat bs0) + pairs (concat bs1))" by (rule wf_rehashing)
  have lt: "nat (rehashidx d) < length bs0"
  proof (rule ccontr)
    assume "\<not> nat (rehashidx d) < length bs0"
    then have "concat bs0 = []" using w(7) by (intro all_empty) simp
    with tbl_okD(3) [OF w(3)] 1(4) show False by simp
  qed
  have b: "bucket d 0 (rehashidx d) = Inr (bs0 ! nat (rehashidx d))" using bucket_ok [OF w(1) lt] w(5) by simp
  show ?case
  proof (cases "bs0 ! nat (rehashidx d) = []")
    case False
    with b 1(2,3) show ?thesis by (subst skip_empty.simps) auto
  next
    case True
    let ?d = "d\<lparr>rehashidx := rehashidx d + 1\<rparr>"
    have "nat (rehashidx d + 1) = Suc (nat (rehashidx d))" using w(5) by simp
    then have "dict_wf t ?d" using w lt True by (intro wf_rehashingI [of _ bs0 bs1]) (auto simp: less_Suc_eq)
    moreover have "rehashed d ?d" by (simp add: rehashed_def dict_entries_def tab_def)
    moreover have "rehashidx ?d \<noteq> - 1" "0 < ht_used ?d 0" using w(5) 1(4) by simp_all
    moreover have s: "skip_empty d visits = (if visits - 1 = 0 then Inr (?d, visits - 1, True) else skip_empty ?d (visits - 1))"
      using b True by (subst skip_empty.simps) simp
    ultimately show ?thesis
    proof (cases "visits - 1 = 0")
      case False
      with 1(1) [OF b True refl False] \<open>dict_wf t ?d\<close> \<open>rehashidx ?d \<noteq> - 1\<close> \<open>0 < ht_used ?d 0\<close> obtain d' visits' out where
        ih: "skip_empty ?d (visits - 1) = Inr (d', visits', out)" "dict_wf t d'" "rehashed ?d d'" "rehashidx d' \<noteq> - 1" "d' = ?d\<lparr>rehashidx := rehashidx d'\<rparr>"
        "rehashidx ?d \<le> rehashidx d'" "out \<or> (\<exists>b. bucket d' 0 (rehashidx d') = Inr b \<and> b \<noteq> [])" by blast
      from ih(5) have "d' = d\<lparr>rehashidx := rehashidx d'\<rparr>" by simp
      moreover have "rehashed d d'" using \<open>rehashed d ?d\<close> ih(3) by (rule rehashed_trans)
      moreover have "rehashidx d < rehashidx d'" using ih(6) by simp
      ultimately show ?thesis using ih(2,4,7) unfolding s if_not_P [OF False] ih(1) by (intro exI conjI) (rule refl | assumption | simp)+
    qed auto
  qed
qed

definition dict_small :: "('k, 'v) dict \<Rightarrow> bool" where
  "dict_small d \<longleftrightarrow> length (dict_entries d) < 2 ^ 60"

lemma rehashed_length: "rehashed d d' \<Longrightarrow> length (dict_entries d') = length (dict_entries d)"
  using size_pairs [of "dict_entries d"] size_pairs [of "dict_entries d'"] by (simp add: rehashed_def)

lemma rehashed_small: "rehashed d d' \<Longrightarrow> dict_small d' \<longleftrightarrow> dict_small d"
  by (simp add: dict_small_def rehashed_length)

lemma used_tab: "table_ok t d i \<Longrightarrow> ht_used d i = length (concat (tab d i))"
  by (cases "ht_table d i") (simp_all add: table_ok_def tbl_ok_def)

lemma used_le: "dict_wf t d \<Longrightarrow> ht_used d 0 + ht_used d 1 = length (dict_entries d)"
  using used_tab [of t d 0] used_tab [of t d 1] by (simp add: dict_wf_def dict_entries_def)

text \<open>One bucket: its chain moves, and it is left empty.\<close>

lemma rehash_bucket_ok:
  assumes t: "dict_type_ok t" and wf: "dict_wf t d" "rehashidx d \<noteq> - 1" and small: "dict_small d" and b: "bucket d 0 (rehashidx d) = Inr b"
  shows "\<exists>d1 d2. move_chain t d b = Inr d1 \<and> rehashidx d1 = rehashidx d \<and> set_bucket d1 0 (rehashidx d) [] = Inr d2 \<and> rehashidx d2 = rehashidx d \<and>
    dict_wf t (d2\<lparr>rehashidx := rehashidx d + 1\<rparr>) \<and> rehashed d (d2\<lparr>rehashidx := rehashidx d + 1\<rparr>)"
proof -
  from wf obtain bs0 bs1 where w: "ht_table d 0 = Some bs0" "ht_table d 1 = Some bs1"
    "tbl_ok t (ht_size_exp d 0) bs0 (ht_used d 0)" "tbl_ok t (ht_size_exp d 1) bs1 (ht_used d 1)"
    "0 \<le> rehashidx d" "rehashidx d \<le> int (length bs0)" "\<forall>j < nat (rehashidx d). bs0 ! j = []"
    "unique_keys t (pairs (concat bs0) + pairs (concat bs1))" by (rule wf_rehashing)
  define r where "r = nat (rehashidx d)"
  have idx: "rehashidx d = int r" using w(5) by (simp add: r_def)
  from b w(1) have r: "r < length bs0" and br: "b = bs0 ! r" by (auto simp: bucket_def idx split: if_splits)
  have "ht_size_exp d 0 \<le> 60" using w(3) by (simp add: tbl_ok_def)
  then have "(2 :: nat) ^ nat (ht_size_exp d 0) \<le> 2 ^ 60" by (intro power_increasing) auto
  then have r60: "rehashidx d < 2 ^ 60" using r tbl_okD(2) [OF w(3)] unfolding idx by simp
  have le: "length b \<le> ht_used d 0" using nth_length_le [OF r] tbl_okD(3) [OF w(3)] br by simp
  have u: "ht_used d 0 < 2 ^ 64" "ht_used d 1 + length b < 2 ^ 64" using used_le [OF wf(1)] small le by (simp_all add: dict_small_def)
  have slots: "\<forall>x \<in> set b. in_slot t (ht_size_exp d 0) (nat (rehashidx d)) x" using tbl_okD(6) [OF w(3) r] br by (simp add: r_def)
  from move_chain_ok [OF _ w(2,4) t slots w(5) r60 tbl_okD(1) [OF w(3)] le u] tbl_okD(5) [OF w(3) r] br obtain bs' where
    mv: "move_chain t d b = Inr (d\<lparr>ht_table := (ht_table d)(1 := Some bs'), ht_used := (ht_used d)(0 := ht_used d 0 - length b, 1 := ht_used d 1 + length b)\<rparr>)"
    "tbl_ok t (ht_size_exp d 1) bs' (ht_used d 1 + length b)" "pairs (concat bs') = pairs (concat bs1) + pairs b" by auto
  define d1 where "d1 = d\<lparr>ht_table := (ht_table d)(1 := Some bs'), ht_used := (ht_used d)(0 := ht_used d 0 - length b, 1 := ht_used d 1 + length b)\<rparr>"
  have f: "ht_table d1 0 = Some bs0" "rehashidx d1 = rehashidx d" using w(1) by (simp_all add: d1_def)
  define d2 where "d2 = d1\<lparr>ht_table := (ht_table d1)(0 := Some (bs0[r := []]))\<rparr>"
  have set: "set_bucket d1 0 (rehashidx d) [] = Inr d2" unfolding idx d2_def by (rule set_bucket_ok [OF f(1) r])
  have c: "pairs (concat (bs0[r := []])) + pairs b = pairs (concat bs0)" using concat_update [OF r, of "[]"] br by simp
  have ok: "tbl_ok t (ht_size_exp d 0) (bs0[r := []]) (ht_used d 0 - length b)" using tbl_put [OF w(3) r, of "[]"] br by simp
  have sum: "pairs (concat (bs0[r := []])) + pairs (concat bs') = pairs (concat bs0) + pairs (concat bs1)"
    unfolding mv(3) c [symmetric] by (simp add: ac_simps)
  have "unique_keys t (pairs (concat (bs0[r := []])) + pairs (concat bs'))" using w(8) unfolding sum .
  moreover have "nat (rehashidx d + 1) = Suc r" by (simp add: idx)
  moreover have "bs0[r := []] ! j = []" if "j < Suc r" for j using that w(7) r idx by (cases "j = r") auto
  ultimately have "dict_wf t (d2\<lparr>rehashidx := rehashidx d + 1\<rparr>)"
    using mv(2) r ok by (intro wf_rehashingI [of _ "bs0[r := []]" bs']) (simp_all add: d2_def d1_def idx)
  moreover have "rehashed d (d2\<lparr>rehashidx := rehashidx d + 1\<rparr>)"
    using w(1,2) sum by (simp add: rehashed_def dict_entries_def tab_def d2_def d1_def)
  ultimately show ?thesis using mv(1) set f(2) by (intro exI [of _ d1] exI [of _ d2]) (simp add: d1_def [symmetric] d2_def)
qed

lemma rehash_loop_ok:
  "dict_type_ok t \<Longrightarrow> dict_wf t d \<Longrightarrow> rehashidx d \<noteq> - 1 \<Longrightarrow> dict_small d \<Longrightarrow>
     \<exists>d' out. rehash_loop t d n visits = Inr (d', out) \<and> dict_wf t d' \<and> rehashed d d' \<and> rehashidx d' \<noteq> - 1 \<and>
       rehashidx d \<le> rehashidx d' \<and> (n = 0 \<or> ht_used d 0 = 0 \<or> rehashidx d < rehashidx d') \<and> (ht_used d 0 = 0 \<longrightarrow> d' = d \<and> \<not> out)"
proof (induction n arbitrary: d visits)
  case 0
  then show ?case by (intro exI [of _ d] exI [of _ False]) simp
next
  case (Suc n)
  show ?case
  proof (cases "ht_used d 0 = 0")
    case True
    with Suc.prems show ?thesis by auto
  next
    case False
    obtain bs0 bs1 where w: "ht_table d 0 = Some bs0" "tbl_ok t (ht_size_exp d 0) bs0 (ht_used d 0)" "0 \<le> rehashidx d" "\<forall>j < nat (rehashidx d). bs0 ! j = []"
      using wf_rehashing [OF Suc.prems(2,3)] by metis
    have "rehashidx d < int (length bs0)"
    proof (rule ccontr)
      assume "\<not> rehashidx d < int (length bs0)"
      then have "concat bs0 = []" using w(3,4) by (intro all_empty) simp
      with tbl_okD(3) [OF w(2)] False show False by simp
    qed
    then have a: "\<not> \<not> int (DICTHT_SIZE (ht_size_exp d 0)) > rehashidx d mod 2 ^ 64"
      using tbl_okD(1,2) [OF w(2)] zmod_le_nonneg_dividend [OF w(3), of "2 ^ 64"] by simp
    from skip_empty_ok [OF Suc.prems(2,3), of visits] False obtain d1 visits1 out where
      sk: "skip_empty d visits = Inr (d1, visits1, out)" "dict_wf t d1" "rehashed d d1" "rehashidx d1 \<noteq> - 1" "rehashidx d \<le> rehashidx d1"
      "out \<Longrightarrow> rehashidx d < rehashidx d1" "out \<or> (\<exists>b. bucket d1 0 (rehashidx d1) = Inr b)" by auto
    note step = rehash_loop.simps(2) [of t d n visits] if_not_P [OF False] if_not_P [OF a] sk(1) c_bind_simps prod.case
    show ?thesis
    proof (cases out)
      case True
      with sk \<open>ht_used d 0 \<noteq> 0\<close> show ?thesis unfolding step by auto
    next
      case False
      with sk(7) obtain b where b: "bucket d1 0 (rehashidx d1) = Inr b" by auto
      have small: "dict_small d1" using Suc.prems(4) rehashed_small [OF sk(3)] by simp
      from rehash_bucket_ok [OF Suc.prems(1) sk(2,4) small b] obtain d2 d3 where
        mv: "move_chain t d1 b = Inr d2" "rehashidx d2 = rehashidx d1" "set_bucket d2 0 (rehashidx d1) [] = Inr d3" "rehashidx d3 = rehashidx d1"
        "dict_wf t (d3\<lparr>rehashidx := rehashidx d1 + 1\<rparr>)" "rehashed d1 (d3\<lparr>rehashidx := rehashidx d1 + 1\<rparr>)" by blast
      let ?d = "d3\<lparr>rehashidx := rehashidx d1 + 1\<rparr>"
      have nn: "0 \<le> rehashidx d1" using w(3) sk(5) by simp
      have ne: "rehashidx ?d \<noteq> - 1" and sm: "dict_small ?d" using nn small rehashed_small [OF mv(6)] by simp_all
      from Suc.IH [OF Suc.prems(1) mv(5) ne sm, of visits1] obtain d' out' where
        ih: "rehash_loop t ?d n visits1 = Inr (d', out')" "dict_wf t d'" "rehashed ?d d'" "rehashidx d' \<noteq> - 1" "rehashidx ?d \<le> rehashidx d'" by blast
      have "rehashed d d'" using sk(3) mv(6) ih(3) by (blast intro: rehashed_trans)
      moreover have "rehash_loop t d (Suc n) visits = Inr (d', out')"
        unfolding step if_not_P [OF False] b mv(1-4) ih(1) by simp
      moreover have "rehashidx d < rehashidx d'" using ih(5) sk(5) by simp
      ultimately show ?thesis using ih(2,4) \<open>ht_used d 0 \<noteq> 0\<close> by (intro exI [of _ d'] exI [of _ out']) simp
    qed
  qed
qed

text \<open>
  A call that returns 1 has moved on in table 0, so calling again and again ends.
\<close>

lemma rehash_ok:
  assumes t: "dict_type_ok t" and wf: "dict_wf t d" and small: "dict_small d"
  shows "\<exists>d' more. dictRehash t can d n = Inr (d', more) \<and> dict_wf t d' \<and> rehashed d d' \<and>
    (more \<and> 0 < n \<longrightarrow> rehashidx d < rehashidx d' \<and> rehashidx d' \<le> int (length (tab d' 0))) \<and> (\<not> dictIsRehashing d \<longrightarrow> d' = d)"
proof -
  define skip where "skip \<longleftrightarrow> can = DICT_RESIZE_FORBID \<or> \<not> dictIsRehashing d"
  define avoid where "avoid \<longleftrightarrow> can = DICT_RESIZE_AVOID \<and> (DICTHT_SIZE (ht_size_exp d 1) > DICTHT_SIZE (ht_size_exp d 0) \<and>
      DICTHT_SIZE (ht_size_exp d 1) div DICTHT_SIZE (ht_size_exp d 0) < dict_force_resize_ratio \<or>
    DICTHT_SIZE (ht_size_exp d 1) < DICTHT_SIZE (ht_size_exp d 0) \<and> DICTHT_SIZE (ht_size_exp d 0) div DICTHT_SIZE (ht_size_exp d 1) < dict_force_resize_ratio)"
  note def = dictRehash_def [of t can d n] Let_def skip_def [symmetric] avoid_def [symmetric]
  consider skip | "\<not> skip" avoid | "\<not> skip" "\<not> avoid" by blast
  then show ?thesis
  proof cases
    case 3
    then have re: "rehashidx d \<noteq> - 1" by (simp add: skip_def dictIsRehashing_def)
    from rehash_loop_ok [OF t wf re small, of n "int n * 10"] obtain d' out where
      l: "rehash_loop t d n (int n * 10) = Inr (d', out)" "dict_wf t d'" "rehashed d d'" "rehashidx d' \<noteq> - 1" "rehashidx d \<le> rehashidx d'"
      "n = 0 \<or> ht_used d 0 = 0 \<or> rehashidx d < rehashidx d'" "ht_used d 0 = 0 \<longrightarrow> d' = d \<and> \<not> out" by auto
    obtain bs0 bs1 where w: "ht_table d' 0 = Some bs0" "ht_table d' 1 = Some bs1"
      "tbl_ok t (ht_size_exp d' 0) bs0 (ht_used d' 0)" "tbl_ok t (ht_size_exp d' 1) bs1 (ht_used d' 1)"
      "rehashidx d' \<le> int (length bs0)" "unique_keys t (pairs (concat bs0) + pairs (concat bs1))"
      using wf_rehashing [OF l(2,4)] by metis
    show ?thesis
    proof (cases "\<not> out \<and> ht_used d' 0 = 0")
      case True
      let ?d = "(dictReset 1 (d'\<lparr>ht_table := (ht_table d')(0 := ht_table d' 1), ht_used := (ht_used d')(0 := ht_used d' 1),
        ht_size_exp := (ht_size_exp d')(0 := ht_size_exp d' 1)\<rparr>))\<lparr>rehashidx := - 1\<rparr>"
      have "size (pairs (concat bs0)) = 0" using True tbl_okD(3) [OF w(3)] by (simp only: size_pairs)
      then have "pairs (concat bs0) = {#}" by (simp only: size_eq_0_iff_empty)
      then have "dict_wf t ?d" "rehashed d' ?d" using w
        by (simp_all add: dict_wf_def table_ok_def dict_entries_def tab_def dictReset_def rehashed_def)
      moreover have "dictRehash t can d n = Inr (?d, False)" unfolding def using 3 True l(1) by simp
      ultimately show ?thesis using l(3) re by (intro exI [of _ ?d] exI [of _ False]) (auto intro: rehashed_trans simp: dictIsRehashing_def)
    next
      case False
      then have "dictRehash t can d n = Inr (d', True)" unfolding def using 3 l(1) by auto
      moreover have "rehashidx d < rehashidx d'" if "0 < n" using False l(6,7) that by auto
      ultimately show ?thesis using l(2,3) w(1,5) re by (intro exI [of _ d'] exI [of _ True]) (simp add: dictIsRehashing_def)
    qed
  qed (use wf in \<open>auto simp: def dictIsRehashing_def skip_def\<close>)
qed

lemma rehash_if_needed_ok:
  assumes "dict_type_ok t" and "dict_wf t d" and "dict_small d"
  shows "\<exists>d'. rehash_if_needed t can d = Inr d' \<and> dict_wf t d' \<and> rehashed d d' \<and> dict_small d'"
proof -
  obtain d' more where "dictRehash t can d 1 = Inr (d', more)" "dict_wf t d'" "rehashed d d'"
    using rehash_ok [OF assms] by blast
  then show ?thesis using assms by (auto simp: rehash_if_needed_def dictRehashStep_def rehashed_small)
qed

section \<open>Search\<close>

text \<open>A position that names an entry.\<close>

fun pos_ok :: "('k, 'v) dict \<Rightarrow> position \<Rightarrow> ('k, 'v) dictEntry \<Rightarrow> bool" where
  "pos_ok d (i, idx, n) e \<longleftrightarrow> i \<le> 1 \<and> 0 \<le> idx \<and> idx < int (length (tab d i)) \<and> n < length (tab d i ! nat idx) \<and> tab d i ! nat idx ! n = e"

lemma find_in_table:
  fixes t :: "('k, 'v) dictType" and key :: 'k
  assumes t: "dict_type_ok t" and w: "ht_table d i = Some bs" "tbl_ok t (ht_size_exp d i) bs (ht_used d i)"
  defines "j \<equiv> unat (hashFunction t key) mod 2 ^ nat (ht_size_exp d i)"
  shows "bucket d i (slot d i (hashFunction t key)) = Inr (bs ! j)" and "slot d i (hashFunction t key) = int j" and "j < length bs"
    and "chain_find t key (bs ! j) = Some n \<Longrightarrow> n < length (bs ! j) \<and> same_key t key (entry_key (bs ! j ! n))"
    and "chain_find t key (bs ! j) = None \<Longrightarrow> e \<in> set (concat bs) \<Longrightarrow> \<not> same_key t key (entry_key e)"
proof -
  note wd = tbl_okD [OF w(2)]
  show s: "slot d i (hashFunction t key) = int j" unfolding j_def by (rule slot_eq [OF wd(1)])
  show j: "j < length bs" unfolding j_def by (rule wd(4))
  show "bucket d i (slot d i (hashFunction t key)) = Inr (bs ! j)" unfolding s by (rule bucket_ok [OF w(1) j])
  show "n < length (bs ! j) \<and> same_key t key (entry_key (bs ! j ! n))" if "chain_find t key (bs ! j) = Some n"
    using chain_find_Some [OF wd(5) [OF j] that] .
  show "\<not> same_key t key (entry_key e)" if "chain_find t key (bs ! j) = None" "e \<in> set (concat bs)"
  proof
    assume same: "same_key t key (entry_key e)"
    from that(2) obtain b where "b \<in> set bs" "e \<in> set b" by auto
    moreover from this(1) obtain k where "k < length bs" "bs ! k = b" by (auto simp: in_set_conv_nth)
    ultimately have k: "k < length bs" "e \<in> set (bs ! k)" by simp_all
    then have "k = j" using wd(6) [OF k] type_okD(2) [OF t same] by (simp add: j_def)
    with chain_find_None [OF wd(5) [OF j] that(1)] k same show False by simp
  qed
qed

lemma dict_search_ok:
  assumes t: "dict_type_ok t" and wf: "dict_wf t d" and ne: "ht_table d 0 \<noteq> None"
  shows "\<exists>r. dict_search t d key = Inr r \<and> (case r of
      Some p \<Rightarrow> \<exists>e. pos_ok d p e \<and> same_key t key (entry_key e)
    | None \<Rightarrow> \<forall>e \<in> set (dict_entries d). \<not> same_key t key (entry_key e))"
proof -
  from ne obtain bs0 where b0: "ht_table d 0 = Some bs0" by auto
  have t0: "tbl_ok t (ht_size_exp d 0) bs0 (ht_used d 0)" using wf b0 by (simp add: dict_wf_def table_ok_def)
  note f0 = find_in_table [OF t b0 t0, of key]
  define j0 where "j0 = unat (hashFunction t key) mod 2 ^ nat (ht_size_exp d 0)"
  note search = dict_search_def [of t d key] Let_def f0(1) [folded j0_def] c_bind_simps
  show ?thesis
  proof (cases "chain_find t key (bs0 ! j0)")
    case (Some n)
    have "dict_search t d key = Inr (Some (0, int j0, n))" unfolding search Some option.case unfolding j0_def f0(2) ..
    moreover have "pos_ok d (0, int j0, n) (bs0 ! j0 ! n)" "same_key t key (entry_key (bs0 ! j0 ! n))"
      using f0(3,4) Some b0 by (simp_all add: j0_def)
    ultimately show ?thesis by auto
  next
    case None
    then have none: "\<forall>e \<in> set (concat bs0). \<not> same_key t key (entry_key e)" using f0(5) by (simp add: j0_def)
    show ?thesis
    proof (cases "rehashidx d = - 1")
      case True
      then have "ht_table d 1 = None" using wf by (simp add: dict_wf_def)
      moreover have "dict_search t d key = Inr None" unfolding search None option.case using True by (simp add: dictIsRehashing_def)
      ultimately show ?thesis using none b0 by (simp add: dict_entries_def)
    next
      case False
      then obtain bs1 where b1: "ht_table d 1 = Some bs1" using wf by (auto simp: dict_wf_def)
      have t1: "tbl_ok t (ht_size_exp d 1) bs1 (ht_used d 1)" using wf b1 by (simp add: dict_wf_def table_ok_def)
      note f1 = find_in_table [OF t b1 t1, of key]
      define j1 where "j1 = unat (hashFunction t key) mod 2 ^ nat (ht_size_exp d 1)"
      have nf: "\<not> \<not> dictIsRehashing d" using False by (simp add: dictIsRehashing_def)
      note search1 = search None option.case if_not_P [OF nf] f1(1) [folded j1_def] c_bind_simps
      show ?thesis
      proof (cases "chain_find t key (bs1 ! j1)")
        case (Some n)
        have "dict_search t d key = Inr (Some (1, int j1, n))" unfolding search1 Some option.map unfolding j1_def f1(2) ..
        moreover have "pos_ok d (1, int j1, n) (bs1 ! j1 ! n)" "same_key t key (entry_key (bs1 ! j1 ! n))"
          using f1(3,4) Some b1 by (simp_all add: j1_def)
        ultimately show ?thesis by auto
      next
        case n1: None
        then have "\<forall>e \<in> set (concat bs1). \<not> same_key t key (entry_key e)" using f1(5) by (simp add: j1_def)
        moreover have "dict_search t d key = Inr None" unfolding search1 n1 option.map ..
        ultimately show ?thesis using none b0 b1 by (auto simp: dict_entries_def)
      qed
    qed
  qed
qed

section \<open>The map a dictionary stands for\<close>

definition dict_map :: "('k, 'v) dictType \<Rightarrow> ('k, 'v) dict \<Rightarrow> 'k \<Rightarrow> 'v option option" where
  "dict_map t d k = map_option entry_val (List.find (\<lambda>e. same_key t k (entry_key e)) (dict_entries d))"

definition map_put :: "('k, 'v) dictType \<Rightarrow> 'k \<Rightarrow> 'x \<Rightarrow> ('k \<Rightarrow> 'x option) \<Rightarrow> 'k \<Rightarrow> 'x option" where
  "map_put t k x m = (\<lambda>k'. if same_key t k' k then Some x else m k')"

definition map_del :: "('k, 'v) dictType \<Rightarrow> 'k \<Rightarrow> ('k \<Rightarrow> 'x option) \<Rightarrow> 'k \<Rightarrow> 'x option" where
  "map_del t k m = (\<lambda>k'. if same_key t k' k then None else m k')"

lemma unique_two:
  assumes "unique_keys t C" and "same_key t k (fst p)" and "same_key t k (fst q)" and "p \<in># C" and "q \<in># C"
  shows "p = q"
proof (rule ccontr)
  assume "p \<noteq> q"
  let ?F = "filter_mset (\<lambda>p. same_key t k (fst p)) C"
  have "p \<in># ?F" "q \<in># ?F" using assms by auto
  then obtain D where D: "?F = add_mset p D" by (metis mset_add)
  with \<open>q \<in># ?F\<close> \<open>p \<noteq> q\<close> have "q \<in># D" by auto
  then have "1 \<le> size D" by (metis One_nat_def Suc_leI nonempty_has_size multi_member_split add_mset_not_empty)
  then have "2 \<le> size ?F" unfolding D by simp
  moreover have "size ?F \<le> 1" using assms(1) by (simp add: unique_keys_def)
  ultimately show False by simp
qed

lemma unique_mono: "unique_keys t C \<Longrightarrow> D \<subseteq># C \<Longrightarrow> unique_keys t D"
  unfolding unique_keys_def by (meson le_trans multiset_filter_mono size_mset_mono)

lemma unique_add:
  assumes t: "dict_type_ok t" and C: "unique_keys t C" and new: "\<forall>p \<in># C. \<not> same_key t k (fst p)"
  shows "unique_keys t (add_mset (k, x) C)"
  unfolding unique_keys_def
proof
  fix k'
  have "filter_mset (\<lambda>p. same_key t k' (fst p)) C = {#}" if "same_key t k' k"
  proof -
    have "\<not> same_key t k' (fst p)" if "p \<in># C" for p
      using new that type_okD(1) [OF t \<open>same_key t k' k\<close>] type_okD(3) [OF t, of k k' "fst p"] by blast
    then show ?thesis by simp
  qed
  then show "size (filter_mset (\<lambda>p. same_key t k' (fst p)) (add_mset (k, x) C)) \<le> 1"
    using C by (cases "same_key t k' k") (simp_all add: unique_keys_def)
qed

lemma unique_value: "unique_keys t (add_mset (k, x) C) \<Longrightarrow> unique_keys t (add_mset (k, y) C)"
  unfolding unique_keys_def
proof
  fix k' assume "\<forall>k'. size (filter_mset (\<lambda>p. same_key t k' (fst p)) (add_mset (k, x) C)) \<le> 1"
  then have "size (filter_mset (\<lambda>p. same_key t k' (fst p)) (add_mset (k, x) C)) \<le> 1" by blast
  then show "size (filter_mset (\<lambda>p. same_key t k' (fst p)) (add_mset (k, y) C)) \<le> 1" by (cases "same_key t k' k") simp_all
qed

lemma in_pairs: "(k, x) \<in># pairs es \<longleftrightarrow> (\<exists>e \<in> set es. entry_key e = k \<and> entry_val e = x)"
  by (auto simp: pairs_def)

lemma map_None: "dict_map t d k = None \<longleftrightarrow> (\<forall>p \<in># pairs (dict_entries d). \<not> same_key t k (fst p))"
  by (auto simp: dict_map_def find_None_iff pairs_def)

lemma map_Some:
  assumes "unique_keys t (pairs (dict_entries d))"
  shows "dict_map t d k = Some x \<longleftrightarrow> (\<exists>k'. (k', x) \<in># pairs (dict_entries d) \<and> same_key t k k')"
proof
  assume "dict_map t d k = Some x"
  then obtain e where e: "List.find (\<lambda>e. same_key t k (entry_key e)) (dict_entries d) = Some e" "entry_val e = x" by (auto simp: dict_map_def)
  then have "e \<in> set (dict_entries d)" "same_key t k (entry_key e)" by (auto simp: find_Some_iff)
  with e(2) show "\<exists>k'. (k', x) \<in># pairs (dict_entries d) \<and> same_key t k k'" by (auto simp: in_pairs)
next
  assume "\<exists>k'. (k', x) \<in># pairs (dict_entries d) \<and> same_key t k k'"
  then obtain k' where k': "(k', x) \<in># pairs (dict_entries d)" "same_key t k k'" by blast
  then have "dict_map t d k \<noteq> None" unfolding map_None by force
  then obtain e where e: "List.find (\<lambda>e. same_key t k (entry_key e)) (dict_entries d) = Some e" by (auto simp: dict_map_def)
  then have "(entry_key e, entry_val e) \<in># pairs (dict_entries d)" "same_key t k (entry_key e)" by (auto simp: find_Some_iff in_pairs)
  with unique_two [OF assms, of k "(k', x)" "(entry_key e, entry_val e)"] k' have "entry_val e = x" by simp
  with e show "dict_map t d k = Some x" by (simp add: dict_map_def)
qed

lemma dict_map_cong:
  assumes "unique_keys t (pairs (dict_entries d))" and "pairs (dict_entries d') = pairs (dict_entries d)"
  shows "dict_map t d' = dict_map t d"
proof
  fix k show "dict_map t d' k = dict_map t d k"
  proof (cases "dict_map t d k")
    case None
    then have "dict_map t d' k = None" using assms(2) by (simp add: map_None)
    with None show ?thesis by simp
  next
    case (Some x)
    then have "dict_map t d' k = Some x" using assms by (simp add: map_Some)
    with Some show ?thesis by simp
  qed
qed

lemma map_added:
  assumes t: "dict_type_ok t" and u: "unique_keys t (pairs (dict_entries d'))" "unique_keys t (pairs (dict_entries d))"
    and p: "pairs (dict_entries d') = add_mset (k0, x) (pairs (dict_entries d))" and k: "same_key t k k0"
  shows "dict_map t d' = map_put t k x (dict_map t d)"
proof
  fix k'
  have c: "same_key t k' k0 \<longleftrightarrow> same_key t k' k" using type_okD(1,3) [OF t] k by blast
  show "dict_map t d' k' = map_put t k x (dict_map t d) k'"
  proof (cases "same_key t k' k")
    case True
    then have "dict_map t d' k' = Some x" using c p by (auto simp: map_Some [OF u(1)])
    with True show ?thesis by (simp add: map_put_def)
  next
    case False
    have "dict_map t d' k' = dict_map t d k'"
    proof (cases "dict_map t d k'")
      case None
      then have "dict_map t d' k' = None" using False c p by (simp add: map_None)
      with None show ?thesis by simp
    next
      case (Some y)
      then have "dict_map t d' k' = Some y" using p by (auto simp: map_Some [OF u(1)] map_Some [OF u(2)])
      with Some show ?thesis by simp
    qed
    with False show ?thesis by (simp add: map_put_def)
  qed
qed

lemma map_removed:
  assumes t: "dict_type_ok t" and u: "unique_keys t (pairs (dict_entries d))"
    and p: "add_mset (k0, x) (pairs (dict_entries d')) = pairs (dict_entries d)" and k: "same_key t k k0"
  shows "dict_map t d' = map_del t k (dict_map t d)"
proof
  fix k'
  have u': "unique_keys t (pairs (dict_entries d'))" using unique_mono [OF u] p by (metis mset_subset_eq_add_right add_mset_add_single union_commute)
  have c: "same_key t k' k0 \<longleftrightarrow> same_key t k' k" using type_okD(1,3) [OF t] k by blast
  show "dict_map t d' k' = map_del t k (dict_map t d) k'"
  proof (cases "same_key t k' k")
    case True
    have "\<not> same_key t k' (fst q)" if "q \<in># pairs (dict_entries d')" for q
    proof
      assume q: "same_key t k' (fst q)"
      from u have "size (filter_mset (\<lambda>p. same_key t k' (fst p)) (add_mset (k0, x) (pairs (dict_entries d')))) \<le> 1"
        unfolding p unique_keys_def by blast
      then have "filter_mset (\<lambda>p. same_key t k' (fst p)) (pairs (dict_entries d')) = {#}" using True c by simp
      with that q show False by (cases q) auto
    qed
    then show ?thesis using True by (simp add: map_del_def map_None)
  next
    case False
    have "dict_map t d' k' = dict_map t d k'"
    proof (cases "dict_map t d' k'")
      case None
      then have "dict_map t d k' = None" using False c unfolding map_None p [symmetric] by simp
      with None show ?thesis by simp
    next
      case (Some y)
      then have "dict_map t d k' = Some y" unfolding map_Some [OF u] map_Some [OF u'] p [symmetric] by auto
      with Some show ?thesis by simp
    qed
    with False show ?thesis by (simp add: map_del_def)
  qed
qed

lemma map_put_del: "map_put t k x (map_del t k m) = map_put t k x m"
  by (simp add: map_put_def map_del_def fun_eq_iff)

section \<open>Changing one bucket\<close>

lemma wf_put:
  assumes wf: "dict_wf t d" and i: "i \<le> 1" and b: "ht_table d i = Some bs" "j < length bs" "chain_ok t b" "\<And>x. x \<in> set b \<Longrightarrow> in_slot t (ht_size_exp d i) j x"
    and r: "i = 0 \<Longrightarrow> int j < rehashidx d \<Longrightarrow> b = []"
  defines "d' \<equiv> d\<lparr>ht_table := (ht_table d)(i := Some (bs[j := b])), ht_used := (ht_used d)(i := ht_used d i + length b - length (bs ! j))\<rparr>"
  shows "pairs (dict_entries d') + pairs (bs ! j) = pairs (dict_entries d) + pairs b"
    and "unique_keys t (pairs (dict_entries d')) \<Longrightarrow> dict_wf t d'"
proof -
  from i have "i = 0 \<or> i = 1" by linarith
  with wf b(1) have ok: "tbl_ok t (ht_size_exp d i) bs (ht_used d i)" by (elim disjE) (auto simp: dict_wf_def table_ok_def)
  have ok': "tbl_ok t (ht_size_exp d' i) (bs[j := b]) (ht_used d' i)" using tbl_put [OF ok b(2-4)] by (simp add: d'_def)
  from i consider "i = 0" | "i = 1" by linarith
  then show "pairs (dict_entries d') + pairs (bs ! j) = pairs (dict_entries d) + pairs b"
    using concat_update [OF b(2), of b] b(1) by cases (simp_all add: dict_entries_def tab_def d'_def ac_simps)
  assume u: "unique_keys t (pairs (dict_entries d'))"
  from i consider "i = 0" | "i = 1" by linarith
  then show "dict_wf t d'"
  proof cases
    case 1
    have "bs[j := b] ! k = []" if "k < nat (rehashidx d)" "rehashidx d \<noteq> - 1" for k
      using wf b(1,2) r that 1 by (cases "k = j") (auto simp: dict_wf_def)
    with wf u ok' b(1) 1 show ?thesis by (auto simp: dict_wf_def table_ok_def tab_def d'_def)
  next
    case 2
    with wf u ok' b(1) show ?thesis by (auto simp: dict_wf_def table_ok_def tab_def d'_def)
  qed
qed

lemma pos_okE:
  assumes wf: "dict_wf t d" and p: "pos_ok d (i, idx, n) e"
  obtains bs j where "ht_table d i = Some bs" "idx = int j" "j < length bs" "n < length (bs ! j)" "bs ! j ! n = e" "i \<le> 1"
    "tbl_ok t (ht_size_exp d i) bs (ht_used d i)" "chain_ok t (bs ! j)" "i = 0 \<Longrightarrow> \<not> int j < rehashidx d"
proof -
  from p obtain bs where b: "ht_table d i = Some bs" by (cases "ht_table d i") auto
  let ?j = "nat idx"
  have f: "idx = int ?j" "?j < length bs" "n < length (bs ! ?j)" "bs ! ?j ! n = e" "i \<le> 1" using p b by auto
  from f(5) have "i = 0 \<or> i = 1" by linarith
  with wf b have ok: "tbl_ok t (ht_size_exp d i) bs (ht_used d i)" by (elim disjE) (auto simp: dict_wf_def table_ok_def)
  moreover have "\<not> int ?j < rehashidx d" if "i = 0" using wf b f(3) that by (auto simp: dict_wf_def split: if_splits)
  ultimately show thesis using that b f tbl_okD(5) [OF ok f(2)] by blast
qed

lemma pairs_split: "n < length b \<Longrightarrow> pairs b = add_mset (entry_key (b ! n), entry_val (b ! n)) (pairs (take n b @ drop (Suc n) b))"
  using arg_cong [OF id_take_nth_drop [of n b], of pairs] by simp

lemma dict_unlink_ok:
  assumes wf: "dict_wf t d" and p: "pos_ok d p e" and small: "dict_small d"
  shows "\<exists>d'. unlink_at d p = Inr d' \<and> dict_wf t d' \<and> add_mset (entry_key e, entry_val e) (pairs (dict_entries d')) = pairs (dict_entries d) \<and>
    pauserehash d' = pauserehash d \<and> dictTwoPhaseUnlinkFree (dictPauseRehashing d) p = Inr d'"
proof -
  obtain i idx n where p': "p = (i, idx, n)" by (cases p)
  from pos_okE [OF wf p [unfolded p']] obtain bs j where w: "ht_table d i = Some bs" "idx = int j" "j < length bs" "n < length (bs ! j)" "bs ! j ! n = e" "i \<le> 1"
    "tbl_ok t (ht_size_exp d i) bs (ht_used d i)" "chain_ok t (bs ! j)" "i = 0 \<Longrightarrow> \<not> int j < rehashidx d" by blast
  let ?b = "take n (bs ! j) @ drop (Suc n) (bs ! j)"
  note un = chain_unlink_ok [OF w(8,4)]
  have le: "length (bs ! j) \<le> ht_used d i" using nth_length_le [OF w(3)] tbl_okD(3) [OF w(7)] by simp
  have "ht_used d i \<le> length (dict_entries d)" using used_le [OF wf] w(6) by (cases "i = 0") (auto simp: le_less less_Suc_eq_le)
  then have u: "0 < ht_used d i" "ht_used d i < 2 ^ 64" using le w(4) small by (auto simp: dict_small_def)
  define d' where "d' = d\<lparr>ht_table := (ht_table d)(i := Some (bs[j := ?b])), ht_used := (ht_used d)(i := ht_used d i + length ?b - length (bs ! j))\<rparr>"
  have slots: "in_slot t (ht_size_exp d i) j x" if "x \<in> set ?b" for x
    using tbl_okD(6) [OF w(7,3), of x] that by (auto dest: in_set_takeD in_set_dropD)
  have r: "?b = []" if "i = 0" "int j < rehashidx d" using w(9) that by blast
  note put = wf_put [OF wf w(6,1,3) un(2) slots r, folded d'_def]
  have cnt: "ht_used d i + length ?b - length (bs ! j) = ht_used d i - 1" using w(4) le by simp
  have "unlink_at d p = Inr d'"
    unfolding p' unlink_at.simps w(2) bucket_ok [OF w(1,3)] c_bind_simps un(1) set_bucket_ok [OF w(1,3)]
    unfolding d'_def cnt using used_simps(1) [of "d\<lparr>ht_table := (ht_table d)(i := Some (bs[j := ?b]))\<rparr>" i] u by simp
  moreover have pairs: "add_mset (entry_key e, entry_val e) (pairs (dict_entries d')) = pairs (dict_entries d)"
    using put(1) pairs_split [OF w(4)] w(5) by simp
  moreover have "unique_keys t (pairs (dict_entries d'))"
  proof (rule unique_mono)
    show "unique_keys t (pairs (dict_entries d))" using wf by (simp add: dict_wf_def)
    show "pairs (dict_entries d') \<subseteq># pairs (dict_entries d)" unfolding pairs [symmetric] by simp
  qed
  moreover have "dictTwoPhaseUnlinkFree (dictPauseRehashing d) p = Inr d'"
  proof -
    let ?d = "d\<lparr>pauserehash := pauserehash d + 1, ht_used := (ht_used d)(i := ht_used d i - 1)\<rparr>"
    have "dec_used i (dictPauseRehashing d) = ?d" using used_simps(1) [of "dictPauseRehashing d" i] u by (simp add: dictPauseRehashing_def)
    moreover have "ht_table ?d i = Some bs" using w(1) by simp
    moreover have "d' = d\<lparr>ht_used := (ht_used d)(i := ht_used d i - 1), ht_table := (ht_table d)(i := Some (bs[j := ?b]))\<rparr>"
      unfolding d'_def cnt by simp
    ultimately show ?thesis using bucket_ok [of ?d i bs j] set_bucket_ok [of ?d i bs j ?b] w(3) un(3)
      by (simp add: dictTwoPhaseUnlinkFree_def p' w(2) dictResumeRehashing_def)
  qed
  ultimately show ?thesis using put(2) by (intro exI [of _ d']) (simp add: d'_def)
qed

lemma set_val_ok:
  fixes t :: "('k, 'v) dictType" and v :: 'v
  assumes wf: "dict_wf t d" and p: "pos_ok d p e" and has: "entryHasValue e"
  defines "y \<equiv> (case valDup t of None \<Rightarrow> v | Some f \<Rightarrow> f v)"
  shows "\<exists>d' C. dictSetVal t d p v = Inr d' \<and> dict_wf t d' \<and> pairs (dict_entries d) = add_mset (entry_key e, entry_val e) C \<and>
    pairs (dict_entries d') = add_mset (entry_key e, Some y) C \<and> pauserehash d' = pauserehash d"
proof -
  obtain i idx n where p': "p = (i, idx, n)" by (cases p)
  from pos_okE [OF wf p [unfolded p']] obtain bs j where w: "ht_table d i = Some bs" "idx = int j" "j < length bs" "n < length (bs ! j)" "bs ! j ! n = e" "i \<le> 1"
    "tbl_ok t (ht_size_exp d i) bs (ht_used d i)" "chain_ok t (bs ! j)" "i = 0 \<Longrightarrow> \<not> int j < rehashidx d" by blast
  let ?e = "Normal (entry_key e) y" and ?b = "(bs ! j)[n := Normal (entry_key e) y]"
  have "entry_ok t e" using w(4,5,8) by (metis chain_ok.simps(2) chain_ok_append id_take_nth_drop)
  with has have ok: "entry_ok t ?e" "\<not> entryIsKey e" by (cases e; simp add: entry_ok_def split: if_splits)+
  have chain: "chain_ok t ?b" using w(4,5,8) ok by (intro chain_set_ok) simp_all
  have slots: "in_slot t (ht_size_exp d i) j x" if "x \<in> set ?b" for x
  proof -
    have "x \<in> set (bs ! j) \<or> x = ?e" using that set_update_subset_insert by fastforce
    moreover have "in_slot t (ht_size_exp d i) j e" using tbl_okD(6) [OF w(7,3), of e] w(4,5) nth_mem by blast
    ultimately show ?thesis using tbl_okD(6) [OF w(7,3), of x] by auto
  qed
  have r: "?b = []" if "i = 0" "int j < rehashidx d" using w(9) that by blast
  define d' where "d' = d\<lparr>ht_table := (ht_table d)(i := Some (bs[j := ?b])), ht_used := (ht_used d)(i := ht_used d i + length ?b - length (bs ! j))\<rparr>"
  note put = wf_put [OF wf w(6,1,3) chain slots r, folded d'_def]
  have len: "length ?b = length (bs ! j)" by simp
  have b': "pairs ?b = add_mset (entry_key e, Some y) (pairs (take n (bs ! j) @ drop (Suc n) (bs ! j)))"
    using pairs_split [of n ?b] w(4) by simp
  have "add_mset (entry_key e, entry_val e) (pairs (dict_entries d')) = add_mset (entry_key e, Some y) (pairs (dict_entries d))"
    using put(1) pairs_split [OF w(4)] b' w(5) by simp
  moreover have "e \<in> set (dict_entries d)"
  proof -
    have "e \<in> set (concat (tab d i))" using w(1,3-5) nth_mem [OF w(3)] nth_mem [OF w(4)] by auto
    moreover from w(6) have "i = 0 \<or> i = 1" by linarith
    ultimately show ?thesis unfolding dict_entries_def by (elim disjE) simp_all
  qed
  then have "(entry_key e, entry_val e) \<in># pairs (dict_entries d)" by (auto simp: in_pairs)
  then obtain C where C: "pairs (dict_entries d) = add_mset (entry_key e, entry_val e) C" by (metis mset_add)
  ultimately have C': "pairs (dict_entries d') = add_mset (entry_key e, Some y) C" by (simp add: add_mset_commute)
  have "unique_keys t (pairs (dict_entries d'))" using wf unfolding C' dict_wf_def C by (blast intro: unique_value)
  then have "dict_wf t d'" using put(2) by simp
  moreover have "dictSetVal t d p v = Inr d'"
  proof -
    have "(ht_used d)(i := ht_used d i + length ?b - length (bs ! j)) = ht_used d" unfolding len by (simp add: fun_upd_idem)
    then have "d' = d\<lparr>ht_table := (ht_table d)(i := Some (bs[j := ?b]))\<rparr>" by (simp add: d'_def)
    then show ?thesis using has w(4,5) bucket_ok [OF w(1,3)] set_bucket_ok [OF w(1,3), of ?b]
      by (simp add: dictSetVal_def p' w(2) y_def)
  qed
  ultimately show ?thesis using C C' by (intro exI [of _ d'] exI [of _ C]) (simp add: d'_def)
qed

section \<open>Expanding\<close>

lemma bit_length_upper: "n < 2 ^ bit_length n"
proof (induction n rule: bit_length.induct)
  case (1 n)
  show ?case
  proof (cases "n = 0")
    case False
    with 1 have "n div 2 < 2 ^ bit_length (n div 2)" by simp
    with False show ?thesis by (subst bit_length.simps) simp
  qed (simp add: bit_length.simps)
qed

lemma bit_length_le: "n < 2 ^ k \<Longrightarrow> bit_length n \<le> k"
proof (induction n arbitrary: k rule: bit_length.induct)
  case (1 n)
  show ?case
  proof (cases "n = 0")
    case False
    with 1(2) obtain k' where k: "k = Suc k'" by (cases k) auto
    with 1(2) have "n div 2 < 2 ^ k'" by simp
    with 1(1) False k show ?thesis by (subst bit_length.simps) simp
  qed (simp add: bit_length.simps)
qed

lemma bit_length_ge: "4 \<le> n \<Longrightarrow> 3 \<le> bit_length n"
  using bit_length_upper [of n] power_increasing [of "bit_length n" 2 "2 :: nat"] by (rule_tac ccontr) simp

lemma next_exp_range: "2 \<le> dictNextExp sz" "dictNextExp sz \<le> 63"
proof -
  have "3 \<le> bit_length (sz - 1)" if "\<not> sz \<le> 4" using that by (intro bit_length_ge) simp
  moreover have "bit_length (sz - 1) \<le> 63" if "\<not> sz \<ge> LONG_MAX" using that by (intro bit_length_le) simp
  ultimately show "2 \<le> dictNextExp sz" "dictNextExp sz \<le> 63" by (auto simp: dictNextExp_def clzl_def)
qed

lemma next_exp_fits: "sz < LONG_MAX \<Longrightarrow> sz \<le> 2 ^ nat (dictNextExp sz)"
proof -
  assume "sz < LONG_MAX"
  moreover have "sz \<le> 2 ^ bit_length (sz - 1)" using bit_length_upper [of "sz - 1"] by linarith
  ultimately show ?thesis by (auto simp: dictNextExp_def clzl_def)
qed

lemma next_exp_small: "sz \<le> 2 ^ 60 \<Longrightarrow> dictNextExp sz \<le> 60"
proof -
  assume "sz \<le> 2 ^ 60"
  moreover from this have "bit_length (sz - 1) \<le> 60" if "sz \<noteq> 0" using that by (intro bit_length_le) linarith
  ultimately show ?thesis by (auto simp: dictNextExp_def clzl_def)
qed

lemma no_overflow: "2 \<le> e \<Longrightarrow> e \<le> 63 \<Longrightarrow> \<not> 2 ^ nat e * 8 mod 2 ^ 64 < (2 :: nat) ^ nat e \<longleftrightarrow> e \<le> 60"
proof -
  assume e: "2 \<le> e" "e \<le> 63"
  have p: "(2 :: nat) ^ nat e * 8 = 2 ^ (nat e + 3)" by (simp add: power_add)
  show ?thesis
  proof (cases "e \<le> 60")
    case True
    then have "(2 :: nat) ^ (nat e + 3) < 2 ^ 64" by (intro power_strict_increasing) auto
    with True show ?thesis unfolding p by simp
  next
    case False
    then have "(2 :: nat) ^ 64 dvd 2 ^ (nat e + 3)" by (intro le_imp_power_dvd) simp
    with False show ?thesis unfolding p by (simp add: dvd_imp_mod_0)
  qed
qed

lemma empty_table: "2 \<le> e \<Longrightarrow> e \<le> 60 \<Longrightarrow> tbl_ok t e (replicate (2 ^ nat e) []) 0"
  by (simp add: tbl_ok_def)

lemma concat_replicate_Nil [simp]: "concat (replicate n []) = []"
  by simp

lemma expand_ok:
  assumes wf: "dict_wf t d"
  shows "dict_wf t (fst (dictExpand d sz))" and "rehashed d (fst (dictExpand d sz))" and "snd (dictExpand d sz) \<Longrightarrow> ht_table (fst (dictExpand d sz)) 0 \<noteq> None"
proof -
  define e where "e = dictNextExp sz"
  define stop where "stop \<longleftrightarrow> dictIsRehashing d \<or> ht_used d 0 > sz \<or> 2 ^ nat e < sz \<or> 2 ^ nat e * 8 mod 2 ^ 64 < (2 :: nat) ^ nat e \<or> e = ht_size_exp d 0"
  let ?T = "Some (replicate (2 ^ nat e) [])"
  have ex: "dictExpand d sz = (if stop then (d, False) else if ht_table d 0 = None then
      (d\<lparr>ht_size_exp := (ht_size_exp d)(0 := e), ht_used := (ht_used d)(0 := 0), ht_table := (ht_table d)(0 := ?T)\<rparr>, True)
    else (d\<lparr>ht_size_exp := (ht_size_exp d)(1 := e), ht_used := (ht_used d)(1 := 0), ht_table := (ht_table d)(1 := ?T), rehashidx := 0\<rparr>, True))"
    by (simp add: dictExpand_def Let_def e_def stop_def)
  have range: "2 \<le> e" "e \<le> 63" unfolding e_def by (rule next_exp_range)+
  have "dict_wf t (fst (dictExpand d sz)) \<and> rehashed d (fst (dictExpand d sz)) \<and> (snd (dictExpand d sz) \<longrightarrow> ht_table (fst (dictExpand d sz)) 0 \<noteq> None)"
  proof (cases stop)
    case False
    then have "e \<le> 60" "rehashidx d = - 1" using no_overflow [OF range] by (auto simp: stop_def dictIsRehashing_def)
    note new = empty_table [OF range(1) this(1), of t] and idle = this(2)
    have t1: "ht_table d 1 = None" using wf idle by (simp add: dict_wf_def)
    show ?thesis
    proof (cases "ht_table d 0")
      case None
      with False wf new idle t1 show ?thesis unfolding ex by (simp add: dict_wf_def table_ok_def rehashed_def dict_entries_def tab_def)
    next
      case (Some bs)
      with False wf new idle t1 show ?thesis unfolding ex by (simp add: dict_wf_def table_ok_def rehashed_def dict_entries_def tab_def)
    qed
  qed (simp add: ex wf)
  then show "dict_wf t (fst (dictExpand d sz))" "rehashed d (fst (dictExpand d sz))" "snd (dictExpand d sz) \<Longrightarrow> ht_table (fst (dictExpand d sz)) 0 \<noteq> None"
    by blast+
qed

lemma dict_resize_ok: "dict_wf t d \<Longrightarrow> dict_wf t (fst (dictResize can d)) \<and> rehashed d (fst (dictResize can d))"
  by (simp add: dictResize_def expand_ok)

lemma expand_if_needed_ok:
  assumes wf: "dict_wf t d" and small: "dict_small d"
  shows "\<exists>d'. dictExpandIfNeeded t can d = (d', True) \<and> dict_wf t d' \<and> rehashed d d' \<and> ht_table d' 0 \<noteq> None"
proof -
  let ?u = "ht_used d 0"
  have u: "?u < 2 ^ 60" using used_le [OF wf] small by (simp add: dict_small_def)
  have grow: "snd (dictExpand d n)" if "\<not> dictIsRehashing d" "?u \<le> n" "n \<le> 2 ^ 60" "2 ^ nat (dictNextExp n) \<noteq> DICTHT_SIZE (ht_size_exp d 0)" for n
  proof -
    have "dictNextExp n \<le> 60" using that(3) by (rule next_exp_small)
    then have "\<not> 2 ^ nat (dictNextExp n) * 8 mod 2 ^ 64 < (2 :: nat) ^ nat (dictNextExp n)" using no_overflow [OF next_exp_range] by blast
    moreover have "n \<le> 2 ^ nat (dictNextExp n)" using that(3) by (intro next_exp_fits) simp
    moreover have "dictNextExp n \<noteq> ht_size_exp d 0" using that(4) next_exp_range(1) [of n] by auto
    ultimately show ?thesis using that(1,2) by (auto simp: dictExpand_def Let_def)
  qed
  have res: "\<exists>d'. dictExpand d n = (d', True) \<and> dict_wf t d' \<and> rehashed d d' \<and> ht_table d' 0 \<noteq> None" if "snd (dictExpand d n)" for n
    using expand_ok [OF wf, of n] that by (cases "dictExpand d n") auto
  show ?thesis
  proof (cases "dictIsRehashing d")
    case True
    then have "ht_table d 0 \<noteq> None" using wf by (auto simp: dict_wf_def dictIsRehashing_def)
    with True wf show ?thesis by (simp add: dictExpandIfNeeded_def)
  next
    case idle: False
    show ?thesis
    proof (cases "ht_table d 0")
      case None
      then have "ht_size_exp d 0 = - 1" "?u = 0" using wf by (auto simp: dict_wf_def table_ok_def)
      then have "DICTHT_SIZE (ht_size_exp d 0) = 0" by (simp add: DICTHT_SIZE_def)
      with idle res [OF grow [OF idle, of DICT_HT_INITIAL_SIZE]] \<open>?u = 0\<close> show ?thesis by (simp add: dictExpandIfNeeded_def)
    next
      case (Some bs)
      then have "tbl_ok t (ht_size_exp d 0) bs ?u" using wf by (simp add: dict_wf_def table_ok_def)
      then have "0 \<le> ht_size_exp d 0" by (rule tbl_okD(1))
      then have s: "DICTHT_SIZE (ht_size_exp d 0) = 2 ^ nat (ht_size_exp d 0)" by simp
      define S where "S = (2 :: nat) ^ nat (ht_size_exp d 0)"
      have S0: "S \<noteq> 0" by (simp add: S_def)
      define need where "need \<longleftrightarrow> can = DICT_RESIZE_ENABLE \<and> ?u \<ge> S \<or> can \<noteq> DICT_RESIZE_FORBID \<and> ?u div S > dict_force_resize_ratio"
      have full: "S \<le> ?u" if need
      proof (rule ccontr)
        assume "\<not> S \<le> ?u"
        then have "?u div S = 0" by simp
        with that \<open>\<not> S \<le> ?u\<close> show False by (simp add: need_def)
      qed
      have "snd (dictExpand d (?u + 1))" if need
      proof (rule grow [OF idle])
        show "?u \<le> ?u + 1" "?u + 1 \<le> 2 ^ 60" using u by simp_all
        have "?u + 1 \<le> 2 ^ nat (dictNextExp (?u + 1))" using u by (intro next_exp_fits) simp
        with full [OF that] show "2 ^ nat (dictNextExp (?u + 1)) \<noteq> DICTHT_SIZE (ht_size_exp d 0)" unfolding s S_def [symmetric] by linarith
      qed
      note r = res [OF this]
      have def: "dictExpandIfNeeded t can d = (if need then if \<not> dictTypeExpandAllowed t d then (d, True) else dictExpand d (?u + 1) else (d, True))"
        unfolding dictExpandIfNeeded_def if_not_P [OF idle] s S_def [symmetric] if_not_P [OF S0] need_def ..
      show ?thesis
      proof (cases "need \<and> dictTypeExpandAllowed t d")
        case True
        with r show ?thesis unfolding def by simp
      next
        case False
        then have "dictExpandIfNeeded t can d = (d, True)" unfolding def by simp
        with wf Some show ?thesis by simp
      qed
    qed
  qed
qed

section \<open>Insertion\<close>

definition fresh_entry :: "('k, 'v) dictType \<Rightarrow> 'v \<Rightarrow> 'k \<Rightarrow> ('k, 'v) chain \<Rightarrow> ('k, 'v) dictEntry" where
  "fresh_entry t junk k b = (if no_value t then if keys_are_odd t \<and> b = [] then KeyPtr k else NoValue k else Normal k junk)"

lemma fresh_entry_ok:
  assumes "chain_ok t b"
  shows "chain_ok t (fresh_entry t junk k b # b)" and "entry_key (fresh_entry t junk k b) = k"
    and "entry_val (fresh_entry t junk k b) = (if no_value t then None else Some junk)"
  using assms by (auto simp: fresh_entry_def entry_ok_def)

lemma insert_at_ok:
  assumes t: "dict_type_ok t" and wf: "dict_wf t d" and small: "dict_small d" and ne: "ht_table d 0 \<noteq> None" and k: "hashFunction t k = h"
    and new: "\<forall>p \<in># pairs (dict_entries d). \<not> same_key t k (fst p)"
  defines "i \<equiv> (if dictIsRehashing d then 1 else 0)"
  shows "\<exists>d' p e. dictInsertAtPosition t junk d k (i, slot d i h) = Inr (d', p) \<and> dict_wf t d' \<and> pos_ok d' p e \<and> entry_key e = k \<and>
    entry_val e = (if no_value t then None else Some junk) \<and> pairs (dict_entries d') = add_mset (entry_key e, entry_val e) (pairs (dict_entries d)) \<and> pauserehash d' = pauserehash d"
proof -
  have i: "i \<le> 1" by (simp add: i_def)
  have "ht_table d i \<noteq> None" using wf ne by (simp add: i_def dict_wf_def dictIsRehashing_def split: if_splits)
  then obtain bs where b: "ht_table d i = Some bs" by blast
  have ok: "tbl_ok t (ht_size_exp d i) bs (ht_used d i)" using wf b by (auto simp: i_def dict_wf_def table_ok_def split: if_splits)
  define j where "j = unat h mod 2 ^ nat (ht_size_exp d i)"
  have j: "j < length bs" unfolding j_def by (rule tbl_okD(4) [OF ok])
  have slot: "slot d i h = int j" unfolding j_def by (rule slot_eq [OF tbl_okD(1) [OF ok]])
  define e where "e = fresh_entry t junk k (bs ! j)"
  note fr = fresh_entry_ok [OF tbl_okD(5) [OF ok j], of junk k, folded e_def]
  have slots: "in_slot t (ht_size_exp d i) j x" if "x \<in> set (e # bs ! j)" for x
    using that tbl_okD(6) [OF ok j, of x] fr(2) k by (auto simp: j_def)
  have r: "e # bs ! j = []" if "i = 0" "int j < rehashidx d" using that by (auto simp: i_def dictIsRehashing_def split: if_splits)
  define d' where "d' = d\<lparr>ht_table := (ht_table d)(i := Some (bs[j := e # bs ! j])), ht_used := (ht_used d)(i := ht_used d i + length (e # bs ! j) - length (bs ! j))\<rparr>"
  note put = wf_put [OF wf i b j fr(1) slots r, folded d'_def]
  have p: "pairs (dict_entries d') = add_mset (entry_key e, entry_val e) (pairs (dict_entries d))" using put(1) by simp
  have "unique_keys t (pairs (dict_entries d'))" unfolding p fr(2) using wf new by (intro unique_add [OF t]) (simp_all add: dict_wf_def)
  then have wf': "dict_wf t d'" using put(2) by simp
  have "ht_used d i \<le> length (dict_entries d)" using used_le [OF wf] by (auto simp: i_def)
  then have "ht_used d i + 1 < 2 ^ 64" using small by (simp add: dict_small_def)
  then have inc: "inc_used i (d\<lparr>ht_table := (ht_table d)(i := Some (bs[j := e # bs ! j]))\<rparr>) = d'"
    using used_simps(2) [of "d\<lparr>ht_table := (ht_table d)(i := Some (bs[j := e # bs ! j]))\<rparr>" i] by (simp add: d'_def Suc_eq_plus1)
  have bound: "int j \<le> int (DICTHT_SIZE_MASK (ht_size_exp d i))" using j tbl_okD(1,2) [OF ok] by simp
  have chain: "(if no_value t then if keys_are_odd t \<and> bs ! j = [] then if key_lsb t k then Inr [KeyPtr k] else Inl AssertFail else Inr (NoValue k # bs ! j)
      else Inr (Normal k junk # bs ! j)) = Inr (e # bs ! j)"
    using type_okD(5) [OF t] by (simp add: e_def fresh_entry_def)
  have "dictInsertAtPosition t junk d k (i, slot d i h) = Inr (d', (i, int j, 0))"
    unfolding dictInsertAtPosition_def slot prod.case Let_def i_def [symmetric] bucket_ok [OF b j] c_bind_simps chain set_bucket_ok [OF b j] inc
    using bound by simp
  moreover have "pos_ok d' (i, int j, 0) e" using i j by (simp add: d'_def tab_def)
  ultimately show ?thesis using wf' fr p by (intro exI [of _ d'] exI [of _ "(i, int j, 0)"] exI [of _ e]) (simp add: d'_def)
qed

lemma entry_in_pairs: "dict_wf t d \<Longrightarrow> pos_ok d p e \<Longrightarrow> (entry_key e, entry_val e) \<in># pairs (dict_entries d)"
proof -
  assume wf: "dict_wf t d" and p: "pos_ok d p e"
  obtain i idx n where p': "p = (i, idx, n)" by (cases p)
  from p have j: "nat idx < length (tab d i)" "n < length (tab d i ! nat idx)" "tab d i ! nat idx ! n = e" and "i \<le> 1" by (auto simp: p')
  have "e \<in> set (concat (tab d i))" using nth_mem [OF j(1)] nth_mem [OF j(2)] j(3) by auto
  moreover from \<open>i \<le> 1\<close> have "i = 0 \<or> i = 1" by linarith
  ultimately have "e \<in> set (dict_entries d)" unfolding dict_entries_def by (elim disjE) simp_all
  then show ?thesis by (auto simp: in_pairs)
qed

lemma entry_at_ok: "pos_ok d p e \<Longrightarrow> entry_at d p = Inr e"
proof -
  assume p: "pos_ok d p e"
  obtain i idx n where p': "p = (i, idx, n)" by (cases p)
  from p obtain bs where "ht_table d i = Some bs" by (cases "ht_table d i") (auto simp: p')
  with p show ?thesis by (simp add: p' bucket_def)
qed

text \<open>A search in a dictionary whose first table exists, in terms of the map.\<close>

lemma search_map:
  assumes t: "dict_type_ok t" and wf: "dict_wf t d" and ne: "ht_table d 0 \<noteq> None"
  shows "dict_map t d key = None \<and> dict_search t d key = Inr None \<and> (\<forall>p \<in># pairs (dict_entries d). \<not> same_key t key (fst p)) \<or>
    (\<exists>p e. dict_search t d key = Inr (Some p) \<and> pos_ok d p e \<and> same_key t key (entry_key e) \<and> dict_map t d key = Some (entry_val e))"
proof -
  from dict_search_ok [OF assms, of key] obtain r where r: "dict_search t d key = Inr r" "case r of Some p \<Rightarrow> \<exists>e. pos_ok d p e \<and> same_key t key (entry_key e)
    | None \<Rightarrow> \<forall>e \<in> set (dict_entries d). \<not> same_key t key (entry_key e)" by blast
  show ?thesis
  proof (cases r)
    case None
    with r(2) have "\<forall>p \<in># pairs (dict_entries d). \<not> same_key t key (fst p)" by (auto simp: pairs_def)
    with r(1) None show ?thesis by (simp add: map_None)
  next
    case (Some p)
    with r(2) obtain e where e: "pos_ok d p e" "same_key t key (entry_key e)" by auto
    have "unique_keys t (pairs (dict_entries d))" using wf by (simp add: dict_wf_def)
    with e entry_in_pairs [OF wf e(1)] have "dict_map t d key = Some (entry_val e)" by (auto simp: map_Some)
    with e r(1) Some show ?thesis by blast
  qed
qed

lemma rehashed_map: "dict_wf t d \<Longrightarrow> rehashed d d' \<Longrightarrow> dict_map t d' = dict_map t d"
  by (intro dict_map_cong) (simp_all add: dict_wf_def rehashed_def)

lemma add_raw_ok:
  assumes t: "dict_type_ok t" and wf: "dict_wf t d" and small: "dict_small d"
  shows "(\<exists>d' p e. dictAddRaw t can junk d key = Inr (d', Some p, None) \<and> dict_wf t d' \<and> pos_ok d' p e \<and> same_key t key (entry_key e) \<and>
      dict_map t d key = None \<and> entry_val e = (if no_value t then None else Some junk) \<and>
      pairs (dict_entries d') = add_mset (entry_key e, entry_val e) (pairs (dict_entries d)) \<and> pauserehash d' = pauserehash d) \<or>
    (\<exists>d' p e. dictAddRaw t can junk d key = Inr (d', None, Some p) \<and> dict_wf t d' \<and> pos_ok d' p e \<and> same_key t key (entry_key e) \<and>
      dict_map t d key = Some (entry_val e) \<and> rehashed d d')"
proof -
  from rehash_if_needed_ok [OF assms] obtain d1 where d1: "rehash_if_needed t can d = Inr d1" "dict_wf t d1" "rehashed d d1" "dict_small d1" by blast
  from expand_if_needed_ok [OF d1(2,4)] obtain d2 where d2: "dictExpandIfNeeded t can d1 = (d2, True)" "dict_wf t d2" "rehashed d1 d2" "ht_table d2 0 \<noteq> None" by blast
  have r: "rehashed d d2" using d1(3) d2(3) by (rule rehashed_trans)
  note m = rehashed_map [OF wf r] and small2 = rehashed_small [OF r]
  define k where "k = (case keyDup t of None \<Rightarrow> key | Some f \<Rightarrow> f key)"
  have k: "same_key t key k" using type_okD(4) [OF t] by (auto simp: k_def split: option.split)
  note raw = dictAddRaw_def [of t can junk d key] dictFindPositionForInsert_def [of t can d key] d1(1) c_bind_simps d2(1) prod.case bool.case k_def [symmetric]
  from search_map [OF t d2(2,4), of key] consider
    "dict_map t d2 key = None" "dict_search t d2 key = Inr None" "\<forall>p \<in># pairs (dict_entries d2). \<not> same_key t key (fst p)"
    | p e where "dict_search t d2 key = Inr (Some p)" "pos_ok d2 p e" "same_key t key (entry_key e)" "dict_map t d2 key = Some (entry_val e)" by (elim disjE exE conjE)
  then show ?thesis
  proof cases
    case 1
    have new: "\<forall>p \<in># pairs (dict_entries d2). \<not> same_key t k (fst p)" using 1(3) type_okD(3) [OF t k] by blast
    have h: "hashFunction t k = hashFunction t key" using type_okD(2) [OF t k] by simp
    from insert_at_ok [OF t d2(2) _ d2(4) h new, of junk] small small2 obtain d' p e where
      "dictInsertAtPosition t junk d2 k (if dictIsRehashing d2 then 1 else 0, slot d2 (if dictIsRehashing d2 then 1 else 0) (hashFunction t key)) = Inr (d', p)"
      "dict_wf t d'" "pos_ok d' p e" "entry_key e = k" "entry_val e = (if no_value t then None else Some junk)"
      "pairs (dict_entries d') = add_mset (entry_key e, entry_val e) (pairs (dict_entries d2))" "pauserehash d' = pauserehash d2" by blast
    moreover from this(1) have "dictAddRaw t can junk d key = Inr (d', Some p, None)" unfolding raw 1(2) option.case Let_def by simp
    ultimately show ?thesis using 1(1) m k r by (intro disjI1 exI [of _ d'] exI [of _ p] exI [of _ e]) (simp add: rehashed_def)
  next
    case (2 p e)
    then have "dictAddRaw t can junk d key = Inr (d2, None, Some p)" unfolding raw by simp
    with 2 d2(2) m r show ?thesis by (intro disjI2 exI [of _ d2] exI [of _ p] exI [of _ e]) simp
  qed
qed

section \<open>The operations on the map\<close>

lemma pos_entry_ok: "dict_wf t d \<Longrightarrow> pos_ok d p e \<Longrightarrow> entry_ok t e"
proof -
  assume wf: "dict_wf t d" and p: "pos_ok d p e"
  obtain i idx n where p': "p = (i, idx, n)" by (cases p)
  from pos_okE [OF wf p [unfolded p']] obtain bs j where w: "n < length (bs ! j)" "bs ! j ! n = e" "chain_ok t (bs ! j)" by blast
  then show ?thesis by (metis chain_ok.simps(2) chain_ok_append id_take_nth_drop)
qed

definition stored :: "('k, 'v) dictType \<Rightarrow> 'v \<Rightarrow> 'v option" where
  "stored t v = (if no_value t then None else Some (case valDup t of None \<Rightarrow> v | Some f \<Rightarrow> f v))"

lemma wf_unique: "dict_wf t d \<Longrightarrow> unique_keys t (pairs (dict_entries d))"
  by (simp add: dict_wf_def)

text \<open>A fresh entry gets its value.\<close>

lemma fresh_set_ok:
  assumes t: "dict_type_ok t" and wf: "dict_wf t d" "dict_wf t d1" and p: "pos_ok d1 p e" "same_key t key (entry_key e)" and v: "entryHasValue e"
    and pairs: "pairs (dict_entries d1) = add_mset (entry_key e, entry_val e) (pairs (dict_entries d))" and nv: "\<not> no_value t"
  shows "\<exists>d'. dictSetVal t d1 p v = Inr d' \<and> dict_wf t d' \<and> dict_map t d' = map_put t key (stored t v) (dict_map t d) \<and> length (dict_entries d') = Suc (length (dict_entries d))"
proof -
  from set_val_ok [OF wf(2) p(1) v, of v] obtain d' C where d': "dictSetVal t d1 p v = Inr d'" "dict_wf t d'"
    "pairs (dict_entries d1) = add_mset (entry_key e, entry_val e) C" "pairs (dict_entries d') = add_mset (entry_key e, stored t v) C"
    using nv by (auto simp: stored_def)
  with pairs have c: "pairs (dict_entries d') = add_mset (entry_key e, stored t v) (pairs (dict_entries d))" by simp
  have "dict_map t d' = map_put t key (stored t v) (dict_map t d)"
    by (rule map_added [OF t wf_unique [OF d'(2)] wf_unique [OF wf(1)] c p(2)])
  moreover have "length (dict_entries d') = Suc (length (dict_entries d))" using arg_cong [OF c, of size] by simp
  ultimately show ?thesis using d'(1,2) by blast
qed

lemma dict_add_ok:
  assumes t: "dict_type_ok t" and wf: "dict_wf t d" and small: "dict_small d"
  shows "\<exists>d'. dictAdd t can junk d key v = Inr (d', dict_map t d key = None) \<and> dict_wf t d' \<and> length (dict_entries d') \<le> Suc (length (dict_entries d)) \<and>
    dict_map t d' = (if dict_map t d key = None then map_put t key (stored t v) (dict_map t d) else dict_map t d)"
  using add_raw_ok [OF assms, of can junk key]
proof (elim disjE exE conjE)
  fix d1 p e assume a: "dictAddRaw t can junk d key = Inr (d1, Some p, None)" "dict_wf t d1" "pos_ok d1 p e" "same_key t key (entry_key e)"
    "dict_map t d key = None" "entry_val e = (if no_value t then None else Some junk)" "pairs (dict_entries d1) = add_mset (entry_key e, entry_val e) (pairs (dict_entries d))"
  show ?thesis
  proof (cases "no_value t")
    case True
    have "dict_map t d1 = map_put t key (stored t v) (dict_map t d)"
      using map_added [OF t wf_unique [OF a(2)] wf_unique [OF wf] a(7) a(4)] a(6) True by (simp add: stored_def)
    with True a size_pairs [of "dict_entries d1"] show ?thesis by (simp add: dictAdd_def)
  next
    case False
    then have "entryHasValue e" using a(6) by (cases e) auto
    from fresh_set_ok [OF t wf a(2,3,4) this a(7) False, of v] False a show ?thesis by (auto simp: dictAdd_def)
  qed
next
  fix d1 p e assume a: "dictAddRaw t can junk d key = Inr (d1, None, Some p)" "dict_wf t d1" "dict_map t d key = Some (entry_val e)" "rehashed d d1"
  then show ?thesis using rehashed_map [OF wf a(4)] rehashed_length [OF a(4)] by (simp add: dictAdd_def)
qed

lemma replace_ok:
  assumes t: "dict_type_ok t" and wf: "dict_wf t d" and small: "dict_small d" and nv: "\<not> no_value t"
  shows "\<exists>d'. dictReplace t can junk d key v = Inr (d', dict_map t d key = None) \<and> dict_wf t d' \<and> length (dict_entries d') \<le> Suc (length (dict_entries d)) \<and>
    dict_map t d' = map_put t key (stored t v) (dict_map t d)"
  using add_raw_ok [OF assms(1-3), of can junk key]
proof (elim disjE exE conjE)
  fix d1 p e assume a: "dictAddRaw t can junk d key = Inr (d1, Some p, None)" "dict_wf t d1" "pos_ok d1 p e" "same_key t key (entry_key e)"
    "dict_map t d key = None" "entry_val e = (if no_value t then None else Some junk)" "pairs (dict_entries d1) = add_mset (entry_key e, entry_val e) (pairs (dict_entries d))"
  then have "entryHasValue e" using nv by (cases e) auto
  from fresh_set_ok [OF t wf a(2,3,4) this a(7) nv, of v] a show ?thesis by (auto simp: dictReplace_def)
next
  fix d1 p e assume a: "dictAddRaw t can junk d key = Inr (d1, None, Some p)" "dict_wf t d1" "pos_ok d1 p e" "same_key t key (entry_key e)"
    "dict_map t d key = Some (entry_val e)" "rehashed d d1"
  have v: "entryHasValue e" using pos_entry_ok [OF a(2,3)] nv by (simp add: entry_ok_def)
  from set_val_ok [OF a(2,3) v, of v] obtain d' C where d': "dictSetVal t d1 p v = Inr d'" "dict_wf t d'"
    "pairs (dict_entries d1) = add_mset (entry_key e, entry_val e) C" "pairs (dict_entries d') = add_mset (entry_key e, stored t v) C"
    using nv by (auto simp: stored_def)
  have "dictGetVal e = Inr (the (entry_val e))" using v by (cases e) (auto simp: dictGetVal_def)
  then have run: "dictReplace t can junk d key v = Inr (d', False)" using a(1) entry_at_ok [OF a(3)] d'(1) by (simp add: dictReplace_def)
  have l: "length (dict_entries d') = length (dict_entries d)"
    using size_pairs [of "dict_entries d'"] size_pairs [of "dict_entries d1"] rehashed_length [OF a(6)] unfolding d'(3,4) by simp
  have "dict_map t d' = map_put t key (stored t v) (dict_map t d1)"
  proof
    fix k
    have c: "same_key t k (entry_key e) \<longleftrightarrow> same_key t k key" using type_okD(1,3) [OF t] a(4) by blast
    show "dict_map t d' k = map_put t key (stored t v) (dict_map t d1) k"
    proof (cases "same_key t k key")
      case True
      then have "dict_map t d' k = Some (stored t v)" using c d'(4) by (auto simp: map_Some [OF wf_unique [OF d'(2)]])
      with True show ?thesis by (simp add: map_put_def)
    next
      case False
      have "dict_map t d' k = Some x \<longleftrightarrow> dict_map t d1 k = Some x" for x
        unfolding map_Some [OF wf_unique [OF d'(2)]] map_Some [OF wf_unique [OF a(2)]] d'(3,4) using False c by auto
      then have "dict_map t d' k = dict_map t d1 k" by (metis option.exhaust)
      with False show ?thesis by (simp add: map_put_def)
    qed
  qed
  with run l d'(2) a(5) rehashed_map [OF wf a(6)] show ?thesis by simp
qed

lemma size_zero: "dict_wf t d \<Longrightarrow> dict_small d \<Longrightarrow> dictSize d = 0 \<longleftrightarrow> dict_entries d = []"
  using used_le [of t d] by (simp add: dictSize_def dict_small_def)

lemma map_empty: "dict_entries d = [] \<Longrightarrow> dict_map t d = (\<lambda>_. None)"
  by (simp add: dict_map_def fun_eq_iff)

lemma table_exists: "dict_wf t d \<Longrightarrow> dict_entries d \<noteq> [] \<Longrightarrow> ht_table d 0 \<noteq> None"
  by (cases "ht_table d 0") (auto simp: dict_wf_def dict_entries_def tab_def split: if_splits)

text \<open>The common start of lookup and deletion: a rehashing step, then the search.\<close>

lemma lookup_ok:
  assumes t: "dict_type_ok t" and wf: "dict_wf t d" and small: "dict_small d" and ne: "dictSize d \<noteq> 0"
  obtains d1 where "rehash_if_needed t can d = Inr d1" "dict_wf t d1" "rehashed d d1" "dict_small d1" "dict_map t d1 = dict_map t d"
    "dict_search t d1 key = Inr None" "dict_map t d key = None"
  | d1 p e where "rehash_if_needed t can d = Inr d1" "dict_wf t d1" "rehashed d d1" "dict_small d1" "dict_map t d1 = dict_map t d"
    "dict_search t d1 key = Inr (Some p)" "pos_ok d1 p e" "same_key t key (entry_key e)" "dict_map t d key = Some (entry_val e)"
proof -
  from rehash_if_needed_ok [OF t wf small] obtain d1 where d1: "rehash_if_needed t can d = Inr d1" "dict_wf t d1" "rehashed d d1" "dict_small d1" by blast
  have "length (dict_entries d1) \<noteq> 0" using ne size_zero [OF wf small] rehashed_length [OF d1(3)] by simp
  then have "ht_table d1 0 \<noteq> None" using table_exists [OF d1(2)] by simp
  from search_map [OF t d1(2) this, of key] rehashed_map [OF wf d1(3)] d1 that show thesis by (elim disjE exE conjE) simp_all
qed

lemma dict_find_ok:
  assumes t: "dict_type_ok t" and wf: "dict_wf t d" and small: "dict_small d"
  shows "\<exists>d' r. dictFind t can d key = Inr (d', r) \<and> dict_wf t d' \<and> rehashed d d' \<and> map_option entry_val r = dict_map t d key \<and>
    (\<forall>e. r = Some e \<longrightarrow> entry_ok t e \<and> same_key t key (entry_key e))"
proof (cases "dictSize d = 0")
  case True
  with wf size_zero [OF wf small] map_empty [of d t] show ?thesis by (simp add: dictFind_def)
next
  case False
  from lookup_ok [OF t wf small False, of can key] show ?thesis
  proof cases
    case (1 d1)
    with False show ?thesis by (simp add: dictFind_def)
  next
    case (2 d1 p e)
    with False entry_at_ok [OF 2(7)] pos_entry_ok [OF 2(2,7)] show ?thesis by (simp add: dictFind_def)
  qed
qed

lemma map_del_absent:
  assumes "dict_type_ok t" and "dict_map t d key = None"
  shows "map_del t key (dict_map t d) = dict_map t d"
proof
  fix k show "map_del t key (dict_map t d) k = dict_map t d k"
    using assms(2) type_okD(1,3) [OF assms(1)] unfolding map_del_def map_None by (metis map_None)
qed

lemma delete_ok:
  assumes t: "dict_type_ok t" and wf: "dict_wf t d" and small: "dict_small d"
  shows "\<exists>d' r. dictGenericDelete t can d key = Inr (d', r) \<and> dict_wf t d' \<and> length (dict_entries d') \<le> length (dict_entries d) \<and>
    map_option entry_val r = dict_map t d key \<and> dict_map t d' = map_del t key (dict_map t d)"
proof (cases "dictSize d = 0")
  case True
  with wf size_zero [OF wf small] map_empty [of d t] show ?thesis by (simp add: dictGenericDelete_def map_del_def fun_eq_iff)
next
  case False
  from lookup_ok [OF t wf small False, of can key] show ?thesis
  proof cases
    case (1 d1)
    with map_del_absent [OF t 1(7)] False rehashed_length [OF 1(3)] show ?thesis by (simp add: dictGenericDelete_def)
  next
    case (2 d1 p e)
    from dict_unlink_ok [OF 2(2,7,4)] obtain d' where d': "unlink_at d1 p = Inr d'" "dict_wf t d'"
      "add_mset (entry_key e, entry_val e) (pairs (dict_entries d')) = pairs (dict_entries d1)" by blast
    have "Suc (length (dict_entries d')) = length (dict_entries d)" using arg_cong [OF d'(3), of size] rehashed_length [OF 2(3)] by simp
    moreover have "dict_map t d' = map_del t key (dict_map t d)"
      using map_removed [OF t wf_unique [OF 2(2)] d'(3) 2(8)] 2(5) by simp
    ultimately show ?thesis using 2 False d'(1,2) entry_at_ok [OF 2(7)] by (simp add: dictGenericDelete_def)
  qed
qed

lemma two_phase_ok:
  assumes t: "dict_type_ok t" and wf: "dict_wf t d" and small: "dict_small d"
  shows "(\<exists>d'. dictTwoPhaseUnlinkFind t can d key = Inr (d', None) \<and> dict_wf t d' \<and> rehashed d d' \<and> dict_map t d key = None) \<or>
    (\<exists>d1 d' e p. dictTwoPhaseUnlinkFind t can d key = Inr (d1, Some (e, p)) \<and> dictTwoPhaseUnlinkFree d1 p = Inr d' \<and> dict_wf t d' \<and>
      dict_map t d key = Some (entry_val e) \<and> dict_map t d' = map_del t key (dict_map t d) \<and> length (dict_entries d') \<le> length (dict_entries d))"
proof (cases "dictSize d = 0")
  case True
  with wf size_zero [OF wf small] map_empty [of d t] show ?thesis by (simp add: dictTwoPhaseUnlinkFind_def)
next
  case False
  from lookup_ok [OF t wf small False, of can key] show ?thesis
  proof cases
    case (1 d1)
    with False show ?thesis by (simp add: dictTwoPhaseUnlinkFind_def)
  next
    case (2 d1 p e)
    from dict_unlink_ok [OF 2(2,7,4)] obtain d' where d': "dictTwoPhaseUnlinkFree (dictPauseRehashing d1) p = Inr d'" "dict_wf t d'"
      "add_mset (entry_key e, entry_val e) (pairs (dict_entries d')) = pairs (dict_entries d1)" by blast
    have "Suc (length (dict_entries d')) = length (dict_entries d)" using arg_cong [OF d'(3), of size] rehashed_length [OF 2(3)] by simp
    moreover have "dict_map t d' = map_del t key (dict_map t d)"
      using map_removed [OF t wf_unique [OF 2(2)] d'(3) 2(8)] 2(5) by simp
    ultimately show ?thesis using 2 False d'(1,2) entry_at_ok [OF 2(7)]
      by (intro disjI2 exI [of _ "dictPauseRehashing d1"] exI [of _ d'] exI [of _ e] exI [of _ p]) (simp add: dictTwoPhaseUnlinkFind_def)
  qed
qed

text \<open>Emptying frees every entry: the loop's early exit on \<^verbatim>\<open>ht_used\<close> never leaves one behind.\<close>

lemma clear_loop_ok: "\<forall>b \<in> set bs. chain_ok t b \<Longrightarrow> used = length (concat bs) \<Longrightarrow> used < 2 ^ 60 \<Longrightarrow> clear_loop bs used = concat bs"
proof (induction bs arbitrary: used)
  case (Cons b bs)
  have "used + length b * (2 ^ 64 - 1) = length (concat bs) + length b * 2 ^ 64" using Cons.prems(2) by (simp add: algebra_simps)
  then have "(used + length b * (2 ^ 64 - 1)) mod 2 ^ 64 = length (concat bs)" using Cons.prems(2,3) by simp
  moreover have "walk_chain b = b" using Cons.prems(1) walk_ok by auto
  moreover have "clear_loop bs (length (concat bs)) = concat bs" using Cons.IH Cons.prems by simp
  ultimately show ?case using Cons.prems(2) by auto
qed simp

lemma clear_table_ok:
  assumes "table_ok t d i" and "length (concat (tab d i)) < 2 ^ 60"
  shows "dictClear d i = (dictReset i d, concat (tab d i))"
proof (cases "ht_table d i")
  case None
  then show ?thesis by (simp add: dictClear_def tab_def)
next
  case (Some bs)
  with assms have b: "tbl_ok t (ht_size_exp d i) bs (ht_used d i)" "tab d i = bs" by (simp_all add: table_ok_def tab_def)
  then have "\<forall>b \<in> set bs. chain_ok t b" by (auto simp: tbl_ok_def in_set_conv_nth)
  moreover have "DICTHT_SIZE (ht_size_exp d i) = length bs" using b(1) by (simp add: tbl_ok_def DICTHT_SIZE_def)
  moreover have "ht_used d i = length (concat bs)" using b(1) by (simp add: tbl_ok_def)
  ultimately show ?thesis using Some b(2) assms(2) clear_loop_ok [of bs t] by (simp add: dictClear_def)
qed

lemma create_wf: "dict_wf t dictCreate" "dict_entries dictCreate = []"
  by (simp_all add: dict_wf_def dictCreate_def table_ok_def dict_entries_def tab_def unique_keys_def)

lemma dict_empty_ok:
  assumes wf: "dict_wf t d" and small: "dict_small d"
  shows "\<exists>d'. dictEmpty d = (d', dict_entries d) \<and> dict_wf t d' \<and> dict_entries d' = []"
proof -
  let ?d = "(dictReset 1 (dictReset 0 d))\<lparr>rehashidx := - 1, pauserehash := 0\<rparr>"
  have 1: "table_ok t (dictReset 0 d) 1" "tab (dictReset 0 d) 1 = tab d 1" using wf by (auto simp: dict_wf_def dictReset_def table_ok_def tab_def split: option.splits)
  have "dictClear d 0 = (dictReset 0 d, concat (tab d 0))" using wf small
    by (intro clear_table_ok [of t]) (simp_all add: dict_wf_def dict_small_def dict_entries_def)
  moreover have "dictClear (dictReset 0 d) 1 = (dictReset 1 (dictReset 0 d), concat (tab d 1))"
    using clear_table_ok [OF 1(1)] small 1(2) by (simp add: dict_small_def dict_entries_def)
  moreover have "dict_entries ?d = []" by (simp add: dict_entries_def tab_def dictReset_def)
  moreover have "dict_wf t ?d" by (simp add: dict_wf_def dictReset_def table_ok_def dict_entries_def tab_def unique_keys_def)
  ultimately show ?thesis by (simp add: dictEmpty_def dict_entries_def)
qed

lemma dict_fetch_ok:
  assumes "dict_type_ok t" and "dict_wf t d" and "dict_small d" and nv: "\<not> no_value t"
  shows "\<exists>d' r. dictFetchValue t can d key = Inr (d', r) \<and> dict_wf t d' \<and> rehashed d d' \<and> map_option Some r = dict_map t d key"
proof -
  from dict_find_ok [OF assms(1-3), of can key] obtain d' r where r: "dictFind t can d key = Inr (d', r)" "dict_wf t d'" "rehashed d d'"
    "map_option entry_val r = dict_map t d key" "\<forall>e. r = Some e \<longrightarrow> entry_ok t e \<and> same_key t key (entry_key e)" by blast
  show ?thesis
  proof (cases r)
    case None
    with r show ?thesis by (simp add: dictFetchValue_def)
  next
    case (Some e)
    with r(5) nv obtain k v where "e = Normal k v" by (cases e) (auto simp: entry_ok_def)
    with r Some show ?thesis by (auto simp: dictFetchValue_def dictGetVal_def)
  qed
qed

section \<open>Sequences of calls\<close>

text \<open>A call of the interface, and what it reports; \<open>Unlink\<close> is the two-phase deletion, find then free.\<close>

datatype ('k, 'v) dict_op = Add 'k 'v | Replace 'k 'v | Find 'k | Fetch 'k | Delete 'k | Unlink 'k | Expand nat | Resize | Rehash nat | Empty

datatype ('k, 'v) dict_reply = Status bool | Entry "'v option option" | Value "'v option" | Done

type_synonym ('k, 'v) dict_call = "dictResizeEnable \<times> 'v \<times> ('k, 'v) dict_op"

fun dict_exec :: "('k, 'v) dictType \<Rightarrow> ('k, 'v) dict_call \<Rightarrow> ('k, 'v) dict \<Rightarrow> (('k, 'v) dict \<times> ('k, 'v) dict_reply) c_result" where
  "dict_exec t (can, junk, Add key v) d = c_bind (dictAdd t can junk d key v) (\<lambda>(d, r). Inr (d, Status r))"
| "dict_exec t (can, junk, Replace key v) d = c_bind (dictReplace t can junk d key v) (\<lambda>(d, r). Inr (d, Status r))"
| "dict_exec t (can, junk, Find key) d = c_bind (dictFind t can d key) (\<lambda>(d, r). Inr (d, Entry (map_option entry_val r)))"
| "dict_exec t (can, junk, Fetch key) d = c_bind (dictFetchValue t can d key) (\<lambda>(d, r). Inr (d, Value r))"
| "dict_exec t (can, junk, Delete key) d = c_bind (dictDelete t can d key) (\<lambda>(d, r). Inr (d, Status r))"
| "dict_exec t (can, junk, Unlink key) d = c_bind (dictTwoPhaseUnlinkFind t can d key) (\<lambda>(d, r). case r of
     None \<Rightarrow> Inr (d, Entry None)
   | Some (he, p) \<Rightarrow> c_bind (dictTwoPhaseUnlinkFree d p) (\<lambda>d. Inr (d, Entry (Some (entry_val he)))))"
| "dict_exec t (can, junk, Expand sz) d = Inr (fst (dictExpand d sz), Done)"
| "dict_exec t (can, junk, Resize) d = Inr (fst (dictResize can d), Done)"
| "dict_exec t (can, junk, Rehash n) d = c_bind (dictRehash t can d n) (\<lambda>(d, _). Inr (d, Done))"
| "dict_exec t (can, junk, Empty) d = Inr (fst (dictEmpty d), Done)"

text \<open>The same call on the map from keys to stored values that the dictionary stands for.\<close>

fun map_exec :: "('k, 'v) dictType \<Rightarrow> ('k, 'v) dict_call \<Rightarrow> ('k \<Rightarrow> 'v option option) \<Rightarrow> ('k \<Rightarrow> 'v option option) \<times> ('k, 'v) dict_reply" where
  "map_exec t (can, junk, Add key v) m = (if m key = None then map_put t key (stored t v) m else m, Status (m key = None))"
| "map_exec t (can, junk, Replace key v) m = (map_put t key (stored t v) m, Status (m key = None))"
| "map_exec t (can, junk, Find key) m = (m, Entry (m key))"
| "map_exec t (can, junk, Fetch key) m = (m, Value (Option.bind (m key) id))"
| "map_exec t (can, junk, Delete key) m = (map_del t key m, Status (m key \<noteq> None))"
| "map_exec t (can, junk, Unlink key) m = (map_del t key m, Entry (m key))"
| "map_exec t (can, junk, Empty) m = (\<lambda>_. None, Done)"
| "map_exec t (can, junk, _) m = (m, Done)"

text \<open>The calls that a dictionary with or without values supports; \<^verbatim>\<open>n*10\<close> of \<^verbatim>\<open>dictRehash\<close> fits in an \<^verbatim>\<open>int\<close>.\<close>

fun call_allowed :: "('k, 'v) dictType \<Rightarrow> ('k, 'v) dict_call \<Rightarrow> bool" where
  "call_allowed t (can, junk, Replace key v) = (\<not> no_value t)"
| "call_allowed t (can, junk, Fetch key) = (\<not> no_value t)"
| "call_allowed t (can, junk, Rehash n) = (n * 10 < 2 ^ 31)"
| "call_allowed t _ = True"

fun run_calls :: "('c \<Rightarrow> 's \<Rightarrow> ('s \<times> 'r) c_result) \<Rightarrow> 'c list \<Rightarrow> 's \<Rightarrow> ('s \<times> 'r list) c_result" where
  "run_calls step [] s = Inr (s, [])"
| "run_calls step (c # cs) s = c_bind (step c s) (\<lambda>(s, r). c_bind (run_calls step cs s) (\<lambda>(s, rs). Inr (s, r # rs)))"

fun run_spec :: "('c \<Rightarrow> 'm \<Rightarrow> 'm \<times> 'r) \<Rightarrow> 'c list \<Rightarrow> 'm \<Rightarrow> 'm \<times> 'r list" where
  "run_spec spec [] m = (m, [])"
| "run_spec spec (c # cs) m = (case spec c m of (m, r) \<Rightarrow> case run_spec spec cs m of (m, rs) \<Rightarrow> (m, r # rs))"

text \<open>
  A component whose calls simulate those of a specification, as long as there is room for the remaining
  ones: it then simulates every sequence of calls.
\<close>

locale simulation =
  fixes step :: "'c \<Rightarrow> 's \<Rightarrow> ('s \<times> 'r) c_result" and spec :: "'c \<Rightarrow> 'm \<Rightarrow> 'm \<times> 'r" and abs :: "'s \<Rightarrow> 'm"
    and allowed :: "'c \<Rightarrow> bool" and ok :: "nat \<Rightarrow> 's \<Rightarrow> bool"
  assumes step_law: "allowed c \<Longrightarrow> ok (Suc n) s \<Longrightarrow> \<exists>s' r. step c s = Inr (s', r) \<and> spec c (abs s) = (abs s', r) \<and> ok n s'"
begin

lemma calls_simulate:
  "list_all allowed cs \<Longrightarrow> ok (length cs + n) s \<Longrightarrow>
    \<exists>s' rs. run_calls step cs s = Inr (s', rs) \<and> run_spec spec cs (abs s) = (abs s', rs) \<and> ok n s'"
proof (induction cs arbitrary: s)
  case (Cons c cs)
  then obtain s1 r where s1: "step c s = Inr (s1, r)" "spec c (abs s) = (abs s1, r)" "ok (length cs + n) s1"
    using step_law [of c "length cs + n" s] by auto
  from Cons.IH [OF _ s1(3)] Cons.prems(1) obtain s' rs where "run_calls step cs s1 = Inr (s', rs)" "run_spec spec cs (abs s1) = (abs s', rs)" "ok n s'"
    by auto
  with s1(1,2) show ?case by simp
qed simp

end

text \<open>The dictionary with room for \<open>n\<close> more entries.\<close>

definition dict_ok :: "('k, 'v) dictType \<Rightarrow> nat \<Rightarrow> ('k, 'v) dict \<Rightarrow> bool" where
  "dict_ok t n d \<longleftrightarrow> dict_type_ok t \<and> dict_wf t d \<and> length (dict_entries d) + n < 2 ^ 60"

lemma dict_ok_keep: "dict_ok t (Suc n) d \<Longrightarrow> dict_wf t d' \<Longrightarrow> length (dict_entries d') \<le> Suc (length (dict_entries d)) \<Longrightarrow> dict_ok t n d'"
  by (simp add: dict_ok_def)

lemma dict_ok_rehashed: "dict_ok t (Suc n) d \<Longrightarrow> dict_wf t d' \<Longrightarrow> rehashed d d' \<Longrightarrow> dict_ok t n d' \<and> dict_map t d' = dict_map t d"
  using rehashed_map [of t d d'] rehashed_length [of d d'] by (simp add: dict_ok_def)

lemma dict_step_ok:
  assumes c: "call_allowed t c" and ok: "dict_ok t (Suc n) d"
  shows "\<exists>d' r. dict_exec t c d = Inr (d', r) \<and> map_exec t c (dict_map t d) = (dict_map t d', r) \<and> dict_ok t n d'"
proof -
  obtain can junk op where c': "c = (can, junk, op)" by (cases c)
  have w: "dict_type_ok t" "dict_wf t d" "dict_small d" using ok by (simp_all add: dict_ok_def dict_small_def)
  note keep = dict_ok_keep [OF ok] and same = dict_ok_rehashed [OF ok]
  show ?thesis
  proof (cases op)
    case (Add key v)
    from dict_add_ok [OF w, of can junk key v] obtain d' where "dictAdd t can junk d key v = Inr (d', dict_map t d key = None)" "dict_wf t d'"
      "length (dict_entries d') \<le> Suc (length (dict_entries d))"
      "dict_map t d' = (if dict_map t d key = None then map_put t key (stored t v) (dict_map t d) else dict_map t d)" by blast
    with c' Add keep [of d'] show ?thesis by simp
  next
    case (Replace key v)
    with c c' obtain d' where "dictReplace t can junk d key v = Inr (d', dict_map t d key = None)" "dict_wf t d'"
      "length (dict_entries d') \<le> Suc (length (dict_entries d))" "dict_map t d' = map_put t key (stored t v) (dict_map t d)"
      using replace_ok [OF w, of can junk key v] by auto
    with c' Replace keep [of d'] show ?thesis by simp
  next
    case (Find key)
    from dict_find_ok [OF w, of can key] obtain d' r where "dictFind t can d key = Inr (d', r)" "dict_wf t d'" "rehashed d d'"
      "map_option entry_val r = dict_map t d key" by blast
    with c' Find same [of d'] show ?thesis by simp
  next
    case (Fetch key)
    with c c' obtain d' r where "dictFetchValue t can d key = Inr (d', r)" "dict_wf t d'" "rehashed d d'" "dict_map t d key = map_option Some r"
      using dict_fetch_ok [OF w, of can key] by auto
    with c' Fetch same [of d'] show ?thesis by (cases r) simp_all
  next
    case (Delete key)
    from delete_ok [OF w, of can key] obtain d' r where "dictGenericDelete t can d key = Inr (d', r)" "dict_wf t d'"
      "length (dict_entries d') \<le> length (dict_entries d)" "dict_map t d key = map_option entry_val r" "dict_map t d' = map_del t key (dict_map t d)" by auto
    with c' Delete keep [of d'] show ?thesis by (simp add: dictDelete_def)
  next
    case (Unlink key)
    from two_phase_ok [OF w, of can key] show ?thesis
    proof (elim disjE exE conjE)
      fix d' assume "dictTwoPhaseUnlinkFind t can d key = Inr (d', None)" "dict_wf t d'" "rehashed d d'" "dict_map t d key = None"
      with c' Unlink same [of d'] map_del_absent [OF w(1)] show ?thesis by simp
    next
      fix d1 d' e p assume "dictTwoPhaseUnlinkFind t can d key = Inr (d1, Some (e, p))" "dictTwoPhaseUnlinkFree d1 p = Inr d'" "dict_wf t d'"
        "dict_map t d key = Some (entry_val e)" "dict_map t d' = map_del t key (dict_map t d)" "length (dict_entries d') \<le> length (dict_entries d)"
      with c' Unlink keep [of d'] show ?thesis by simp
    qed
  next
    case (Expand sz)
    with c' same [OF expand_ok(1,2) [OF w(2)], of sz] show ?thesis by simp
  next
    case Resize
    with c' same dict_resize_ok [OF w(2), of can] show ?thesis by simp
  next
    case (Rehash k)
    from rehash_ok [OF w, of can k] obtain d' more where "dictRehash t can d k = Inr (d', more)" "dict_wf t d'" "rehashed d d'" by blast
    with c' Rehash same [of d'] show ?thesis by simp
  next
    case Empty
    from dict_empty_ok [OF w(2,3)] obtain d' where "dictEmpty d = (d', dict_entries d)" "dict_wf t d'" "dict_entries d' = []" by blast
    with c' Empty keep [of d'] map_empty [of d' t] show ?thesis by simp
  qed
qed

interpretation dict_sim: simulation "dict_exec t" "map_exec t" "dict_map t" "call_allowed t" "dict_ok t" for t
  by unfold_locales (rule dict_step_ok)

text \<open>
  C39. The hash table is a map: for every dictionary type whose comparison is an equivalence compatible with
  its hash function, any sequence of fewer than 2^60 additions, replacements, lookups, deletions, two-phase
  unlinks, resizes, rehashing steps and clearings of a new dictionary, with any resize policy at each call,
  runs without failing, keeps the invariant, and reports what the same calls report on the map.
\<close>

theorem dict_implements_map:
  assumes "dict_type_ok t" and "list_all (call_allowed t) calls" and "length calls < 2 ^ 60"
  shows "\<exists>d replies. run_calls (dict_exec t) calls dictCreate = Inr (d, replies) \<and> dict_wf t d \<and>
    run_spec (map_exec t) calls (\<lambda>_. None) = (dict_map t d, replies)"
proof -
  have "dict_ok t (length calls + 0) dictCreate" using assms(1,3) by (simp add: dict_ok_def create_wf)
  from dict_sim.calls_simulate [OF assms(2) this] map_empty [OF create_wf(2), of t] show ?thesis by (auto simp: dict_ok_def)
qed

text \<open>A dictionary of numbers that hash to themselves.\<close>

definition ex_type :: "(nat, nat) dictType" where
  "ex_type = \<lparr>hashFunction = of_nat, keyDup = None, valDup = None, keyCompare = None, expandAllowed = None, no_value = False, keys_are_odd = False,
     key_lsb = (\<lambda>k. odd k)\<rparr>"

definition ex_calls :: "(nat, nat) dict_call list" where
  "ex_calls = map (\<lambda>k. (DICT_RESIZE_ENABLE, 0, Add k (k + 10))) [0..<6] @ map (\<lambda>op. (DICT_RESIZE_ENABLE, 0, op)) [Delete 3, Fetch 3, Fetch 4]"

lemma ex_type_ok: "dict_type_ok ex_type"
  by (simp add: dict_type_ok_def ex_type_def same_key_def dictCompareKeys_def)

theorem dict_implements_map_witness:
  "\<exists>d. run_calls (dict_exec ex_type) ex_calls dictCreate = Inr (d, replicate 7 (Status True) @ [Value None, Value (Some 14)]) \<and> dict_wf ex_type d"
proof -
  have "list_all (call_allowed ex_type) ex_calls" by code_simp
  moreover have "snd (run_spec (map_exec ex_type) ex_calls (\<lambda>_. None)) = replicate 7 (Status True) @ [Value None, Value (Some 14)]" by code_simp
  ultimately show ?thesis using dict_implements_map [OF ex_type_ok, of ex_calls] by (auto simp: ex_calls_def)
qed

end
