(* ===== verification/Redis_Dict_Scan.thy ===== *)
theory Redis_Dict_Scan
  imports Redis_Dict_Props
begin

text \<open>
  The stateless iterator \<^verbatim>\<open>dictScan\<close> of \<^verbatim>\<open>dict.c\<close>: the bit reversal of the cursor, one call on a
  dictionary with one or two tables, and whole iterations over a dictionary that changes between the calls.
\<close>

unbundle bit_operations_syntax

section \<open>The reversed cursor\<close>

text \<open>The loop of \<^verbatim>\<open>rev\<close>: halves, then quarters and so on down to single bits change places.\<close>

definition rev_stage :: "nat \<Rightarrow> u64 \<Rightarrow> u64 \<Rightarrow> u64" where
  "rev_stage s m v = (drop_bit s v AND m) OR (push_bit s v AND NOT m)"

fun rev_loop :: "nat \<Rightarrow> u64 \<Rightarrow> u64 \<Rightarrow> u64" where
  "rev_loop s m v =
    (let s = s div 2 in
     if s > 0 then let m = m XOR push_bit s m in rev_loop s m (rev_stage s m v) else v)"

declare rev_loop.simps [simp del]

definition rev_ul :: "u64 \<Rightarrow> u64" where
  "rev_ul v = rev_loop 64 (NOT 0) v"

text \<open>One stage, on bits.\<close>

definition flip_at :: "nat \<Rightarrow> nat \<Rightarrow> nat" where
  "flip_at s i = (if even (i div s) then i + s else i - s)"

definition stage_mask :: "nat \<Rightarrow> u64 \<Rightarrow> bool" where
  "stage_mask s m \<longleftrightarrow> list_all (\<lambda>i. bit m i \<longleftrightarrow> even (i div s)) [0..<64]"

lemma all_bits: "list_all P [0..<64] \<Longrightarrow> i < 64 \<Longrightarrow> P i"
  unfolding list_all_iff set_upt atLeastLessThan_iff Ball_def by blast

lemma stage_masks:
  "stage_mask 32 0x00000000FFFFFFFF" "stage_mask 16 0x0000FFFF0000FFFF" "stage_mask 8 0x00FF00FF00FF00FF"
  "stage_mask 4 0x0F0F0F0F0F0F0F0F" "stage_mask 2 0x3333333333333333" "stage_mask 1 0x5555555555555555"
  by code_simp+

lemma mask_steps:
  "NOT 0 XOR push_bit 32 (NOT 0) = (0x00000000FFFFFFFF :: u64)"
  "(0x00000000FFFFFFFF :: u64) XOR push_bit 16 0x00000000FFFFFFFF = 0x0000FFFF0000FFFF"
  "(0x0000FFFF0000FFFF :: u64) XOR push_bit 8 0x0000FFFF0000FFFF = 0x00FF00FF00FF00FF"
  "(0x00FF00FF00FF00FF :: u64) XOR push_bit 4 0x00FF00FF00FF00FF = 0x0F0F0F0F0F0F0F0F"
  "(0x0F0F0F0F0F0F0F0F :: u64) XOR push_bit 2 0x0F0F0F0F0F0F0F0F = 0x3333333333333333"
  "(0x3333333333333333 :: u64) XOR push_bit 1 0x3333333333333333 = 0x5555555555555555"
  by code_simp+

lemma bit_stage:
  fixes v m :: u64
  assumes "stage_mask s m" and "i < 64" and "flip_at s i < 64"
  shows "bit (rev_stage s m v) i \<longleftrightarrow> bit v (flip_at s i)"
proof -
  have "bit m i \<longleftrightarrow> even (i div s)" using assms(1,2) unfolding stage_mask_def by (rule all_bits)
  moreover have "\<not> even (i div s) \<Longrightarrow> s \<le> i" by (rule ccontr) simp
  ultimately show ?thesis using assms(2,3) by (auto simp: rev_stage_def bit_simps flip_at_def add.commute)
qed

lemma flips: "map (flip_at 32) (map (flip_at 16) (map (flip_at 8) (map (flip_at 4) (map (flip_at 2) (map (flip_at 1) [0..<64]))))) = map (\<lambda>i. 63 - i) [0..<64]"
  by code_simp

lemma flip_small:
  "list_all (\<lambda>i. flip_at 32 i < 64) [0..<64]" "list_all (\<lambda>i. flip_at 16 i < 64) [0..<64]" "list_all (\<lambda>i. flip_at 8 i < 64) [0..<64]"
  "list_all (\<lambda>i. flip_at 4 i < 64) [0..<64]" "list_all (\<lambda>i. flip_at 2 i < 64) [0..<64]" "list_all (\<lambda>i. flip_at 1 i < 64) [0..<64]"
  by code_simp+

lemmas flip_less = flip_small [THEN all_bits]

lemma rev_loop_step: "m XOR push_bit (s div 2) m = m' \<Longrightarrow> 0 < s div 2 \<Longrightarrow> rev_loop s m v = rev_loop (s div 2) m' (rev_stage (s div 2) m' v)"
  by (subst rev_loop.simps) (simp add: Let_def)

lemma rev_ul_stages:
  "rev_ul v = rev_stage 1 0x5555555555555555 (rev_stage 2 0x3333333333333333 (rev_stage 4 0x0F0F0F0F0F0F0F0F
     (rev_stage 8 0x00FF00FF00FF00FF (rev_stage 16 0x0000FFFF0000FFFF (rev_stage 32 0x00000000FFFFFFFF v)))))"
proof -
  have n: "(64 :: nat) div 2 = 32" "(32 :: nat) div 2 = 16" "(16 :: nat) div 2 = 8" "(8 :: nat) div 2 = 4" "(4 :: nat) div 2 = 2" "(2 :: nat) div 2 = 1"
    by simp_all
  note step = rev_loop_step [of _ 64, unfolded n, OF mask_steps(1)] rev_loop_step [of _ 32, unfolded n, OF mask_steps(2)]
    rev_loop_step [of _ 16, unfolded n, OF mask_steps(3)] rev_loop_step [of _ 8, unfolded n, OF mask_steps(4)]
    rev_loop_step [of _ 4, unfolded n, OF mask_steps(5)] rev_loop_step [of _ 2, unfolded n, OF mask_steps(6)]
  have "rev_loop 1 m v = v" for m v by (subst rev_loop.simps) simp
  then show ?thesis unfolding rev_ul_def by (simp only: step zero_less_numeral zero_less_one)
qed

lemma bit_rev_ul: "bit (rev_ul v) i \<longleftrightarrow> i < 64 \<and> bit v (63 - i)"
proof (cases "i < 64")
  case True
  have f: "flip_at 32 (flip_at 16 (flip_at 8 (flip_at 4 (flip_at 2 (flip_at 1 i))))) = 63 - i"
    using arg_cong [OF flips, of "\<lambda>xs. xs ! i"] True by (simp only: nth_map length_map length_upt nth_upt diff_zero add_0)
  show ?thesis unfolding rev_ul_stages by (simp add: bit_stage stage_masks flip_less True f del: One_nat_def)
next
  case False
  then show ?thesis using bit_imp_le_length [of "rev_ul v" i] by auto
qed

lemma rev_rev_ul [simp]: "rev_ul (rev_ul v) = v"
  by (rule bit_word_eqI) (auto simp: bit_rev_ul)

lemma rev_ul_0 [simp]: "rev_ul 0 = 0"
  by (rule bit_word_eqI) (simp add: bit_rev_ul)

section \<open>The scan\<close>

text \<open>The cursor with the unmasked bits set, incremented in reverse.\<close>

definition next_cursor :: "u64 \<Rightarrow> u64 \<Rightarrow> u64" where
  "next_cursor m v = rev_ul (rev_ul (v OR NOT m) + 1)"

abbreviation rank :: "u64 \<Rightarrow> nat" where "rank v \<equiv> unat (rev_ul v)"

text \<open>How far a scan that returned this cursor has come; the cursor 0 is the end.\<close>

definition reach :: "u64 \<Rightarrow> nat" where
  "reach v = (if v = 0 then 2 ^ 64 else rank v)"

lemma rank_less: "rank v < 2 ^ 64"
  using unsigned_less [of "rev_ul v"] by simp

lemma rank_or: "rank v \<le> rank (v OR NOT m)"
proof -
  have "rev_ul (v OR NOT m) = rev_ul v OR rev_ul (NOT m)" by (rule bit_word_eqI) (auto simp: bit_rev_ul bit_simps)
  then have "rev_ul v \<le> rev_ul (v OR NOT m)" using or_greater_eq [of "uint (rev_ul (NOT m))" "uint (rev_ul v)"]
    by (simp add: word_le_def unsigned_or_eq)
  then show ?thesis by (simp add: word_le_nat_alt)
qed

lemma unat_Suc: "unat (w + 1 :: u64) = (if w = - 1 then 0 else Suc (unat w))"
proof (cases "w = - 1")
  case False
  then have "unat w \<noteq> 2 ^ 64 - 1" using word_unat_eq_iff [of w "- 1"] by (simp add: unsigned_minus_1_eq_mask mask_eq_exp_minus_1)
  moreover have "unat w < 2 ^ 64" using unsigned_less [of w] by simp
  ultimately have "Suc (unat w) < 2 ^ 64" by simp
  moreover have "unat (w + 1) = Suc (unat w) mod 2 ^ 64" by (simp add: unat_word_ariths Suc_eq_plus1)
  ultimately show ?thesis using False by simp
qed simp

lemma reach_next: "reach (next_cursor m v) = Suc (rank (v OR NOT m))"
proof (cases "rev_ul (v OR NOT m) = - 1")
  case True
  then show ?thesis by (simp add: reach_def next_cursor_def unsigned_minus_1_eq_mask mask_eq_exp_minus_1)
next
  case False
  have "rev_ul (rev_ul (v OR NOT m) + 1) \<noteq> 0"
  proof
    assume "rev_ul (rev_ul (v OR NOT m) + 1) = 0"
    then have "rev_ul (v OR NOT m) + 1 = 0" by (metis rev_rev_ul rev_ul_0)
    with False show False by (simp add: eq_neg_iff_add_eq_0)
  qed
  with False show ?thesis by (simp add: reach_def next_cursor_def unat_Suc)
qed

lemma next_cursor_advances: "rank v < reach (next_cursor m v)"
  using rank_or [of v m] by (simp add: reach_next)

lemma next_cursor_nonzero: "next_cursor m v \<noteq> 0 \<Longrightarrow> rank v < rank (next_cursor m v)"
  using next_cursor_advances [of v m] by (simp add: reach_def)

text \<open>The do-while loop over the expansions of the cursor in the larger table.\<close>

function scan_loop :: "('k, 'v) dict \<Rightarrow> nat \<Rightarrow> u64 \<Rightarrow> u64 \<Rightarrow> u64 \<Rightarrow> (u64 \<times> ('k, 'v) dictEntry list) c_result" where
  "scan_loop d htidx1 m0 m1 v =
    c_bind (bucket d htidx1 (uint (v AND m1))) (\<lambda>de.
      let w = next_cursor m1 v in
      if w AND (m0 XOR m1) \<noteq> 0 then c_bind (scan_loop d htidx1 m0 m1 w) (\<lambda>(u, es). Inr (u, walk_chain de @ es))
      else Inr (w, walk_chain de))"
  by pat_completeness auto
termination
proof (relation "measure (\<lambda>(d, i, m0, m1, v). 2 ^ 64 - rank v)")
  fix m0 m1 v w :: u64 and d :: "('k, 'v) dict" and i
  assume "w = next_cursor m1 v" "w AND (m0 XOR m1) \<noteq> 0"
  moreover from this have "w \<noteq> 0" by auto
  ultimately have "rank v < rank w" using next_cursor_nonzero [of m1 v] by simp
  with rank_less [of w] show "((d, i, m0, m1, w), d, i, m0, m1, v) \<in> measure (\<lambda>(d, i, m0, m1, v). 2 ^ 64 - rank v)" by simp
qed simp

declare scan_loop.simps [simp del]

text \<open>\<^verbatim>\<open>dictScan\<close>: the entries that the callback is called with, and the next cursor.  The callback leaves the dictionary as it is.\<close>

definition dictScan :: "('k, 'v) dict \<Rightarrow> u64 \<Rightarrow> (('k, 'v) dict \<times> u64 \<times> ('k, 'v) dictEntry list) c_result" where
  "dictScan d v =
    (if dictSize d = 0 then Inr (d, 0, [])
     else let d = dictPauseRehashing d in
       c_bind
         (if \<not> dictIsRehashing d then
            let m0 = of_nat (DICTHT_SIZE_MASK (ht_size_exp d 0)) in
            c_bind (bucket d 0 (uint (v AND m0))) (\<lambda>de. Inr (next_cursor m0 v, walk_chain de))
          else
            let swap = DICTHT_SIZE (ht_size_exp d 0) > DICTHT_SIZE (ht_size_exp d 1);
                htidx0 = (if swap then 1 else 0); htidx1 = (if swap then 0 else 1);
                m0 = of_nat (DICTHT_SIZE_MASK (ht_size_exp d htidx0)); m1 = of_nat (DICTHT_SIZE_MASK (ht_size_exp d htidx1)) in
            c_bind (bucket d htidx0 (uint (v AND m0))) (\<lambda>de.
            c_bind (scan_loop d htidx1 m0 m1 v) (\<lambda>(w, es). Inr (w, walk_chain de @ es))))
         (\<lambda>(w, es). Inr (dictResumeRehashing d, w, es)))"

section \<open>What one call emits\<close>

text \<open>A table with \<open>2 ^ e\<close> buckets: the hashes of a bucket are an interval of ranks.\<close>

definition up :: "nat \<Rightarrow> nat \<Rightarrow> nat" where
  "up B r = (r div B + 1) * B"

lemma up_bounds: "0 < B \<Longrightarrow> r < up B r \<and> up B r \<le> r + B"
  using dividend_less_div_times [of B r] div_times_less_eq_dividend [of r B] by (simp add: up_def add_mult_distrib)

lemma up_least: "0 < B \<Longrightarrow> B dvd x \<Longrightarrow> r < x \<Longrightarrow> up B r \<le> x"
  by (metis Suc_eq_plus1 Suc_leI div_less_iff_less_mult dvd_div_mult_self mult_le_mono1 up_def)

lemma up_aligned: "0 < B0 \<Longrightarrow> 0 < B1 \<Longrightarrow> B1 dvd B0 \<Longrightarrow> B0 dvd up B1 r \<Longrightarrow> up B1 r = up B0 r"
  using up_bounds [of B1 r] up_bounds [of B0 r] up_least [of B0 "up B1 r" r] up_least [of B1 "up B0 r" r]
  by (metis dvd_trans dvd_triv_right le_antisym up_def)

lemma up_again: "0 < B0 \<Longrightarrow> 0 < B1 \<Longrightarrow> B1 dvd B0 \<Longrightarrow> \<not> B0 dvd up B1 r \<Longrightarrow> up B0 (up B1 r) = up B0 r \<and> up B1 r < up B0 r"
proof -
  assume B: "0 < B0" "0 < B1" "B1 dvd B0" "\<not> B0 dvd up B1 r"
  have d: "B0 dvd up B0 x" "B1 dvd up B0 x" for x using B(3) by (simp_all add: up_def)
  have "up B1 r \<le> up B0 r" using up_least [OF B(2) d(2)] up_bounds [OF B(1)] by blast
  moreover have "up B1 r \<noteq> up B0 r" using d(1) [of r] B(4) by metis
  ultimately have l: "up B1 r < up B0 r" by simp
  moreover have "up B0 (up B1 r) \<le> up B0 r" by (rule up_least [OF B(1) d(1) l])
  moreover have "up B0 r \<le> up B0 (up B1 r)" using up_least [OF B(1) d(1)] up_bounds [OF B(1)] up_bounds [OF B(2)] by (meson less_trans)
  ultimately show ?thesis by simp
qed

abbreviation step_of :: "nat \<Rightarrow> nat" where "step_of e \<equiv> 2 ^ (64 - e)"

lemma or_mask_nat: "(x :: nat) OR mask n = x div 2 ^ n * 2 ^ n + (2 ^ n - 1)"
proof -
  have "x OR mask n = push_bit n (drop_bit n x) OR mask n" by (rule bit_eqI) (auto simp: bit_simps)
  also have "\<dots> = push_bit n (drop_bit n x) + mask n" by (rule disjunctive_add [symmetric]) (auto simp: bit_simps)
  finally show ?thesis by (simp add: push_bit_eq_mult drop_bit_eq_div mask_eq_exp_minus_1)
qed

lemma rank_or_mask:
  assumes "e \<le> 64"
  shows "Suc (rank (v OR NOT (mask e))) = up (step_of e) (rank v)"
proof -
  have "rev_ul (v OR NOT (mask e)) = rev_ul v OR mask (64 - e)" using assms by (intro bit_word_eqI) (auto simp: bit_rev_ul bit_simps)
  moreover have "unat (mask (64 - e) :: u64) = mask (64 - e)" by (rule bit_eqI) (auto simp: bit_simps)
  ultimately have "rank (v OR NOT (mask e)) = rank v OR mask (64 - e)" by (simp add: unsigned_or_eq)
  then show ?thesis by (simp add: or_mask_nat up_def add_mult_distrib)
qed

lemma same_block:
  assumes "e \<le> 64" and "rank h div step_of e = rank v div step_of e"
  shows "unat h mod 2 ^ e = unat v mod 2 ^ e"
proof -
  have drop_bit_nat_eq: "drop_bit n m = m div 2 ^ n" for n m :: nat by (rule drop_bit_eq_div)
  have "drop_bit (64 - e) (rev_ul h) = drop_bit (64 - e) (rev_ul v)"
    using assms(2) by (simp only: word_unat_eq_iff unat_drop_bit_eq drop_bit_nat_eq)
  then have b: "bit (drop_bit (64 - e) (rev_ul h)) (e - 1 - i) \<longleftrightarrow> bit (drop_bit (64 - e) (rev_ul v)) (e - 1 - i)" for i by simp
  have "take_bit e h = take_bit e v"
  proof (rule bit_word_eqI)
    fix i show "bit (take_bit e h) i \<longleftrightarrow> bit (take_bit e v) i"
      using b [of i] assms(1) by (cases "i < e") (auto simp: bit_simps bit_rev_ul)
  qed
  then have "unat (take_bit e h) = unat (take_bit e v)" by simp
  then have "take_bit e (unat h) = take_bit e (unat v)" by (simp only: unsigned_take_bit_eq)
  then show ?thesis by (simp add: take_bit_eq_mod)
qed

lemma dvd_rank: "2 ^ k dvd rank v \<longleftrightarrow> (\<forall>j < k. j < 64 \<longrightarrow> \<not> bit v (63 - j))"
proof -
  have "2 ^ k dvd rank v \<longleftrightarrow> take_bit k (rank v) = 0" by (simp add: take_bit_eq_0_iff)
  also have "\<dots> \<longleftrightarrow> (\<forall>j. \<not> (j < k \<and> bit (rev_ul v) j))" unfolding bit_eq_iff by (auto simp: bit_simps)
  finally show ?thesis by (auto simp: bit_rev_ul)
qed

lemma expansion_left:
  assumes e: "e0 \<le> e1" "e1 \<le> 64" and a: "step_of e1 dvd reach v"
  shows "v AND (mask e0 XOR mask e1) = 0 \<longleftrightarrow> step_of e0 dvd reach v"
proof (cases "v = 0")
  case True
  then show ?thesis using le_imp_power_dvd [of "64 - e0" 64 "2 :: nat"] by (simp add: reach_def)
next
  case False
  with a have low: "j < 64 - e1 \<Longrightarrow> \<not> bit v (63 - j)" for j by (simp add: reach_def dvd_rank)
  have "v AND (mask e0 XOR mask e1) = 0 \<longleftrightarrow> (\<forall>i. \<not> (e0 \<le> i \<and> i < e1 \<and> bit v i))"
    unfolding bit_eq_iff using e by (auto simp: bit_simps) (meson less_le_trans not_le)
  also have "\<dots> \<longleftrightarrow> (\<forall>j < 64 - e0. \<not> bit v (63 - j))"
  proof (intro iffI allI impI notI)
    fix j assume "\<forall>i. \<not> (e0 \<le> i \<and> i < e1 \<and> bit v i)" "j < 64 - e0" "bit v (63 - j)"
    moreover from this have "\<not> j < 64 - e1" using low by blast
    ultimately show False using e by (auto dest: spec [of _ "63 - j"])
  next
    fix i assume j: "\<forall>j < 64 - e0. \<not> bit v (63 - j)" and i: "e0 \<le> i \<and> i < e1 \<and> bit v i"
    with e have "63 - i < 64 - e0" "63 - (63 - i) = i" by linarith+
    with j i show False by metis
  qed
  also have "\<dots> \<longleftrightarrow> step_of e0 dvd reach v" using False by (auto simp: reach_def dvd_rank)
  finally show ?thesis .
qed

text \<open>Emission from one table.\<close>

declare set_concat [simp del]

lemma mask_word: "0 \<le> e \<Longrightarrow> (of_nat (DICTHT_SIZE_MASK e) :: u64) = mask (nat e)"
  by (simp add: DICTHT_SIZE_MASK_def DICTHT_SIZE_def mask_eq_exp_minus_1 of_nat_diff)

abbreviation entry_rank :: "('k, 'v) dictType \<Rightarrow> ('k, 'v) dictEntry \<Rightarrow> nat" where
  "entry_rank t x \<equiv> rank (hashFunction t (entry_key x))"

lemma table_exp: "tbl_ok t e bs u \<Longrightarrow> nat e \<le> 64"
  unfolding tbl_ok_def by linarith

lemma emit_ok:
  assumes ok: "tbl_ok t e bs u" and tb: "ht_table d i = Some bs"
  obtains b where "bucket d i (uint (v AND mask (nat e))) = Inr b" "walk_chain b = b" "set b \<subseteq> set (concat bs)"
    "\<And>x. x \<in> set (concat bs) \<Longrightarrow> rank v \<le> entry_rank t x \<Longrightarrow> entry_rank t x < up (step_of (nat e)) (rank v) \<Longrightarrow> x \<in> set b"
proof -
  define j where "j = unat v mod 2 ^ nat e"
  have j: "j < length bs" unfolding j_def by (rule tbl_okD(4) [OF ok])
  have "uint (v AND mask (nat e)) = int j" unfolding take_bit_eq_mask [symmetric] unsigned_take_bit_eq j_def by (simp add: take_bit_eq_mod zmod_int)
  then have b: "bucket d i (uint (v AND mask (nat e))) = Inr (bs ! j)" using bucket_ok [OF tb j] by simp
  have "x \<in> set (bs ! j)" if x: "x \<in> set (concat bs)" "rank v \<le> entry_rank t x" "entry_rank t x < up (step_of (nat e)) (rank v)" for x
  proof -
    from x(1) obtain c where "c \<in> set bs" "x \<in> set c" by (auto simp: set_concat)
    then obtain k where k: "k < length bs" "x \<in> set (bs ! k)" by (metis in_set_conv_nth)
    have "entry_rank t x div step_of (nat e) = rank v div step_of (nat e)"
    proof (rule antisym)
      show "rank v div step_of (nat e) \<le> entry_rank t x div step_of (nat e)" by (rule div_le_mono [OF x(2)])
      show "entry_rank t x div step_of (nat e) \<le> rank v div step_of (nat e)" using less_mult_imp_div_less [OF x(3) [unfolded up_def]] by linarith
    qed
    then have "unat (hashFunction t (entry_key x)) mod 2 ^ nat e = j"
      unfolding j_def by (intro same_block table_exp [OF ok])
    with tbl_okD(6) [OF ok k] k show ?thesis by simp
  qed
  moreover have "set (bs ! j) \<subseteq> set (concat bs)" using nth_mem [OF j] by (auto simp: set_concat)
  ultimately show thesis using that b walk_ok [OF tbl_okD(5) [OF ok j]] by blast
qed

lemma reach_next_mask: "e \<le> 64 \<Longrightarrow> reach (next_cursor (mask e) v) = up (step_of e) (rank v)"
  by (simp add: reach_next rank_or_mask)

lemma scan_loop_ok:
  fixes v :: u64
  assumes ok: "tbl_ok t e bs u" and tb: "ht_table d i = Some bs" and e0: "e0 \<le> nat e"
  shows "\<exists>w es. scan_loop d i (mask e0) (mask (nat e)) v = Inr (w, es) \<and> reach w = up (step_of e0) (rank v) \<and> set es \<subseteq> set (concat bs) \<and>
    (\<forall>x \<in> set (concat bs). rank v \<le> entry_rank t x \<longrightarrow> entry_rank t x < up (step_of e0) (rank v) \<longrightarrow> x \<in> set es)"
proof (induction "2 ^ 64 - rank v" arbitrary: v rule: less_induct)
  case less
  let ?w = "next_cursor (mask (nat e)) v" and ?B0 = "step_of e0" and ?B1 = "step_of (nat e)"
  note e = table_exp [OF ok]
  have B: "0 < ?B0" "0 < ?B1" "?B1 dvd ?B0" using e0 by (simp_all add: le_imp_power_dvd)
  have r: "reach ?w = up ?B1 (rank v)" by (rule reach_next_mask [OF e])
  then have "?B1 dvd reach ?w" by (simp add: up_def)
  note left = expansion_left [OF e0 e this]
  obtain b where b: "bucket d i (uint (v AND mask (nat e))) = Inr b" "walk_chain b = b" "set b \<subseteq> set (concat bs)"
    "\<And>x. x \<in> set (concat bs) \<Longrightarrow> rank v \<le> entry_rank t x \<Longrightarrow> entry_rank t x < up ?B1 (rank v) \<Longrightarrow> x \<in> set b"
    using emit_ok [OF ok tb] by blast
  show ?case
  proof (cases "?w AND (mask e0 XOR mask (nat e)) = 0")
    case True
    with left r up_aligned [OF B] have "up ?B1 (rank v) = up ?B0 (rank v)" by simp
    with True r b show ?thesis by (subst scan_loop.simps) (auto simp: Let_def)
  next
    case False
    then have nz: "?w \<noteq> 0" by auto
    with r have rw: "rank ?w = up ?B1 (rank v)" by (simp add: reach_def)
    from False left r up_again [OF B] have u: "up ?B0 (rank ?w) = up ?B0 (rank v)" by (simp add: rw)
    have "2 ^ 64 - rank ?w < 2 ^ 64 - rank v" using next_cursor_nonzero [OF nz] rank_less [of ?w] by simp
    from less [OF this] u obtain w es where w: "scan_loop d i (mask e0) (mask (nat e)) ?w = Inr (w, es)" "reach w = up ?B0 (rank v)" "set es \<subseteq> set (concat bs)"
      "\<And>x. x \<in> set (concat bs) \<Longrightarrow> rank ?w \<le> entry_rank t x \<Longrightarrow> entry_rank t x < up ?B0 (rank v) \<Longrightarrow> x \<in> set es" by auto
    have "x \<in> set (b @ es)" if "x \<in> set (concat bs)" "rank v \<le> entry_rank t x" "entry_rank t x < up ?B0 (rank v)" for x
      using that w(4) [of x] b(4) [of x] rw by (cases "rank ?w \<le> entry_rank t x") simp_all
    with False w(1-3) b(1-3) show ?thesis by (subst scan_loop.simps) (auto simp: Let_def)
  qed
qed

lemma paused [simp]: "ht_table (dictPauseRehashing d) = ht_table d" "ht_size_exp (dictPauseRehashing d) = ht_size_exp d"
    "dictIsRehashing (dictPauseRehashing d) = dictIsRehashing d" "dictResumeRehashing (dictPauseRehashing d) = d"
  by (simp_all add: dictPauseRehashing_def dictResumeRehashing_def dictIsRehashing_def)

text \<open>What a call emits, by the ranks of the entries.\<close>

definition covers :: "('k, 'v) dictType \<Rightarrow> ('k, 'v) dict \<Rightarrow> u64 \<Rightarrow> u64 \<Rightarrow> ('k, 'v) dictEntry list \<Rightarrow> bool" where
  "covers t d v w es \<longleftrightarrow> rank v < reach w \<and> set es \<subseteq> set (dict_entries d) \<and>
    (\<forall>x \<in> set (dict_entries d). rank v \<le> entry_rank t x \<longrightarrow> entry_rank t x < reach w \<longrightarrow> x \<in> set es) \<and>
    (\<forall>E. ht_size_exp d 0 \<le> int E \<longrightarrow> step_of E dvd reach w)"

lemma covers_empty: "dict_entries d = [] \<Longrightarrow> covers t d v 0 []"
  using rank_less [of v] le_imp_power_dvd [of _ 64 "2 :: nat"] by (simp add: covers_def reach_def)

lemma scan_two_tables:
  assumes ok: "tbl_ok t (ht_size_exp d i) bs u" "tbl_ok t (ht_size_exp d k) cs x" and tb: "ht_table d i = Some bs" "ht_table d k = Some cs"
    and es: "set (dict_entries d) = set (concat bs) \<union> set (concat cs)" and le: "ht_size_exp d i \<le> ht_size_exp d k" "ht_size_exp d i \<le> ht_size_exp d 0"
  obtains b w fs where "bucket (dictPauseRehashing d) i (uint (v AND of_nat (DICTHT_SIZE_MASK (ht_size_exp d i)))) = Inr b"
    "scan_loop (dictPauseRehashing d) k (of_nat (DICTHT_SIZE_MASK (ht_size_exp d i))) (of_nat (DICTHT_SIZE_MASK (ht_size_exp d k))) v = Inr (w, fs)"
    "covers t d v w (walk_chain b @ fs)"
proof -
  let ?d = "dictPauseRehashing d" and ?e = "nat (ht_size_exp d i)"
  have m: "of_nat (DICTHT_SIZE_MASK (ht_size_exp d j)) = (mask (nat (ht_size_exp d j)) :: u64)" if "j \<in> {i, k}" for j
    using that tbl_okD(1) [OF ok(1)] tbl_okD(1) [OF ok(2)] by (auto intro: mask_word)
  obtain b where b: "bucket ?d i (uint (v AND mask ?e)) = Inr b" "walk_chain b = b" "set b \<subseteq> set (concat bs)"
    "\<And>x. x \<in> set (concat bs) \<Longrightarrow> rank v \<le> entry_rank t x \<Longrightarrow> entry_rank t x < up (step_of ?e) (rank v) \<Longrightarrow> x \<in> set b"
    using emit_ok [OF ok(1), of ?d i] tb(1) by auto
  obtain w fs where w: "scan_loop ?d k (mask ?e) (mask (nat (ht_size_exp d k))) v = Inr (w, fs)" "reach w = up (step_of ?e) (rank v)" "set fs \<subseteq> set (concat cs)"
    "\<And>x. x \<in> set (concat cs) \<Longrightarrow> rank v \<le> entry_rank t x \<Longrightarrow> entry_rank t x < up (step_of ?e) (rank v) \<Longrightarrow> x \<in> set fs"
    using scan_loop_ok [OF ok(2) _ nat_mono [OF le(1)], of ?d k v] tb(2) by auto
  have "step_of E dvd reach w" if "ht_size_exp d 0 \<le> int E" for E
  proof -
    have "64 - E \<le> 64 - ?e" using that le(2) by linarith
    then show ?thesis unfolding w(2) up_def by (intro dvd_mult le_imp_power_dvd)
  qed
  moreover have "rank v < reach w" using up_bounds [of "step_of ?e" "rank v"] w(2) by simp
  ultimately have "covers t d v w (b @ fs)" unfolding covers_def es w(2) using b(3,4) w(3,4) by auto
  with b(1,2) w(1) show thesis using that [of b w fs] by (simp add: m)
qed

lemma scan_one_table:
  assumes ok: "tbl_ok t (ht_size_exp d 0) bs u" and tb: "ht_table d 0 = Some bs" and es: "set (dict_entries d) = set (concat bs)"
  obtains b where "bucket (dictPauseRehashing d) 0 (uint (v AND of_nat (DICTHT_SIZE_MASK (ht_size_exp d 0)))) = Inr b"
    "covers t d v (next_cursor (of_nat (DICTHT_SIZE_MASK (ht_size_exp d 0))) v) (walk_chain b)"
proof -
  let ?d = "dictPauseRehashing d" and ?e = "nat (ht_size_exp d 0)"
  have m: "of_nat (DICTHT_SIZE_MASK (ht_size_exp d 0)) = (mask ?e :: u64)" by (rule mask_word [OF tbl_okD(1) [OF ok]])
  obtain b where b: "bucket ?d 0 (uint (v AND mask ?e)) = Inr b" "walk_chain b = b" "set b \<subseteq> set (concat bs)"
    "\<And>x. x \<in> set (concat bs) \<Longrightarrow> rank v \<le> entry_rank t x \<Longrightarrow> entry_rank t x < up (step_of ?e) (rank v) \<Longrightarrow> x \<in> set b"
    using emit_ok [OF ok, of ?d 0] tb by auto
  note r = reach_next_mask [OF table_exp [OF ok], of v]
  have "step_of E dvd reach (next_cursor (mask ?e) v)" if "ht_size_exp d 0 \<le> int E" for E
  proof -
    have "64 - E \<le> 64 - ?e" using that by linarith
    then show ?thesis unfolding r up_def by (intro dvd_mult le_imp_power_dvd)
  qed
  moreover have "rank v < reach (next_cursor (mask ?e) v)" using up_bounds [of "step_of ?e" "rank v"] r by simp
  ultimately have "covers t d v (next_cursor (mask ?e) v) b" unfolding covers_def es r using b(3,4) by auto
  with b(1,2) show thesis using that [of b] by (simp add: m)
qed

lemma scan_ok:
  assumes wf: "dict_wf t d" and small: "dict_small d"
  shows "\<exists>w es. dictScan d v = Inr (d, w, es) \<and> covers t d v w es"
proof (cases "dictSize d = 0")
  case True
  with size_zero [OF wf small] covers_empty [of d t v] show ?thesis by (simp add: dictScan_def)
next
  case ne: False
  show ?thesis
  proof (cases "dictIsRehashing d")
    case False
    with wf have n1: "ht_table d 1 = None" and t0: "table_ok t d 0" by (simp_all add: dict_wf_def dictIsRehashing_def)
    from ne size_zero [OF wf small] table_exists [OF wf] obtain bs where bs: "ht_table d 0 = Some bs" by auto
    with t0 n1 obtain b where "bucket (dictPauseRehashing d) 0 (uint (v AND of_nat (DICTHT_SIZE_MASK (ht_size_exp d 0)))) = Inr b"
      "covers t d v (next_cursor (of_nat (DICTHT_SIZE_MASK (ht_size_exp d 0))) v) (walk_chain b)"
      using scan_one_table [of t d bs "ht_used d 0" v] by (auto simp: table_ok_def dict_entries_def)
    with ne False show ?thesis by (simp add: dictScan_def Let_def)
  next
    case True
    then obtain bs cs where w: "ht_table d 0 = Some bs" "ht_table d 1 = Some cs" "tbl_ok t (ht_size_exp d 0) bs (ht_used d 0)" "tbl_ok t (ht_size_exp d 1) cs (ht_used d 1)"
      using wf_rehashing [OF wf] unfolding dictIsRehashing_def by metis
    have es: "set (dict_entries d) = set (concat bs) \<union> set (concat cs)" "set (dict_entries d) = set (concat cs) \<union> set (concat bs)"
      using w(1,2) by (auto simp: dict_entries_def)
    have sw: "DICTHT_SIZE (ht_size_exp d 0) > DICTHT_SIZE (ht_size_exp d 1) \<longleftrightarrow> ht_size_exp d 0 > ht_size_exp d 1"
      using tbl_okD(1) [OF w(3)] tbl_okD(1) [OF w(4)] by (auto simp: DICTHT_SIZE_def nat_less_eq_zless)
    show ?thesis
    proof (cases "ht_size_exp d 0 > ht_size_exp d 1")
      case s: True
      then have le: "ht_size_exp d 1 \<le> ht_size_exp d 0" by simp
      show ?thesis by (rule scan_two_tables [OF w(4,3,2,1) es(2) le le, of v]) (use ne True sw s in \<open>simp add: dictScan_def Let_def\<close>)
    next
      case s: False
      then have le: "ht_size_exp d 0 \<le> ht_size_exp d 1" by simp
      show ?thesis by (rule scan_two_tables [OF w(3,4,1,2) es(1) le order.refl, of v]) (use ne True sw s in \<open>simp add: dictScan_def Let_def\<close>)
    qed
  qed
qed

section \<open>Whole iterations\<close>

text \<open>An iteration: the cursor of each call goes into the next one, on the dictionary as it is then, until the cursor 0 comes back.\<close>

fun scan_all :: "('k, 'v) dict list \<Rightarrow> u64 \<Rightarrow> (u64 \<times> ('k, 'v) dictEntry list) c_result" where
  "scan_all [] v = Inr (v, [])"
| "scan_all (d # ds) v = c_bind (dictScan d v) (\<lambda>(_, w, es).
     if w = 0 then Inr (0, es) else c_bind (scan_all ds w) (\<lambda>(u, fs). Inr (u, es @ fs)))"

lemma scan_all_ok:
  assumes "\<forall>d \<in> set ds. dict_wf t d \<and> dict_small d \<and> ht_size_exp d 0 \<le> int E" and "2 ^ 64 \<le> rank v + length ds * step_of E" and "step_of E dvd rank v"
  shows "\<exists>es. scan_all ds v = Inr (0, es) \<and> (\<forall>x \<in> set es. \<exists>d \<in> set ds. x \<in> set (dict_entries d)) \<and>
    (\<forall>r \<ge> rank v. r < 2 ^ 64 \<longrightarrow> (\<exists>d \<in> set ds. \<forall>x \<in> set (dict_entries d). entry_rank t x = r \<longrightarrow> x \<in> set es))"
  using assms
proof (induction ds arbitrary: v)
  case Nil
  with rank_less [of v] show ?case by simp
next
  case (Cons d ds)
  then obtain w es where w: "dictScan d v = Inr (d, w, es)" "covers t d v w es" using scan_ok [of t d v] by auto
  show ?case
  proof (cases "w = 0")
    case True
    with w show ?thesis by (auto simp: covers_def reach_def)
  next
    case False
    with w(2) have r: "reach w = rank w" "rank v < rank w" "step_of E dvd rank w" "set es \<subseteq> set (dict_entries d)"
      "\<And>x. x \<in> set (dict_entries d) \<Longrightarrow> rank v \<le> entry_rank t x \<Longrightarrow> entry_rank t x < rank w \<Longrightarrow> x \<in> set es"
      using Cons.prems(1) by (auto simp: covers_def reach_def)
    have "rank v + step_of E \<le> rank w" using r(2,3) Cons.prems(3) by (metis add.commute dvd_diff_nat dvd_imp_le le_diff_conv2 less_imp_le_nat zero_less_diff)
    then have "2 ^ 64 \<le> rank w + length ds * step_of E" using Cons.prems(2) by simp
    with Cons.IH [of w] Cons.prems(1) r(3) obtain fs where fs: "scan_all ds w = Inr (0, fs)" "\<forall>x \<in> set fs. \<exists>d \<in> set ds. x \<in> set (dict_entries d)"
      "\<forall>r \<ge> rank w. r < 2 ^ 64 \<longrightarrow> (\<exists>d \<in> set ds. \<forall>x \<in> set (dict_entries d). entry_rank t x = r \<longrightarrow> x \<in> set fs)" by auto
    have "\<exists>d' \<in> set (d # ds). \<forall>x \<in> set (dict_entries d'). entry_rank t x = q \<longrightarrow> x \<in> set (es @ fs)" if "rank v \<le> q" "q < 2 ^ 64" for q
    proof (cases "q < rank w")
      case True
      with r(5) that show ?thesis by (intro bexI [of _ d]) auto
    next
      case False
      with fs(3) that(2) obtain d' where "d' \<in> set ds" "\<forall>x \<in> set (dict_entries d'). entry_rank t x = q \<longrightarrow> x \<in> set fs"
        unfolding not_less by blast
      then show ?thesis by (intro bexI [of _ d']) auto
    qed
    moreover have "scan_all (d # ds) v = Inr (0, es @ fs)" using w(1) fs(1) False by simp
    moreover have "\<forall>x \<in> set (es @ fs). \<exists>d' \<in> set (d # ds). x \<in> set (dict_entries d')" using fs(2) r(4) by auto
    ultimately show ?thesis by blast
  qed
qed

text \<open>
  C40. The guarantee of the iterator: calls of \<^verbatim>\<open>dictScan\<close> that start with the cursor 0 and pass each returned
  cursor to the next call, on a dictionary that may have been changed, resized or partly rehashed in any
  way between the calls, end with the cursor 0 after at most \<open>2 ^ E\<close> calls, where \<open>2 ^ E\<close> bounds the sizes of the first
  table; every key that is present at each call has then been returned, and nothing but entries of the dictionary.
\<close>

theorem dictScan_complete:
  assumes t: "dict_type_ok t" and ds: "\<forall>d \<in> set ds. dict_wf t d \<and> dict_small d \<and> ht_size_exp d 0 \<le> int E" and n: "2 ^ E \<le> length ds"
  shows "\<exists>es. scan_all ds 0 = Inr (0, es) \<and> (\<forall>x \<in> set es. \<exists>d \<in> set ds. x \<in> set (dict_entries d)) \<and>
    (\<forall>k. (\<forall>d \<in> set ds. dict_map t d k \<noteq> None) \<longrightarrow> (\<exists>x \<in> set es. same_key t k (entry_key x)))"
proof -
  have "(2 :: nat) ^ 64 \<le> 2 ^ E * step_of E" unfolding power_add [symmetric] by (rule power_increasing) simp_all
  also have "\<dots> \<le> length ds * step_of E" using n by (rule mult_le_mono1)
  finally obtain es where es: "scan_all ds 0 = Inr (0, es)" "\<forall>x \<in> set es. \<exists>d \<in> set ds. x \<in> set (dict_entries d)"
    "\<And>r. r < 2 ^ 64 \<Longrightarrow> \<exists>d \<in> set ds. \<forall>x \<in> set (dict_entries d). entry_rank t x = r \<longrightarrow> x \<in> set es"
    using scan_all_ok [OF ds, of 0] by auto
  have "\<exists>x \<in> set es. same_key t k (entry_key x)" if k: "\<forall>d \<in> set ds. dict_map t d k \<noteq> None" for k
  proof -
    from es(3) [OF rank_less] obtain d where d: "d \<in> set ds" "\<forall>x \<in> set (dict_entries d). entry_rank t x = rank (hashFunction t k) \<longrightarrow> x \<in> set es" by blast
    with k obtain x where x: "x \<in> set (dict_entries d)" "same_key t k (entry_key x)" by (auto simp: map_None pairs_def)
    with d(2) type_okD(2) [OF t x(2)] show ?thesis by metis
  qed
  with es(1,2) show ?thesis by blast
qed

text \<open>A dictionary in the middle of rehashing from four buckets to eight.\<close>

definition ex_dict :: "(nat, nat) dict" where
  "ex_dict = \<lparr>ht_table = (\<lambda>_. None)(0 := Some [[], [Normal 1 11], [Normal 2 12], [Normal 3 13]], 1 := Some [[Normal 0 10], [], [], [], [Normal 4 14], [], [], []]),
     ht_used = (\<lambda>_. 0)(0 := 3, 1 := 2), ht_size_exp = (\<lambda>_. - 1)(0 := 2, 1 := 3), rehashidx = 1, pauserehash = 0\<rparr>"

lemma all_less_list: "(\<forall>j < n. P j) \<longleftrightarrow> list_all P [0..<n]"
  by (auto simp: list_all_iff)

lemma ex_dict_wf: "dict_wf ex_type ex_dict" "dict_small ex_dict" "dict_map ex_type ex_dict 4 = Some (Some 14)"
proof -
  have k: "same_key ex_type a b \<longleftrightarrow> a = b" for a b by (simp add: same_key_def dictCompareKeys_def ex_type_def)
  have n: "nat 2 = 2" "nat 3 = 3" "nat 1 = 1" by simp_all
  have "tbl_ok ex_type 2 [[], [Normal 1 11], [Normal 2 12], [Normal 3 13]] 3"
    unfolding tbl_ok_def all_less_list by (simp add: n entry_ok_def ex_type_def upt_rec)
  moreover have "tbl_ok ex_type 3 [[Normal 0 10], [], [], [], [Normal 4 14], [], [], []] 2"
    unfolding tbl_ok_def all_less_list by (simp add: n entry_ok_def ex_type_def upt_rec)
  moreover have "unique_keys ex_type (pairs (dict_entries ex_dict))"
    by (simp add: unique_keys_def k dict_entries_def tab_def ex_dict_def)
  ultimately show "dict_wf ex_type ex_dict"
    by (simp add: dict_wf_def table_ok_def tab_def ex_dict_def n)
  show "dict_small ex_dict" by (simp add: dict_small_def dict_entries_def tab_def ex_dict_def)
  show "dict_map ex_type ex_dict 4 = Some (Some 14)" by (simp add: dict_map_def dict_entries_def tab_def ex_dict_def k)
qed

theorem dictScan_complete_witness:
  "\<exists>es. scan_all (replicate 4 ex_dict) 0 = Inr (0, es) \<and> (\<exists>x \<in> set es. entry_key x = 4)"
proof -
  have "ht_size_exp ex_dict 0 = 2" by (simp add: ex_dict_def)
  then obtain es where es: "scan_all (replicate 4 ex_dict) 0 = Inr (0, es)"
    "\<And>k. dict_map ex_type ex_dict k \<noteq> None \<Longrightarrow> \<exists>x \<in> set es. same_key ex_type k (entry_key x)"
    using dictScan_complete [OF ex_type_ok, of "replicate 4 ex_dict" 2] ex_dict_wf by auto
  from es(2) [of 4] ex_dict_wf(3) obtain x where "x \<in> set es" "same_key ex_type 4 (entry_key x)" by auto
  moreover from this have "entry_key x = 4" by (auto simp: same_key_def dictCompareKeys_def ex_type_def)
  ultimately show ?thesis using es(1) by blast
qed

end
