(* ===== verification/Redis_Listpack.thy ===== *)
theory Redis_Listpack
  imports Redis_Util
begin

unbundle bit_operations_syntax

text \<open>
  Listpacks, \<^verbatim>\<open>redis-7.2.4/src/listpack.c\<close>: a sequence of strings and integers in one block of bytes.
  A block is the list of its bytes, as many as the allocator made usable; pointers are offsets into the
  block.  The allocator is a parameter: \<open>us n\<close> is the usable size of a block of \<open>n\<close> bytes, and \<open>junk\<close> what fresh
  bytes hold.  Allocations succeed.
\<close>

section \<open>Header\<close>

abbreviation LP_HDR_SIZE :: nat where "LP_HDR_SIZE \<equiv> 6"
abbreviation LP_HDR_NUMELE_UNKNOWN :: nat where "LP_HDR_NUMELE_UNKNOWN \<equiv> 65535"
abbreviation LP_EOF :: byte where "LP_EOF \<equiv> 0xFF"
abbreviation LISTPACK_MAX_SAFETY_SIZE :: nat where "LISTPACK_MAX_SAFETY_SIZE \<equiv> 2 ^ 30"
abbreviation LP_INTBUF_SIZE :: nat where "LP_INTBUF_SIZE \<equiv> 21"

text \<open>\<^verbatim>\<open>p[0]\<close>.\<close>

definition peek :: "byte list \<Rightarrow> int \<Rightarrow> byte c_result" where
  "peek m p = (if 0 \<le> p \<and> p < int (length m) then Inr (m ! nat p) else Inl OutOfBounds)"

definition lpGetTotalBytes :: "byte list \<Rightarrow> nat c_result" where
  "lpGetTotalBytes lp = c_bind (mem_get lp 0 4) (\<lambda>b. Inr (le_nat b))"

definition lpGetNumElements :: "byte list \<Rightarrow> nat c_result" where
  "lpGetNumElements lp = c_bind (mem_get lp 4 2) (\<lambda>b. Inr (le_nat b))"

definition lpSetTotalBytes :: "byte list \<Rightarrow> nat \<Rightarrow> byte list c_result" where
  "lpSetTotalBytes lp v = mem_put lp 0 (le_bytes 4 v)"

definition lpSetNumElements :: "byte list \<Rightarrow> nat \<Rightarrow> byte list c_result" where
  "lpSetNumElements lp v = mem_put lp 4 (le_bytes 2 v)"

definition ASSERT_INTEGRITY :: "byte list \<Rightarrow> int \<Rightarrow> unit c_result" where
  "ASSERT_INTEGRITY lp p = c_bind (lpGetTotalBytes lp) (\<lambda>n. if int LP_HDR_SIZE \<le> p \<and> p < int n then Inr () else Inl AssertFail)"

definition ASSERT_INTEGRITY_LEN :: "byte list \<Rightarrow> int \<Rightarrow> nat \<Rightarrow> unit c_result" where
  "ASSERT_INTEGRITY_LEN lp p len =
     c_bind (lpGetTotalBytes lp) (\<lambda>n. if int LP_HDR_SIZE \<le> p \<and> p + int len < int n then Inr () else Inl AssertFail)"

definition lpSafeToAdd :: "byte list option \<Rightarrow> nat \<Rightarrow> bool c_result" where
  "lpSafeToAdd lp add =
     c_bind (case lp of None \<Rightarrow> Inr 0 | Some lp \<Rightarrow> lpGetTotalBytes lp) (\<lambda>len. Inr (\<not> (len + add) mod 2 ^ 64 > LISTPACK_MAX_SAFETY_SIZE))"

definition lpBytes :: "byte list \<Rightarrow> nat c_result" where
  "lpBytes lp = lpGetTotalBytes lp"

definition lpNew :: "(nat \<Rightarrow> nat) \<Rightarrow> (nat \<Rightarrow> byte) \<Rightarrow> nat \<Rightarrow> byte list c_result" where
  "lpNew us junk capacity =
     (let lp = map junk [0..<us (if capacity > LP_HDR_SIZE + 1 then capacity else LP_HDR_SIZE + 1)] in
      c_bind (lpSetTotalBytes lp (LP_HDR_SIZE + 1)) (\<lambda>lp.
      c_bind (lpSetNumElements lp 0) (\<lambda>lp. mem_put lp (int LP_HDR_SIZE) [LP_EOF])))"

definition lpShrinkToFit :: "(nat \<Rightarrow> nat) \<Rightarrow> (nat \<Rightarrow> byte) \<Rightarrow> byte list \<Rightarrow> byte list c_result" where
  "lpShrinkToFit us junk lp =
     c_bind (lpGetTotalBytes lp) (\<lambda>size. Inr (if size < length lp then mem_realloc junk lp (us size) else lp))"

section \<open>Encoding elements\<close>

text \<open>The digit loop of \<^verbatim>\<open>lpStringToInt64\<close>: the value and the bytes it did not use, or an overflow.\<close>

fun lp_digits :: "nat \<Rightarrow> string \<Rightarrow> (nat \<times> string) option" where
  "lp_digits v [] = Some (v, [])"
| "lp_digits v (c # p) =
     (if is_digit c then
        if v > ULLONG_MAX div 10 then None
        else if v * 10 > ULLONG_MAX - digit_val c then None
        else lp_digits (v * 10 + digit_val c) p
      else Some (v, c # p))"

abbreviation chars :: "byte list \<Rightarrow> string" where "chars s \<equiv> map (\<lambda>b. char_of (unat b)) s"

definition lpStringToInt64 :: "byte list \<Rightarrow> int option" where
  "lpStringToInt64 s =
     (let p = chars s in
      if length p = 0 \<or> length p \<ge> LONG_STR_SIZE then None
      else if length p = 1 \<and> hd p = CHR ''0'' then Some 0
      else let negative = (hd p = CHR ''-''); p = (if negative then tl p else p) in
        if negative \<and> p = [] then None
        else if \<not> (is_digit (hd p) \<and> hd p \<noteq> CHR ''0'') then None
        else case lp_digits (digit_val (hd p)) (tl p) of
          None \<Rightarrow> None
        | Some (v, rest) \<Rightarrow>
            if rest \<noteq> [] then None
            else if negative then if v > LLONG_MAX + 1 then None else Some (- int v)
            else if v > LLONG_MAX then None else Some (int v))"

text \<open>The bytes \<^verbatim>\<open>lpEncodeIntegerGetType\<close> stores; their number is \<^verbatim>\<open>enclen\<close>.\<close>

definition lpEncodeIntegerGetType :: "int \<Rightarrow> byte list" where
  "lpEncodeIntegerGetType v =
     (if v \<ge> 0 \<and> v \<le> 127 then [of_int v]
      else if v \<ge> - 4096 \<and> v \<le> 4095 then
        let v = (if v < 0 then 2 ^ 13 + v else v) in [of_int (v div 256) OR 0xC0, of_int (v mod 256)]
      else if v \<ge> - 32768 \<and> v \<le> 32767 then let v = (if v < 0 then 2 ^ 16 + v else v) in 0xF1 # le_bytes 2 (nat v)
      else if v \<ge> - 8388608 \<and> v \<le> 8388607 then let v = (if v < 0 then 2 ^ 24 + v else v) in 0xF2 # le_bytes 3 (nat v)
      else if v \<ge> - 2147483648 \<and> v \<le> 2147483647 then let v = (if v < 0 then 2 ^ 32 + v else v) in 0xF3 # le_bytes 4 (nat v)
      else let uv = v mod 2 ^ 64 in 0xF4 # le_bytes 8 (nat uv))"

text \<open>The integer encoding if there is one, and \<^verbatim>\<open>enclen\<close>.\<close>

definition lpEncodeGetType :: "byte list \<Rightarrow> byte list option \<times> nat" where
  "lpEncodeGetType ele =
     (case lpStringToInt64 ele of
        Some v \<Rightarrow> let intenc = lpEncodeIntegerGetType v in (Some intenc, length intenc)
      | None \<Rightarrow>
          (None, if length ele < 64 then 1 + length ele else if length ele < 4096 then 2 + length ele else 5 + length ele))"

text \<open>The bytes of the length field; their number is what \<^verbatim>\<open>lpEncodeBacklen\<close> returns.\<close>

definition lpEncodeBacklen :: "nat \<Rightarrow> byte list" where
  "lpEncodeBacklen l =
     (if l \<le> 127 then [of_nat l]
      else if l < 16383 then [of_nat (l div 2 ^ 7), of_nat (l mod 128) OR 128]
      else if l < 2097151 then [of_nat (l div 2 ^ 14), of_nat (l div 2 ^ 7 mod 128) OR 128, of_nat (l mod 128) OR 128]
      else if l < 268435455 then
        [of_nat (l div 2 ^ 21), of_nat (l div 2 ^ 14 mod 128) OR 128, of_nat (l div 2 ^ 7 mod 128) OR 128, of_nat (l mod 128) OR 128]
      else [of_nat (l div 2 ^ 28), of_nat (l div 2 ^ 21 mod 128) OR 128, of_nat (l div 2 ^ 14 mod 128) OR 128,
            of_nat (l div 2 ^ 7 mod 128) OR 128, of_nat (l mod 128) OR 128])"

abbreviation backlen_size :: "nat \<Rightarrow> nat" where "backlen_size l \<equiv> length (lpEncodeBacklen l)"

function decode_loop :: "byte list \<Rightarrow> int \<Rightarrow> nat \<Rightarrow> nat \<Rightarrow> nat c_result" where
  "decode_loop m p val shift =
     c_bind (peek m p) (\<lambda>b.
       let val = val OR push_bit shift (unat (b AND 127)) in
       if b AND 128 = 0 then Inr val
       else if shift + 7 > 28 then Inr ULLONG_MAX
       else decode_loop m (p - 1) val (shift + 7))"
  by pat_completeness auto
termination by (relation "measure (\<lambda>(m, p, val, shift). 29 - shift)") auto

declare decode_loop.simps [simp del]

definition lpDecodeBacklen :: "byte list \<Rightarrow> int \<Rightarrow> nat c_result" where
  "lpDecodeBacklen m p = decode_loop m p 0 0"

definition lpEncodeString :: "byte list \<Rightarrow> byte list" where
  "lpEncodeString s =
     (let len = length s in
      if len < 64 then (of_nat len OR 0x80) # s
      else if len < 4096 then [of_nat (len div 256) OR 0xE0, of_nat (len mod 256)] @ s
      else 0xF0 # le_bytes 4 len @ s)"

section \<open>Decoding elements\<close>

abbreviation IS_7BIT_UINT :: "byte \<Rightarrow> bool" where "IS_7BIT_UINT b \<equiv> b AND 0x80 = 0"
abbreviation IS_6BIT_STR :: "byte \<Rightarrow> bool" where "IS_6BIT_STR b \<equiv> b AND 0xC0 = 0x80"
abbreviation IS_13BIT_INT :: "byte \<Rightarrow> bool" where "IS_13BIT_INT b \<equiv> b AND 0xE0 = 0xC0"
abbreviation IS_12BIT_STR :: "byte \<Rightarrow> bool" where "IS_12BIT_STR b \<equiv> b AND 0xF0 = 0xE0"
abbreviation IS_16BIT_INT :: "byte \<Rightarrow> bool" where "IS_16BIT_INT b \<equiv> b = 0xF1"
abbreviation IS_24BIT_INT :: "byte \<Rightarrow> bool" where "IS_24BIT_INT b \<equiv> b = 0xF2"
abbreviation IS_32BIT_INT :: "byte \<Rightarrow> bool" where "IS_32BIT_INT b \<equiv> b = 0xF3"
abbreviation IS_64BIT_INT :: "byte \<Rightarrow> bool" where "IS_64BIT_INT b \<equiv> b = 0xF4"
abbreviation IS_32BIT_STR :: "byte \<Rightarrow> bool" where "IS_32BIT_STR b \<equiv> b = 0xF0"

definition len_6bit :: "byte list \<Rightarrow> int \<Rightarrow> nat c_result" where
  "len_6bit m p = c_bind (peek m p) (\<lambda>b. Inr (unat (b AND 0x3F)))"

definition len_12bit :: "byte list \<Rightarrow> int \<Rightarrow> nat c_result" where
  "len_12bit m p = c_bind (peek m p) (\<lambda>b. c_bind (peek m (p + 1)) (\<lambda>b1. Inr (unat (b AND 0xF) * 256 + unat b1)))"

definition len_32bit :: "byte list \<Rightarrow> int \<Rightarrow> nat c_result" where
  "len_32bit m p = c_bind (mem_get m (p + 1) 4) (\<lambda>b. Inr (le_nat b))"

definition lpCurrentEncodedSizeUnsafe :: "byte list \<Rightarrow> int \<Rightarrow> nat c_result" where
  "lpCurrentEncodedSizeUnsafe m p = c_bind (peek m p) (\<lambda>b.
     if IS_7BIT_UINT b then Inr 1
     else if IS_6BIT_STR b then c_bind (len_6bit m p) (\<lambda>n. Inr (1 + n))
     else if IS_13BIT_INT b then Inr 2
     else if IS_16BIT_INT b then Inr 3
     else if IS_24BIT_INT b then Inr 4
     else if IS_32BIT_INT b then Inr 5
     else if IS_64BIT_INT b then Inr 9
     else if IS_12BIT_STR b then c_bind (len_12bit m p) (\<lambda>n. Inr (2 + n))
     else if IS_32BIT_STR b then c_bind (len_32bit m p) (\<lambda>n. Inr ((5 + n) mod 2 ^ 32))
     else if b = LP_EOF then Inr 1
     else Inr 0)"

definition lpCurrentEncodedSizeBytes :: "byte list \<Rightarrow> int \<Rightarrow> nat c_result" where
  "lpCurrentEncodedSizeBytes m p = c_bind (peek m p) (\<lambda>b.
     Inr (if IS_7BIT_UINT b then 1
          else if IS_6BIT_STR b then 1
          else if IS_13BIT_INT b then 1
          else if IS_16BIT_INT b then 1
          else if IS_24BIT_INT b then 1
          else if IS_32BIT_INT b then 1
          else if IS_64BIT_INT b then 1
          else if IS_12BIT_STR b then 2
          else if IS_32BIT_STR b then 5
          else if b = LP_EOF then 1
          else 0))"

text \<open>A string inside the listpack, by its offset and length, or an integer.\<close>

datatype lp_value = LpStr int nat | LpInt int

text \<open>Two's complement: the value of \<open>uval\<close> in a type whose negative numbers start at \<open>negstart\<close> and end at \<open>negmax\<close>.\<close>

definition lp_signed :: "nat \<Rightarrow> nat \<Rightarrow> nat \<Rightarrow> int" where
  "lp_signed uval negstart negmax = (if uval \<ge> negstart then - int (negmax - uval) - 1 else int uval)"

text \<open>\<^verbatim>\<open>lpGetWithSize\<close> without \<^verbatim>\<open>intbuf\<close>: the value and \<^verbatim>\<open>entry_size\<close>, which a bad encoding leaves unset.\<close>

definition lpGetWithSize :: "byte list \<Rightarrow> int \<Rightarrow> (lp_value \<times> nat option) c_result" where
  "lpGetWithSize m p = c_bind (peek m p) (\<lambda>b.
     if IS_7BIT_UINT b then Inr (LpInt (lp_signed (unat (b AND 0x7F)) ULLONG_MAX 0), Some 2)
     else if IS_6BIT_STR b then c_bind (len_6bit m p) (\<lambda>n. Inr (LpStr (p + 1) n, Some (1 + n + backlen_size (n + 1))))
     else if IS_13BIT_INT b then
       c_bind (peek m (p + 1)) (\<lambda>b1. Inr (LpInt (lp_signed (unat (b AND 0x1F) * 256 + unat b1) (2 ^ 12) 8191), Some 3))
     else if IS_16BIT_INT b then c_bind (mem_get m (p + 1) 2) (\<lambda>bs. Inr (LpInt (lp_signed (le_nat bs) (2 ^ 15) (2 ^ 16 - 1)), Some 4))
     else if IS_24BIT_INT b then c_bind (mem_get m (p + 1) 3) (\<lambda>bs. Inr (LpInt (lp_signed (le_nat bs) (2 ^ 23) (2 ^ 24 - 1)), Some 5))
     else if IS_32BIT_INT b then c_bind (mem_get m (p + 1) 4) (\<lambda>bs. Inr (LpInt (lp_signed (le_nat bs) (2 ^ 31) (2 ^ 32 - 1)), Some 6))
     else if IS_64BIT_INT b then c_bind (mem_get m (p + 1) 8) (\<lambda>bs. Inr (LpInt (lp_signed (le_nat bs) (2 ^ 63) ULLONG_MAX), Some 10))
     else if IS_12BIT_STR b then c_bind (len_12bit m p) (\<lambda>n. Inr (LpStr (p + 2) n, Some (2 + n + backlen_size (n + 2))))
     else if IS_32BIT_STR b then c_bind (len_32bit m p) (\<lambda>n. Inr (LpStr (p + 5) n, Some (5 + n + backlen_size (n + 5))))
     else Inr (LpInt (lp_signed (12345678900000000 + unat b) ULLONG_MAX 0), None))"

text \<open>\<^verbatim>\<open>lpGet\<close> with \<^verbatim>\<open>intbuf\<close>: the bytes that the returned pointer and count name.\<close>

definition lpGet :: "byte list \<Rightarrow> int \<Rightarrow> string \<Rightarrow> byte list c_result" where
  "lpGet m p intbuf = c_bind (lpGetWithSize m p) (\<lambda>(v, _). case v of
     LpStr off n \<Rightarrow> mem_get m off n
   | LpInt v \<Rightarrow> c_bind (ll2string intbuf v) (\<lambda>(buf, n). Inr (map of_char (take n buf))))"

section \<open>Moving between elements\<close>

definition lpSkip :: "byte list \<Rightarrow> int \<Rightarrow> int c_result" where
  "lpSkip m p = c_bind (lpCurrentEncodedSizeUnsafe m p) (\<lambda>entrylen. Inr (p + int (entrylen + backlen_size entrylen)))"

text \<open>Whether the entry is valid, and \<^verbatim>\<open>*pp\<close> afterwards.\<close>

definition lpValidateNext :: "byte list \<Rightarrow> int option \<Rightarrow> nat \<Rightarrow> (bool \<times> int option) c_result" where
  "lpValidateNext lp pp lpbytes =
     (let OUT_OF_RANGE = (\<lambda>p. p < int LP_HDR_SIZE \<or> p > int lpbytes - 1) in
      case pp of
        None \<Rightarrow> Inr (False, pp)
      | Some p \<Rightarrow>
          if OUT_OF_RANGE p then Inr (False, pp)
          else c_bind (peek lp p) (\<lambda>b.
            if b = LP_EOF then Inr (True, None)
            else c_bind (lpCurrentEncodedSizeBytes lp p) (\<lambda>lenbytes.
              if lenbytes = 0 then Inr (False, pp)
              else if OUT_OF_RANGE (p + int lenbytes) then Inr (False, pp)
              else c_bind (lpCurrentEncodedSizeUnsafe lp p) (\<lambda>entrylen.
                let encodedBacklen = backlen_size entrylen; entrylen = entrylen + encodedBacklen in
                if OUT_OF_RANGE (p + int entrylen) then Inr (False, pp)
                else let p = p + int entrylen in
                  c_bind (lpDecodeBacklen lp (p - 1)) (\<lambda>prevlen.
                    if (prevlen + encodedBacklen) mod 2 ^ 64 \<noteq> entrylen then Inr (False, pp)
                    else Inr (True, Some p))))))"

definition lpAssertValidEntry :: "byte list \<Rightarrow> nat \<Rightarrow> int \<Rightarrow> unit c_result" where
  "lpAssertValidEntry lp lpbytes p = c_bind (lpValidateNext lp (Some p) lpbytes) (\<lambda>(ok, _). if ok then Inr () else Inl AssertFail)"

definition lpNext :: "byte list \<Rightarrow> int \<Rightarrow> int option c_result" where
  "lpNext lp p = c_bind (lpSkip lp p) (\<lambda>p. c_bind (peek lp p) (\<lambda>b.
     if b = LP_EOF then Inr None
     else c_bind (lpBytes lp) (\<lambda>n. c_bind (lpAssertValidEntry lp n p) (\<lambda>_. Inr (Some p)))))"

definition lpPrev :: "byte list \<Rightarrow> int \<Rightarrow> int option c_result" where
  "lpPrev lp p =
     (if p = int LP_HDR_SIZE then Inr None
      else let p = p - 1 in
        c_bind (lpDecodeBacklen lp p) (\<lambda>prevlen.
          let prevlen = (prevlen + backlen_size prevlen) mod 2 ^ 64; p = p - (int prevlen - 1) in
          c_bind (lpBytes lp) (\<lambda>n. c_bind (lpAssertValidEntry lp n p) (\<lambda>_. Inr (Some p)))))"

definition lpFirst :: "byte list \<Rightarrow> int option c_result" where
  "lpFirst lp =
     (let p = int LP_HDR_SIZE in
      c_bind (peek lp p) (\<lambda>b.
        if b = LP_EOF then Inr None
        else c_bind (lpBytes lp) (\<lambda>n. c_bind (lpAssertValidEntry lp n p) (\<lambda>_. Inr (Some p)))))"

definition lpLast :: "byte list \<Rightarrow> int option c_result" where
  "lpLast lp = c_bind (lpGetTotalBytes lp) (\<lambda>n. lpPrev lp (int n - 1))"

text \<open>The loop of \<^verbatim>\<open>lpLength\<close> ends because every step moves forward inside the block.\<close>

lemma backlen_nonempty [simp]: "lpEncodeBacklen l \<noteq> []"
  by (simp add: lpEncodeBacklen_def)

lemma entry_pos [simp]: "0 < int n + int (backlen_size l)"
  using backlen_nonempty [of l] by (cases "lpEncodeBacklen l") auto

lemma lpNext_forward: "lpNext lp p = Inr (Some q) \<Longrightarrow> p < q \<and> q < int (length lp)"
  by (auto simp: lpNext_def lpSkip_def peek_def c_bind_Inr_iff split: if_splits)

function count_loop :: "byte list \<Rightarrow> int option \<Rightarrow> nat \<Rightarrow> nat c_result" where
  "count_loop lp None cnt = Inr cnt"
| "count_loop lp (Some p) cnt =
     (case lpNext lp p of Inl e \<Rightarrow> Inl e | Inr q \<Rightarrow> count_loop lp q ((cnt + 1) mod 2 ^ 32))"
  by pat_completeness auto
termination
proof (relation "measures [\<lambda>(lp, p, cnt). case p of None \<Rightarrow> 0 | Some p \<Rightarrow> Suc (nat (int (length lp) - p))]")
  fix lp p cnt q assume "lpNext lp p = Inr q"
  then show "((lp, q, (cnt + 1) mod 2 ^ 32), lp, Some p, cnt) \<in> measures [\<lambda>(lp, p, cnt). case p of None \<Rightarrow> 0 | Some p \<Rightarrow> Suc (nat (int (length lp) - p))]"
    using lpNext_forward [of lp p] by (cases q) auto
qed simp

definition lpLength :: "byte list \<Rightarrow> (byte list \<times> nat) c_result" where
  "lpLength lp = c_bind (lpGetNumElements lp) (\<lambda>numele.
     if numele \<noteq> LP_HDR_NUMELE_UNKNOWN then Inr (lp, numele)
     else c_bind (lpFirst lp) (\<lambda>p. c_bind (count_loop lp p 0) (\<lambda>cnt.
       if cnt < LP_HDR_NUMELE_UNKNOWN then c_bind (lpSetNumElements lp cnt) (\<lambda>lp. Inr (lp, cnt)) else Inr (lp, cnt))))"

text \<open>The two loops of \<^verbatim>\<open>lpSeek\<close>, with the number of steps left.\<close>

fun seek_forward :: "byte list \<Rightarrow> nat \<Rightarrow> int option \<Rightarrow> int option c_result" where
  "seek_forward lp 0 ele = Inr ele"
| "seek_forward lp (Suc k) ele = (case ele of None \<Rightarrow> Inr None | Some p \<Rightarrow> c_bind (lpNext lp p) (seek_forward lp k))"

fun seek_backward :: "byte list \<Rightarrow> nat \<Rightarrow> int option \<Rightarrow> int option c_result" where
  "seek_backward lp 0 ele = Inr ele"
| "seek_backward lp (Suc k) ele = (case ele of None \<Rightarrow> Inr None | Some p \<Rightarrow> c_bind (lpPrev lp p) (seek_backward lp k))"

definition lpSeek :: "byte list \<Rightarrow> int \<Rightarrow> int option c_result" where
  "lpSeek lp index = c_bind (lpGetNumElements lp) (\<lambda>numele.
     let forward = (\<lambda>index. c_bind (lpFirst lp) (seek_forward lp (nat index)));
         backward = (\<lambda>index. c_bind (lpLast lp) (seek_backward lp (nat (- 1 - index)))) in
     if numele \<noteq> LP_HDR_NUMELE_UNKNOWN then
       let index = (if index < 0 then int numele + index else index) in
       if index < 0 then Inr None
       else if index \<ge> int numele then Inr None
       else if index > int numele div 2 then backward (index - int numele)
       else forward index
     else if index < 0 then backward index else forward index)"

section \<open>Changing a listpack\<close>

datatype lp_where = LP_BEFORE | LP_AFTER | LP_REPLACE

text \<open>
  The result of \<^verbatim>\<open>lpInsert\<close>: nothing when the listpack would get too long, else the block and \<^verbatim>\<open>*newp\<close>.
\<close>

definition lpInsert :: "(nat \<Rightarrow> nat) \<Rightarrow> (nat \<Rightarrow> byte) \<Rightarrow> byte list \<Rightarrow> byte list option \<Rightarrow> byte list option \<Rightarrow> int \<Rightarrow> lp_where \<Rightarrow>
    (byte list \<times> int option) option c_result" where
  "lpInsert us junk lp elestr eleint p wh =
     (let delete = (elestr = None \<and> eleint = None);
          wh = (if delete then LP_REPLACE else wh) in
      c_bind (if wh = LP_AFTER then c_bind (lpSkip lp p) (\<lambda>p. c_bind (ASSERT_INTEGRITY lp p) (\<lambda>_. Inr (p, LP_BEFORE))) else Inr (p, wh)) (\<lambda>(p, wh).
      let (data, enclen) = (case elestr of
              Some s \<Rightarrow> (case lpEncodeGetType s of (Some intenc, n) \<Rightarrow> (intenc, n) | (None, n) \<Rightarrow> (lpEncodeString s, n))
            | None \<Rightarrow> (case eleint of Some i \<Rightarrow> (i, length i) | None \<Rightarrow> ([], 0)));
          backlen = (if \<not> delete then lpEncodeBacklen enclen else []);
          size = enclen + length backlen in
      c_bind (lpGetTotalBytes lp) (\<lambda>old.
      c_bind (if wh = LP_REPLACE then
                c_bind (lpCurrentEncodedSizeUnsafe lp p) (\<lambda>r. let r = (r + backlen_size r) mod 2 ^ 32 in
                c_bind (ASSERT_INTEGRITY_LEN lp p r) (\<lambda>_. Inr r))
              else Inr 0) (\<lambda>replaced_len.
      let new = (old + size + (2 ^ 64 - replaced_len)) mod 2 ^ 64 in
      if new > 2 ^ 32 - 1 then Inr None
      else let lp = (if new > old \<and> new > length lp then mem_realloc junk lp (us new) else lp) in
      c_bind (if wh = LP_BEFORE then mem_move lp (p + int size) p (nat ((int old - p) mod 2 ^ 64))
              else mem_move lp (p + int size) (p + int replaced_len) (nat ((int old - p - int replaced_len) mod 2 ^ 64))) (\<lambda>lp.
      let lp = (if new < old then mem_realloc junk lp (us new) else lp) in
      c_bind (if delete then c_bind (peek lp p) (\<lambda>b. Inr (if b = LP_EOF then None else Some p)) else Inr (Some p)) (\<lambda>newp.
      c_bind (if \<not> delete then c_bind (mem_put lp p data) (\<lambda>lp. mem_put lp (p + int enclen) backlen) else Inr lp) (\<lambda>lp.
      c_bind (if wh \<noteq> LP_REPLACE \<or> delete then
                c_bind (lpGetNumElements lp) (\<lambda>n.
                  if n \<noteq> LP_HDR_NUMELE_UNKNOWN then lpSetNumElements lp (if \<not> delete then n + 1 else (n + (2 ^ 32 - 1)) mod 2 ^ 32) else Inr lp)
              else Inr lp) (\<lambda>lp.
      c_bind (lpSetTotalBytes lp new) (\<lambda>lp. Inr (Some (lp, newp)))))))))))"

definition lpInsertString where
  "lpInsertString us junk lp s p wh = lpInsert us junk lp (Some s) None p wh"

definition lpInsertInteger where
  "lpInsertInteger us junk lp lval p wh = lpInsert us junk lp None (Some (lpEncodeIntegerGetType lval)) p wh"

definition lpAppend where
  "lpAppend us junk lp ele = c_bind (lpGetTotalBytes lp) (\<lambda>n. lpInsert us junk lp (Some ele) None (int n - 1) LP_BEFORE)"

definition lpAppendInteger where
  "lpAppendInteger us junk lp lval = c_bind (lpGetTotalBytes lp) (\<lambda>n. lpInsertInteger us junk lp lval (int n - 1) LP_BEFORE)"

definition lpPrepend where
  "lpPrepend us junk lp s = c_bind (lpFirst lp) (\<lambda>p. case p of
     None \<Rightarrow> lpAppend us junk lp s | Some p \<Rightarrow> lpInsert us junk lp (Some s) None p LP_BEFORE)"

definition lpPrependInteger where
  "lpPrependInteger us junk lp lval = c_bind (lpFirst lp) (\<lambda>p. case p of
     None \<Rightarrow> lpAppendInteger us junk lp lval | Some p \<Rightarrow> lpInsertInteger us junk lp lval p LP_BEFORE)"

definition lpReplace where
  "lpReplace us junk lp p s = lpInsert us junk lp (Some s) None p LP_REPLACE"

definition lpReplaceInteger where
  "lpReplaceInteger us junk lp p lval = lpInsertInteger us junk lp lval p LP_REPLACE"

definition lpDelete where
  "lpDelete us junk lp p = lpInsert us junk lp None None p LP_REPLACE"

text \<open>The loop of \<^verbatim>\<open>lpDeleteRangeWithEntry\<close>: how many entries it takes in, and where the rest starts.\<close>

fun range_loop :: "byte list \<Rightarrow> nat \<Rightarrow> nat \<Rightarrow> nat \<Rightarrow> int \<Rightarrow> (nat \<times> int) c_result" where
  "range_loop lp bytes 0 deleted tail = Inr (deleted, tail)"
| "range_loop lp bytes (Suc num) deleted tail =
     c_bind (lpSkip lp tail) (\<lambda>tail. c_bind (peek lp tail) (\<lambda>b.
       if b = LP_EOF then Inr (deleted + 1, tail)
       else c_bind (lpAssertValidEntry lp bytes tail) (\<lambda>_. range_loop lp bytes num (deleted + 1) tail)))"

definition lpDeleteRangeWithEntry ::
    "(nat \<Rightarrow> nat) \<Rightarrow> (nat \<Rightarrow> byte) \<Rightarrow> byte list \<Rightarrow> int \<Rightarrow> nat \<Rightarrow> (byte list \<times> int option) c_result" where
  "lpDeleteRangeWithEntry us junk lp first num =
     c_bind (lpBytes lp) (\<lambda>bytes.
     if num = 0 then Inr (lp, Some first)
     else c_bind (range_loop lp bytes num 0 first) (\<lambda>(deleted, tail).
     let eofptr = int bytes - 1 in
     c_bind (mem_move lp first tail (nat ((eofptr - tail + 1) mod 2 ^ 64))) (\<lambda>lp.
     c_bind (lpSetTotalBytes lp (nat ((int bytes - (tail - first)) mod 2 ^ 64))) (\<lambda>lp.
     c_bind (lpGetNumElements lp) (\<lambda>numele.
     c_bind (if numele \<noteq> LP_HDR_NUMELE_UNKNOWN then lpSetNumElements lp (nat ((int numele - int deleted) mod 2 ^ 64)) else Inr lp) (\<lambda>lp.
     c_bind (lpShrinkToFit us junk lp) (\<lambda>lp.
     c_bind (peek lp first) (\<lambda>b. Inr (lp, if b = LP_EOF then None else Some first)))))))))"

definition lpDeleteRange :: "(nat \<Rightarrow> nat) \<Rightarrow> (nat \<Rightarrow> byte) \<Rightarrow> byte list \<Rightarrow> int \<Rightarrow> nat \<Rightarrow> byte list c_result" where
  "lpDeleteRange us junk lp index num =
     c_bind (lpGetNumElements lp) (\<lambda>numele.
     if num = 0 then Inr lp
     else c_bind (lpSeek lp index) (\<lambda>r. case r of
       None \<Rightarrow> Inr lp
     | Some p \<Rightarrow>
         let index = (if numele \<noteq> LP_HDR_NUMELE_UNKNOWN \<and> index < 0 then int numele + index else index) in
         if numele \<noteq> LP_HDR_NUMELE_UNKNOWN \<and> nat ((int numele - index) mod 2 ^ 64) \<le> num then
           c_bind (mem_put lp p [LP_EOF]) (\<lambda>lp.
           c_bind (lpSetTotalBytes lp (nat (p + 1))) (\<lambda>lp.
           c_bind (lpSetNumElements lp (nat (index mod 2 ^ 64))) (\<lambda>lp. lpShrinkToFit us junk lp)))
         else c_bind (lpDeleteRangeWithEntry us junk lp p num) (\<lambda>(lp, _). Inr lp)))"

text \<open>\<^verbatim>\<open>lpMerge\<close> of two different blocks: the merged one.\<close>

definition lpMerge :: "(nat \<Rightarrow> nat) \<Rightarrow> (nat \<Rightarrow> byte) \<Rightarrow> byte list \<Rightarrow> byte list \<Rightarrow> byte list c_result" where
  "lpMerge us junk first second =
     c_bind (lpBytes first) (\<lambda>first_bytes. c_bind (lpLength first) (\<lambda>(first, first_len).
     c_bind (lpBytes second) (\<lambda>second_bytes. c_bind (lpLength second) (\<lambda>(second, second_len).
     let append = (first_bytes \<ge> second_bytes);
         target = (if append then first else second); target_bytes = (if append then first_bytes else second_bytes);
         source = (if append then second else first); source_bytes = (if append then second_bytes else first_bytes);
         lpbytes = (first_bytes + second_bytes + (2 ^ 64 - LP_HDR_SIZE - 1)) mod 2 ^ 64 in
     if \<not> lpbytes < 2 ^ 32 - 1 then Inl AssertFail
     else let lplength = first_len + second_len; lplength = (if lplength < 65535 then lplength else 65535);
              target = mem_realloc junk target (us lpbytes) in
     c_bind (if append then
               c_bind (mem_get source (int LP_HDR_SIZE) (source_bytes - LP_HDR_SIZE)) (mem_put target (int target_bytes - 1))
             else
               c_bind (mem_move target (int source_bytes - 1) (int LP_HDR_SIZE) (target_bytes - LP_HDR_SIZE)) (\<lambda>target.
               c_bind (mem_get source 0 (source_bytes - 1)) (mem_put target 0))) (\<lambda>target.
     c_bind (lpSetNumElements target lplength) (\<lambda>target. lpSetTotalBytes target lpbytes))))))"

definition lpDup :: "(nat \<Rightarrow> nat) \<Rightarrow> (nat \<Rightarrow> byte) \<Rightarrow> byte list \<Rightarrow> byte list c_result" where
  "lpDup us junk lp = c_bind (lpBytes lp) (\<lambda>n. c_bind (mem_get lp 0 n) (mem_put (map junk [0..<us n]) 0))"

section \<open>Searching and validation\<close>

definition lpCompare :: "byte list \<Rightarrow> int \<Rightarrow> byte list \<Rightarrow> bool c_result" where
  "lpCompare lp p s = c_bind (peek lp p) (\<lambda>b.
     if b = LP_EOF then Inr False
     else c_bind (lpGetWithSize lp p) (\<lambda>(v, _). case v of
       LpStr off sz \<Rightarrow> if length s = sz then c_bind (mem_get lp off sz) (\<lambda>bs. Inr (bs = s)) else Inr False
     | LpInt sz \<Rightarrow> Inr (lpStringToInt64 s = Some sz)))"

text \<open>
  The loop of \<^verbatim>\<open>lpFind\<close>, with fuel; \<open>None\<close> when it runs out.  \<open>entry_size\<close> is the local variable, which
  a bad encoding leaves as it was.
\<close>

fun find_loop :: "nat \<Rightarrow> byte list \<Rightarrow> nat \<Rightarrow> byte list \<Rightarrow> nat \<Rightarrow> int \<Rightarrow> nat \<Rightarrow> nat \<Rightarrow> int option c_result option" where
  "find_loop 0 lp lp_bytes s skip p skipcnt entry_size = None"
| "find_loop (Suc fuel) lp lp_bytes s skip p skipcnt entry_size =
     (let step =
        (if skipcnt = 0 then
           c_bind (lpGetWithSize lp p) (\<lambda>(v, es).
           let entry_size = (case es of None \<Rightarrow> entry_size | Some n \<Rightarrow> n) in
           c_bind (case v of
               LpStr off n \<Rightarrow>
                 if \<not> (p \<ge> int LP_HDR_SIZE \<and> p + int entry_size < int lp_bytes) then Inl AssertFail
                 else if length s = n then c_bind (mem_get lp off n) (\<lambda>bs. Inr (bs = s)) else Inr False
             | LpInt ll \<Rightarrow> Inr (\<not> (length s \<ge> 32 \<or> length s = 0) \<and> lpStringToInt64 s = Some ll)) (\<lambda>found.
           Inr (found, if found then p else p + int entry_size, skip, entry_size)))
         else c_bind (lpSkip lp p) (\<lambda>p. Inr (False, p, skipcnt - 1, entry_size))) in
      case step of
        Inl e \<Rightarrow> Some (Inl e)
      | Inr (found, p, skipcnt, entry_size) \<Rightarrow>
          if found then Some (Inr (Some p))
          else (case c_bind (if p + 8 \<ge> int lp_bytes then lpAssertValidEntry lp lp_bytes p
                             else if p \<ge> int LP_HDR_SIZE \<and> p < int lp_bytes then Inr () else Inl AssertFail) (\<lambda>_. peek lp p) of
                  Inl e \<Rightarrow> Some (Inl e)
                | Inr b \<Rightarrow> if b = LP_EOF then Some (Inr None) else find_loop fuel lp lp_bytes s skip p skipcnt entry_size))"

definition lpFind :: "byte list \<Rightarrow> int \<Rightarrow> byte list \<Rightarrow> nat \<Rightarrow> int option c_result option" where
  "lpFind lp p s skip = (case lpBytes lp of Inl e \<Rightarrow> Some (Inl e)
     | Inr n \<Rightarrow> find_loop (length lp) lp n s skip p 0 123456789)"

definition lpValidateFirst :: "byte list \<Rightarrow> int option c_result" where
  "lpValidateFirst lp = c_bind (peek lp (int LP_HDR_SIZE)) (\<lambda>b. Inr (if b = LP_EOF then None else Some (int LP_HDR_SIZE)))"

lemma lpValidateNext_forward: "lpValidateNext lp (Some p) n = Inr (True, Some q) \<Longrightarrow> p < q \<and> q < int n"
  by (auto simp: lpValidateNext_def Let_def c_bind_Inr_iff split: if_splits)

text \<open>The loop over the entries: the final \<^verbatim>\<open>p\<close> and \<^verbatim>\<open>count\<close>, or an invalid entry.\<close>

function lp_validate_loop :: "byte list \<Rightarrow> nat \<Rightarrow> int \<Rightarrow> nat \<Rightarrow> (int \<times> nat) option c_result" where
  "lp_validate_loop lp bytes p cnt = c_bind (peek lp p) (\<lambda>b.
     if b = LP_EOF then Inr (Some (p, cnt))
     else case lpValidateNext lp (Some p) bytes of
       Inl e \<Rightarrow> Inl e
     | Inr (ok, pp) \<Rightarrow>
         if \<not> ok then Inr None
         else case pp of None \<Rightarrow> Inr None | Some q \<Rightarrow> lp_validate_loop lp bytes q ((cnt + 1) mod 2 ^ 32))"
  by pat_completeness auto
termination
proof (relation "measure (\<lambda>(lp, bytes, p, cnt). nat (int bytes - p))")
  fix lp bytes p cnt b r ok pp q
  assume "lpValidateNext lp (Some p) bytes = Inr r" "(ok, pp) = r" "\<not> \<not> ok" "pp = Some q"
  then show "((lp, bytes, q, (cnt + 1) mod 2 ^ 32), lp, bytes, p, cnt) \<in> measure (\<lambda>(lp, bytes, p, cnt). nat (int bytes - p))"
    using lpValidateNext_forward [of lp p bytes q] by auto
qed simp

declare lp_validate_loop.simps [simp del]

text \<open>\<^verbatim>\<open>lpValidateIntegrity\<close> without a callback; the buffer has the given size.\<close>

definition lpValidateIntegrity :: "byte list \<Rightarrow> bool \<Rightarrow> bool c_result" where
  "lpValidateIntegrity lp deep =
     (let size = length lp in
      if size < LP_HDR_SIZE + 1 then Inr False
      else c_bind (lpGetTotalBytes lp) (\<lambda>bytes.
        if bytes \<noteq> size then Inr False
        else c_bind (peek lp (int size - 1)) (\<lambda>b.
          if b \<noteq> LP_EOF then Inr False
          else if \<not> deep then Inr True
          else c_bind (lpGetNumElements lp) (\<lambda>numele.
            c_bind (lp_validate_loop lp bytes (int LP_HDR_SIZE) 0) (\<lambda>r. case r of
              None \<Rightarrow> Inr False
            | Some (p, cnt) \<Rightarrow>
                if p \<noteq> int size - 1 then Inr False
                else Inr (\<not> (numele \<noteq> LP_HDR_NUMELE_UNKNOWN \<and> numele \<noteq> cnt)))))))"

end
