(* ===== verification/Spec2Isabelle.thy ===== *)
theory Spec2Isabelle
  imports Controller_Bounds Fmsync_Props Random_Write Redis_Intset Redis_Glob Redis_Sds_Text Redis_Siphash Redis_Adlist Redis_Lzf Redis_Dict_Scan Redis_Listpack
begin

text \<open>
  \<^bold>\<open>Verification of the qemu-study repository.\<close>

  The repository studies live migration of virtual machines through shared memory.  A controller process on
  the source, the destination and a backup host drives QEMU and talks to the other two over TCP
  (\<^verbatim>\<open>src/apps/controller.c\<close>).  A simulator replays recorded dirty-page logs under write-back policies
  (\<^verbatim>\<open>src/fmsync_policy\<close>).  The virtual machines run workloads: a random writer
  (\<^verbatim>\<open>src/apps/random-write\<close>) and Redis 7.2.4 (\<^verbatim>\<open>src/apps/redis/redis-7.2.4/src\<close>), whose libraries of data
  structures and encodings are the larger part of what is modelled here.

  \<^bold>\<open>How the code is represented.\<close>  \<^verbatim>\<open>Prelude\<close> has the vocabulary.  A C function that can fail returns
  \<^typ>\<open>'a c_result\<close>: a failed assertion, an access outside its buffer, a null dereference and
  \<^verbatim>\<open>exit\<close> are values, so a theorem that a function returns \<open>Inr\<close> says that none of these happens.  Machine
  integers are words, or integers with the wrap-around written out; structures are records; loops are recursive functions
  with a termination proof.  \<^verbatim>\<open>Redis_Mem\<close> has byte buffers with checked access and little-endian integers.
  What the code does not determine is an argument of the model: what fresh memory holds, the usable size of an allocation,
  random numbers, the order of an unordered container, the answers of the kernel, the schedule.

  \<^bold>\<open>The controller.\<close>
  \<^item> \<^verbatim>\<open>Controller_Config\<close>: \<^verbatim>\<open>get_config_value\<close>, \<^verbatim>\<open>main\<close> and every command line built with \<^verbatim>\<open>sprintf\<close>.
  \<^item> \<^verbatim>\<open>Controller_Proc\<close>: each main function and signal handler of the six roles as a list of actions, and the system of
    three processes and two byte streams that executes them.  A step takes any process, any amount of data, any
    pending signal.
  \<^item> \<^verbatim>\<open>Controller_Safety\<close>: invariants of every reachable state (program order, exact delivery, framing), with the
    locale \<^verbatim>\<open>prefix_code\<close> for messages none of which is a prefix of another.
  \<^item> \<^verbatim>\<open>Controller_Migration\<close>: the destination loads the image only after the source completed it (C1); runs that
    complete both protocols (C2, C3); the two signal races (C4, C5).
  \<^item> \<^verbatim>\<open>Controller_Bounds\<close>: configuration lookup (C6), the size of every buffer (C7), messages in order (C8).

  \<^bold>\<open>The write-back simulator.\<close>  \<^verbatim>\<open>Fmsync_Policy\<close> models \<^verbatim>\<open>policy.cc\<close> and \<^verbatim>\<open>backup_policy.cc\<close>, and \<^verbatim>\<open>Fmsync_Props\<close> shows,
  through the locale \<^verbatim>\<open>write_back\<close>: the reports are the numbers of evictions (C9), the MIN policy evicts least (C10, C11),
  which pages LRU and LFU evict (C12, C13), the log format is read back (C14), and a negative target fails (C15).

  \<^bold>\<open>The random writer.\<close>  \<^verbatim>\<open>Random_Write\<close>: the threads of \<^verbatim>\<open>mem_access.c\<close> as an inductive step relation; safety in every
  interleaving, and the memory that is never written (C34).

  \<^bold>\<open>Redis.\<close>
  \<^item> \<^verbatim>\<open>Redis_Intset\<close> (\<^verbatim>\<open>intset.c\<close>): the packed sorted array refines a set of integers, locale \<^verbatim>\<open>int_set\<close> (C16); its readers
    (C17), the validation of stored sets (C18), and the 32-bit wrap-around of the moves (C19).
  \<^item> \<^verbatim>\<open>Redis_Glob\<close> (\<^verbatim>\<open>util.c\<close>): the matcher with its early exits equals the plain definition of matching (C20, C21).
  \<^item> \<^verbatim>\<open>Redis_Util\<close> (\<^verbatim>\<open>util.c\<close>): decimal numbers to and from strings (C22, C23), units (C24), negative numbers (C25).
  \<^item> \<^verbatim>\<open>Redis_Siphash\<close> (\<^verbatim>\<open>siphash.c\<close>): the case-insensitive hash is the hash of the lowered string (C26).
  \<^item> \<^verbatim>\<open>Redis_Sds\<close>, \<^verbatim>\<open>Redis_Sds_Text\<close> (\<^verbatim>\<open>sds.c\<close>): every edit keeps a well-formed string of the right header type and has the
    right contents (C27 to C29); formatting, quoting, splitting and joining, locale \<^verbatim>\<open>string_builder\<close> (C30 to C33).
    Lengths are below \<open>2 ^ 62\<close>, above which no allocation succeeds.
  \<^item> \<^verbatim>\<open>Redis_Adlist\<close> (\<^verbatim>\<open>adlist.c\<close>): linked nodes in a heap refine sequences, locale \<^verbatim>\<open>sequence\<close> (C35), and the iterator loops
    end (C36).  The loops take fuel; the length of the list is enough, and C36 says so.
  \<^item> \<^verbatim>\<open>Redis_Lzf\<close> (\<^verbatim>\<open>lzf_c.c\<close>, \<^verbatim>\<open>lzf_d.c\<close>): decompression inverts compression whatever the uninitialised hash table holds (C37), and
    is safe on any bytes (C38).  The input lies above the first 8192 bytes of the address space.
  \<^item> \<^verbatim>\<open>Redis_Dict\<close> (\<^verbatim>\<open>dict.c\<close>): the two hash tables with incremental rehashing, resize policy and the entries
    without values.  \<^verbatim>\<open>Redis_Dict_Props\<close>: any sequence of calls on a new dictionary behaves as on a map, locale
    \<^verbatim>\<open>simulation\<close> (C39).  There are fewer than \<open>2 ^ 60\<close> entries, more than fit in memory.  \<^verbatim>\<open>Redis_Dict_Scan\<close>: an
    iteration with \<^verbatim>\<open>dictScan\<close> ends and misses no key that stays, however the table changes between the calls (C40).

  \<^bold>\<open>Not modelled.\<close>  The scripts, benchmark drivers and plots, which only start programs and draw files; Graph500 and the YCSB
  client, third-party loads on MPI, sockets, time and floating point; the Redis server itself and its tools, which
  are input, output, time and global state around the libraries above; the dependencies bundled with Redis.  The
  remaining encodings of Redis (listpacks, radix trees, quicklists, checksums) are left for further work.  In what is modelled,
  running out of memory aborts the program and is no branch of the model, console output is left out, and the machine
  is a little-endian 64-bit one.
\<close>

end
